(* ===== verification/Naia_Prelude.thy ===== *)
theory Naia_Prelude
  imports Main "HOL-Library.Word"
begin

unbundle bit_operations_syntax

text \<open>
  The shared vocabulary of the development.
  \<^item> The machine integers of the source as words.
  \<^item> The failures of the source: \<^verbatim>\<open>SerdeErr\<close> (the error value of the bit-stream
    decoders) and a panic, carrying the message of the \<^verbatim>\<open>panic!\<close>, \<^verbatim>\<open>expect\<close>, index or
    overflow check that raises it.
    Plain \<^verbatim>\<open>+\<close>, \<^verbatim>\<open>-\<close> and \<^verbatim>\<open><<\<close> are modelled with the overflow checks of a debug build;
    \<^verbatim>\<open>wrapping_add\<close> and \<^verbatim>\<open>wrapping_sub\<close> are word arithmetic.
  \<^item> The result type and its sequencing combinator, which stands for the \<^verbatim>\<open>?\<close> operator and for
    the propagation of a panic.
  \<^item> Lemmas on lists, options and words that several components share.
\<close>

section \<open>Machine integers\<close>

type_synonym u8 = "8 word"
type_synonym u16 = "16 word"
type_synonym u32 = "32 word"
type_synonym u64 = "64 word"
type_synonym u128 = "128 word"

section \<open>Failures and results\<close>

text \<open>
  \<^verbatim>\<open>SerdeErr\<close> of the source, a panic, or a loop of the source that never ends.
\<close>

datatype error = SerdeErr | Panic string | Diverges

type_synonym 'a res = "error + 'a"

definition rbind :: "'a res \<Rightarrow> ('a \<Rightarrow> 'b res) \<Rightarrow> 'b res" where
  "rbind m f = (case m of Inl e \<Rightarrow> Inl e | Inr x \<Rightarrow> f x)"

lemma rbind_simps [simp]:
  "rbind (Inl e) f = Inl e"
  "rbind (Inr x) f = f x"
  by (simp_all add: rbind_def)

lemma rbind_eq_Inr:
  "rbind m f = Inr y \<longleftrightarrow> (\<exists>x. m = Inr x \<and> f x = Inr y)"
  by (cases m) auto

lemma rbind_eq_Inl:
  "rbind m f = Inl e \<longleftrightarrow> m = Inl e \<or> (\<exists>x. m = Inr x \<and> f x = Inl e)"
  by (cases m) auto

lemma rbind_assoc: "rbind (rbind m f) g = rbind m (\<lambda>x. rbind (f x) g)"
  by (cases m) auto

lemma rbind_cong [fundef_cong]:
  "m = m' \<Longrightarrow> (\<And>x. m' = Inr x \<Longrightarrow> f x = f' x) \<Longrightarrow> rbind m f = rbind m' f'"
  by (cases m') auto

text \<open>A \<^verbatim>\<open>for\<close> loop whose body may fail: the fold stops at the first failure.\<close>

fun rfold :: "('a \<Rightarrow> 's \<Rightarrow> 's res) \<Rightarrow> 'a list \<Rightarrow> 's \<Rightarrow> 's res" where
  "rfold f [] s = Inr s"
| "rfold f (x # xs) s = rbind (f x s) (rfold f xs)"

lemma rfold_append:
  "rfold f (xs @ ys) s = rbind (rfold f xs s) (rfold f ys)"
proof (induction xs arbitrary: s)
  case Nil
  then show ?case by simp
next
  case (Cons x xs)
  then show ?case by (cases "f x s") simp_all
qed

lemma rfold_cong [fundef_cong]:
  "xs = ys \<Longrightarrow> s = t \<Longrightarrow> (\<And>x u. x \<in> set ys \<Longrightarrow> f x u = g x u) \<Longrightarrow> rfold f xs s = rfold g ys t"
proof (induction xs arbitrary: ys s t)
  case Nil
  then show ?case by (cases ys) auto
next
  case (Cons x xs)
  then obtain ys' where ys: "ys = x # ys'" "xs = ys'"
    by (cases ys) auto
  have "rfold f xs u = rfold g ys' u" for u
    using Cons.IH [of ys' u u] Cons.prems(3) ys by simp
  then have "rfold f xs = rfold g ys'" by (rule ext)
  with Cons.prems ys show ?case by simp
qed

lemma rfold_inv:
  assumes "\<And>x s s'. x \<in> set xs \<Longrightarrow> P s \<Longrightarrow> f x s = Inr s' \<Longrightarrow> P s'"
    and "P s" and "rfold f xs s = Inr s'"
  shows "P s'"
  using assms
proof (induction xs arbitrary: s)
  case Nil
  then show ?case by simp
next
  case (Cons x xs)
  from Cons.prems(3) obtain t where t: "f x s = Inr t" "rfold f xs t = Inr s'"
    by (auto simp: rbind_eq_Inr)
  have "P t" using Cons.prems(1) [of x s t] Cons.prems(2) t(1) by simp
  show ?case
    by (rule Cons.IH [OF _ \<open>P t\<close> t(2)]) (rule Cons.prems(1), simp_all)
qed

section \<open>Time\<close>

text \<open>
  An \<^verbatim>\<open>Instant\<close> is a number of milliseconds; \<^verbatim>\<open>elapsed\<close> saturates, as the subtraction of instants of the standard
  library does. Where the source reads the clock, the instant is an argument.
\<close>

type_synonym instant = nat

definition elapsed :: "instant \<Rightarrow> instant \<Rightarrow> nat" where
  "elapsed i now = now - i"

section \<open>Collections of facts\<close>

named_theorems naia_defs \<open>definitions of small operations, unfolded by the component proofs\<close>

section \<open>Lists\<close>

lemma takeWhile_dropWhile_nth_stop:
  "dropWhile P xs = y # ys \<Longrightarrow> \<not> P y"
  by (metis hd_dropWhile list.distinct(1) list.sel(1))

lemma upt_split: "i \<le> j \<Longrightarrow> j \<le> k \<Longrightarrow> [i..<k] = [i..<j] @ [j..<k]"
  using upt_add_eq_append [of i j "k - j"] by simp

lemma sorted_wrt_snoc:
  "sorted_wrt R (xs @ [y]) \<longleftrightarrow> sorted_wrt R xs \<and> (\<forall>x\<in>set xs. R x y)"
  by (simp add: sorted_wrt_append)

section \<open>Words\<close>

lemma lessThan_Suc_u16: "(n :: u16) \<noteq> - 1 \<Longrightarrow> {..<n + 1} = Set.insert n {..<n}"
proof -
  assume "n \<noteq> - 1"
  then have "1 + n \<noteq> 0" by (metis add.commute eq_neg_iff_add_eq_0)
  then have "unat (n + 1) = unat n + 1" using unatSuc [of n] by (simp add: add.commute)
  then show ?thesis by (auto simp: word_less_nat_alt less_Suc_eq unsigned_word_eqI)
qed

end
