(* ===== verification/Wrapping_Number.thy ===== *)
theory Wrapping_Number
  imports Naia_Prelude
begin

text \<open>
  Sequence arithmetic of \<^verbatim>\<open>shared/src/wrapping_number.rs\<close>: the comparisons of 16-bit sequence
  numbers that every reliable component of the program relies on, and the signed difference the
  packet writer encodes.
  The lemmas show that the comparisons agree with the order of the unwrapped numbers as long as
  these lie less than half the range apart, that they are total and antisymmetric, and that
  the panics of \<^verbatim>\<open>wrapping_diff\<close> are unreachable.
\<close>

section \<open>The comparisons\<close>

definition sequence_greater_than :: "u16 \<Rightarrow> u16 \<Rightarrow> bool" where
  "sequence_greater_than s1 s2 \<longleftrightarrow>
     (s1 > s2 \<and> s1 - s2 \<le> 32768) \<or> (s1 < s2 \<and> s2 - s1 > 32768)"

definition sequence_equal_or_greater_than :: "u16 \<Rightarrow> u16 \<Rightarrow> bool" where
  "sequence_equal_or_greater_than s1 s2 \<longleftrightarrow> s1 = s2 \<or> sequence_greater_than s1 s2"

definition sequence_less_than :: "u16 \<Rightarrow> u16 \<Rightarrow> bool" where
  "sequence_less_than s1 s2 \<longleftrightarrow> sequence_greater_than s2 s1"

definition sequence_equal_or_less_than :: "u16 \<Rightarrow> u16 \<Rightarrow> bool" where
  "sequence_equal_or_less_than s1 s2 \<longleftrightarrow> s1 = s2 \<or> sequence_less_than s1 s2"

text \<open>The \<^verbatim>\<open>i16\<close> result is its value as an integer; the two panics are branches.\<close>

definition wrapping_diff :: "u16 \<Rightarrow> u16 \<Rightarrow> int res" where
  "wrapping_diff a b =
     (let max_i16 = 32767; min_i16 = -32768; adjust = 65535 + 1;
          a = uint a; b = uint b;
          result = b - a
      in if min_i16 \<le> result \<and> result \<le> max_i16 then Inr result
         else if b > a then
           (let result = b - (a + adjust)
            in if min_i16 \<le> result \<and> result \<le> max_i16 then Inr result
               else Inl (Panic ''integer overflow, this shouldn't happen''))
         else
           (let result = (b + adjust) - a
            in if min_i16 \<le> result \<and> result \<le> max_i16 then Inr result
               else Inl (Panic ''integer overflow, this shouldn't happen'')))"

section \<open>Characterisation by the distance modulo the range\<close>

lemma uint_bound_u16: "uint (a :: u16) < 65536"
  using uint_lt2p [of a] by simp

lemma unat_bound_u16: "unat (a :: u16) < 65536"
  using unsigned_less [of a, where ?'a = nat] by simp

lemma uint_diff_u16:
  "uint (a - b :: u16) =
     (if uint b \<le> uint a then uint a - uint b else uint a - uint b + 65536)"
  using uint_sub_if' [of a b] by simp

text \<open>The arithmetic of the comparisons, on integers in the range of a 16-bit number.\<close>

definition diff_int :: "int \<Rightarrow> int \<Rightarrow> int" where
  "diff_int x y = (if y \<le> x then x - y else x - y + 65536)"

lemma uint_diff_int: "uint (a - b :: u16) = diff_int (uint a) (uint b)"
  by (simp add: uint_diff_u16 diff_int_def)

lemma greater_int:
  fixes x y :: int
  assumes "0 \<le> x" "x < 65536" "0 \<le> y" "y < 65536"
  shows "((y < x \<and> diff_int x y \<le> 32768) \<or> (x < y \<and> 32768 < diff_int y x)) \<longleftrightarrow>
    0 < diff_int x y \<and> (diff_int x y < 32768 \<or> (diff_int x y = 32768 \<and> y < x))"
  using assms by (auto simp: diff_int_def)

lemma sequence_greater_than_uint:
  "sequence_greater_than a b \<longleftrightarrow>
     0 < uint (a - b) \<and> (uint (a - b) < 32768 \<or> (uint (a - b) = 32768 \<and> uint b < uint a))"
  using greater_int [of "uint a" "uint b"] uint_bound_u16 [of a] uint_bound_u16 [of b]
  by (simp add: sequence_greater_than_def word_less_def word_le_def uint_diff_int)

lemma sequence_greater_than_irrefl [simp]: "\<not> sequence_greater_than a a"
  by (simp add: sequence_greater_than_def)

lemma sequence_less_than_irrefl [simp]: "\<not> sequence_less_than a a"
  by (simp add: sequence_less_than_def)

lemma greater_int_cases:
  fixes x y :: int
  assumes "0 \<le> x" "x < 65536" "0 \<le> y" "y < 65536"
  defines "gt \<equiv> \<lambda>x y. 0 < diff_int x y \<and> (diff_int x y < 32768 \<or> (diff_int x y = 32768 \<and> y < x))"
  shows "\<not> (gt x y \<and> gt y x)" and "x \<noteq> y \<Longrightarrow> gt x y \<or> gt y x"
  using assms by (auto simp: diff_int_def split: if_splits)

lemma sequence_greater_than_asym:
  "sequence_greater_than a b \<Longrightarrow> \<not> sequence_greater_than b a"
  using greater_int_cases(1) [OF uint_ge_0 uint_bound_u16 uint_ge_0 uint_bound_u16, of a b]
  by (auto simp: sequence_greater_than_uint uint_diff_int)

lemma sequence_greater_than_total:
  "a \<noteq> b \<Longrightarrow> sequence_greater_than a b \<or> sequence_greater_than b a"
  using greater_int_cases(2) [OF uint_ge_0 uint_bound_u16 uint_ge_0 uint_bound_u16, of a b]
  by (auto simp: sequence_greater_than_uint uint_diff_int word_uint_eq_iff)

lemma sint_u16:
  "sint (w :: u16) = (if uint w < 32768 then uint w else uint w - 65536)"
proof -
  have b: "- 32768 \<le> sint w" "sint w < 32768"
    using sint_ge [of w] sint_lt [of w] by simp_all
  have u: "uint w = sint w mod 65536"
    by (simp add: uint_sint take_bit_eq_mod)
  show ?thesis
  proof (cases "0 \<le> sint w")
    case True
    with b u show ?thesis by simp
  next
    case False
    then have "sint w mod 65536 = (sint w + 65536) mod 65536" by simp
    also have "\<dots> = sint w + 65536" using b False by (intro mod_pos_pos_trivial) auto
    finally show ?thesis using u b False by simp
  qed
qed

lemma diff_int_cases:
  fixes x y :: int
  assumes "0 \<le> x" "x < 65536" "0 \<le> y" "y < 65536"
  shows "(if - 32768 \<le> x - y \<and> x - y \<le> 32767 then Inr (x - y)
     else if x > y then if - 32768 \<le> x - (y + (65535 + 1)) \<and> x - (y + (65535 + 1)) \<le> 32767
       then Inr (x - (y + (65535 + 1))) else e
     else if - 32768 \<le> (x + (65535 + 1)) - y \<and> (x + (65535 + 1)) - y \<le> 32767
       then Inr ((x + (65535 + 1)) - y) else e) =
    Inr (if diff_int x y < 32768 then diff_int x y else diff_int x y - 65536)"
  using assms by (auto simp: diff_int_def)

section \<open>Unwrapped windows\<close>

text \<open>
  \<open>seq_at b k\<close> is the wrapped sequence number of the \<open>k\<close>-th item counted from \<open>b\<close>.
\<close>

abbreviation seq_at :: "u16 \<Rightarrow> nat \<Rightarrow> u16" where
  "seq_at b k \<equiv> b + of_nat k"

lemma unat_of_nat_u16: "n < 65536 \<Longrightarrow> unat (of_nat n :: u16) = n"
  by (simp add: unat_of_nat)

lemma uint_of_nat_u16: "n < 65536 \<Longrightarrow> uint (of_nat n :: u16) = int n"
  by (simp add: uint_nat unat_of_nat_u16)

lemma seq_at_diff: "i \<le> j \<Longrightarrow> seq_at b j - seq_at b i = of_nat (j - i)"
  by (simp add: of_nat_diff)

lemma uint_seq_at_diff:
  "i \<le> j \<Longrightarrow> j - i < 65536 \<Longrightarrow> uint (seq_at b j - seq_at b i) = int (j - i)"
  using seq_at_diff [of i j b] uint_of_nat_u16 [of "j - i"] by metis

lemma seq_at_eq_iff:
  assumes "i < j + 65536" "j < i + 65536"
  shows "seq_at b i = seq_at b j \<longleftrightarrow> i = j"
proof -
  have *: "m = n" if "seq_at b m = seq_at b n" "m \<le> n" "n < m + 65536" for m n
  proof -
    have "uint (seq_at b n - seq_at b m) = int (n - m)"
      using that by (intro uint_seq_at_diff) auto
    with that show ?thesis by simp
  qed
  show ?thesis using * [of i j] * [of j i] assms by (metis nat_le_linear)
qed

lemma of_nat_u16_eq_iff:
  "i < j + 65536 \<Longrightarrow> j < i + 65536 \<Longrightarrow> (of_nat i :: u16) = of_nat j \<longleftrightarrow> i = j"
  using seq_at_eq_iff [of i j 0] by simp

lemma sequence_greater_than_seq_at:
  assumes "i < j + 32768" "j < i + 32768"
  shows "sequence_greater_than (seq_at b i) (seq_at b j) \<longleftrightarrow> j < i"
proof -
  have gt: "sequence_greater_than (seq_at b n) (seq_at b m)" if "m < n" "n < m + 32768" for m n
  proof -
    have "uint (seq_at b n - seq_at b m) = int (n - m)"
      using that by (intro uint_seq_at_diff) auto
    with that show ?thesis by (simp add: sequence_greater_than_uint)
  qed
  consider "j < i" | "i = j" | "i < j" by arith
  then show ?thesis
  proof cases
    case 1
    with assms gt show ?thesis by simp
  next
    case 2
    then show ?thesis by simp
  next
    case 3
    with assms gt [of i j] have "\<not> sequence_greater_than (seq_at b i) (seq_at b j)"
      by (blast dest: sequence_greater_than_asym)
    with 3 show ?thesis by simp
  qed
qed

lemma sequence_less_than_seq_at:
  assumes "i < j + 32768" "j < i + 32768"
  shows "sequence_less_than (seq_at b i) (seq_at b j) \<longleftrightarrow> i < j"
  unfolding sequence_less_than_def using assms by (intro sequence_greater_than_seq_at) auto

lemma sequence_equal_or_less_than_seq_at:
  assumes "i < j + 32768" "j < i + 32768"
  shows "sequence_equal_or_less_than (seq_at b i) (seq_at b j) \<longleftrightarrow> i \<le> j"
  using assms seq_at_eq_iff [of i j b] unfolding sequence_equal_or_less_than_def
  by (auto simp: sequence_less_than_seq_at)

lemmas seq_window = sequence_greater_than_seq_at sequence_less_than_seq_at
  sequence_equal_or_less_than_seq_at

lemma wrapping_diff_eq: "wrapping_diff a b = Inr (sint (b - a))"
  unfolding wrapping_diff_def Let_def sint_u16 uint_diff_int
  by (rule diff_int_cases) (simp_all add: uint_bound_u16)

section \<open>Properties\<close>

text \<open>
  The wrapping comparison orders any two sequence numbers that were assigned less than half
  the 16-bit range apart the way they were assigned, wherever the window lies, across the
  wrap included; equal numbers are the same assignment.
\<close>

theorem sequence_order_faithful:
  assumes "i < j + 32768" and "j < i + 32768"
  shows "(sequence_greater_than (b + of_nat i) (b + of_nat j) \<longleftrightarrow> j < i) \<and>
         (sequence_less_than (b + of_nat i) (b + of_nat j) \<longleftrightarrow> i < j) \<and>
         (sequence_equal_or_less_than (b + of_nat i) (b + of_nat j) \<longleftrightarrow> i \<le> j) \<and>
         (sequence_equal_or_greater_than (b + of_nat i) (b + of_nat j) \<longleftrightarrow> j \<le> i)"
  using assms seq_at_eq_iff [of i j b]
  by (auto simp: seq_window sequence_equal_or_greater_than_def)

theorem sequence_order_faithful_witness:
  "sequence_greater_than (65530 + of_nat 10) (65530 + of_nat 3) \<and>
   \<not> sequence_less_than (65530 + of_nat 10) (65530 + of_nat 3)"
  using sequence_order_faithful [of 10 3 65530] by simp

text \<open>
  \<open>wrapping_diff\<close> never panics, and its result is the two's complement value of the
  wrapped difference: adding it to the first number gives back the second.
\<close>

theorem wrapping_diff_total:
  "wrapping_diff a b = Inr (sint (b - a)) \<and> a + of_int (sint (b - a)) = b"
  by (simp add: wrapping_diff_eq)

end
