(* ===== verification/Entity_Message.thy ===== *)
theory Entity_Message
  imports Wrapping_Number
begin

text \<open>
  The vocabulary of entity replication: \<^verbatim>\<open>shared/src/world/entity/entity_message.rs\<close>,
  \<^verbatim>\<open>entity_message_type.rs\<close>, \<^verbatim>\<open>shared/src/world/entity_command.rs\<close>,
  \<^verbatim>\<open>shared/src/world/delegation/entity_auth_status.rs\<close> and \<^verbatim>\<open>HostType\<close> of \<^verbatim>\<open>shared/src/types.rs\<close>.
  A component kind is an opaque Rust \<^verbatim>\<open>TypeId\<close>, here a number; an entity of the wire is an
  argument of the message type, as in the source.
\<close>

section \<open>Identifiers\<close>

type_synonym component_kind = nat
type_synonym global_entity = u64
type_synonym message_index = u16
type_synonym subcommand_id = u8

datatype host_type = Server | Client

primrec invert :: "host_type \<Rightarrow> host_type" where
  "invert Server = Client"
| "invert Client = Server"

text \<open>\<^verbatim>\<open>RemoteEntity\<close> and \<^verbatim>\<open>HostEntity\<close>: a wire id and the pool it belongs to.\<close>

datatype remote_entity = RemoteEntity (re_id: u16) (re_static: bool)
datatype host_entity = HostEntity (he_id: u16) (he_static: bool)

section \<open>Authority status\<close>

datatype entity_auth_status = Available | Requested | Granted | Releasing | Denied

definition is_available :: "entity_auth_status \<Rightarrow> bool" where
  "is_available s = (case s of Available \<Rightarrow> True | _ \<Rightarrow> False)"

definition is_requested :: "entity_auth_status \<Rightarrow> bool" where
  "is_requested s = (case s of Requested \<Rightarrow> True | _ \<Rightarrow> False)"

definition is_granted :: "entity_auth_status \<Rightarrow> bool" where
  "is_granted s = (case s of Granted \<Rightarrow> True | _ \<Rightarrow> False)"

definition is_denied :: "entity_auth_status \<Rightarrow> bool" where
  "is_denied s = (case s of Denied \<Rightarrow> True | _ \<Rightarrow> False)"

definition is_releasing :: "entity_auth_status \<Rightarrow> bool" where
  "is_releasing s = (case s of Releasing \<Rightarrow> True | _ \<Rightarrow> False)"

record host_entity_auth_status =
  heas_host_type :: host_type
  heas_auth_status :: entity_auth_status

fun can_request_arm :: "host_type \<Rightarrow> entity_auth_status \<Rightarrow> bool res" where
  "can_request_arm Client Available = Inr True"
| "can_request_arm Client Requested = Inr False"
| "can_request_arm Client Granted = Inr False"
| "can_request_arm Client Releasing = Inr False"
| "can_request_arm Client Denied = Inr False"
| "can_request_arm Server _ = Inl (Panic ''can_request() is a client-side authority-flow predicate'')"

definition can_request :: "host_entity_auth_status \<Rightarrow> bool res" where
  "can_request s = can_request_arm (heas_host_type s) (heas_auth_status s)"

fun can_release_arm :: "host_type \<Rightarrow> entity_auth_status \<Rightarrow> bool res" where
  "can_release_arm Client Available = Inr False"
| "can_release_arm Client Requested = Inr True"
| "can_release_arm Client Granted = Inr True"
| "can_release_arm Client Releasing = Inr False"
| "can_release_arm Client Denied = Inr False"
| "can_release_arm Server _ = Inl (Panic ''can_release() is a client-side authority-flow predicate'')"

definition can_release :: "host_entity_auth_status \<Rightarrow> bool res" where
  "can_release s = can_release_arm (heas_host_type s) (heas_auth_status s)"

fun can_mutate_arm :: "host_type \<Rightarrow> entity_auth_status \<Rightarrow> bool" where
  "can_mutate_arm Client Available = False"
| "can_mutate_arm Client Requested = True"
| "can_mutate_arm Client Granted = True"
| "can_mutate_arm Client Releasing = False"
| "can_mutate_arm Client Denied = False"
| "can_mutate_arm Server _ = True"

definition can_mutate :: "host_entity_auth_status \<Rightarrow> bool" where
  "can_mutate s = can_mutate_arm (heas_host_type s) (heas_auth_status s)"

fun can_read_arm :: "host_type \<Rightarrow> entity_auth_status \<Rightarrow> bool" where
  "can_read_arm Client Available = True"
| "can_read_arm Client Requested = False"
| "can_read_arm Client Granted = False"
| "can_read_arm Client Releasing = True"
| "can_read_arm Client Denied = True"
| "can_read_arm Server _ = True"

definition can_read :: "host_entity_auth_status \<Rightarrow> bool" where
  "can_read s = can_read_arm (heas_host_type s) (heas_auth_status s)"

fun can_write_arm :: "host_type \<Rightarrow> entity_auth_status \<Rightarrow> bool" where
  "can_write_arm Client Available = False"
| "can_write_arm Client Requested = False"
| "can_write_arm Client Granted = True"
| "can_write_arm Client Releasing = True"
| "can_write_arm Client Denied = False"
| "can_write_arm Server _ = True"

definition can_write :: "host_entity_auth_status \<Rightarrow> bool" where
  "can_write s = can_write_arm (heas_host_type s) (heas_auth_status s)"

lemmas auth_arm_defs [naia_defs] =
  can_request_def can_release_def can_mutate_def can_read_def can_write_def

text \<open>On a client every status either accepts replicated values or allows local mutation, never both.\<close>

lemma client_reads_xor_mutates:
  "heas_host_type s = Client \<Longrightarrow> can_read s \<longleftrightarrow> \<not> can_mutate s"
  by (cases s; cases "heas_auth_status s") (simp_all add: auth_arm_defs)

section \<open>Messages\<close>

datatype entity_message_type =
    EMT_Spawn | EMT_SpawnWithComponents | EMT_Despawn | EMT_InsertComponent | EMT_RemoveComponent
  | EMT_Publish | EMT_Unpublish | EMT_EnableDelegation | EMT_DisableDelegation | EMT_SetAuthority
  | EMT_Noop
  | EMT_RequestAuthority | EMT_ReleaseAuthority | EMT_EnableDelegationResponse | EMT_MigrateResponse

datatype 'e entity_message =
    Spawn 'e
  | SpawnWithComponents 'e "component_kind list"
  | Despawn 'e
  | InsertComponent 'e component_kind
  | RemoveComponent 'e component_kind
  | Publish subcommand_id 'e
  | Unpublish subcommand_id 'e
  | EnableDelegation subcommand_id 'e
  | DisableDelegation subcommand_id 'e
  | SetAuthority subcommand_id 'e entity_auth_status
  | RequestAuthority subcommand_id 'e
  | ReleaseAuthority subcommand_id 'e
  | EnableDelegationResponse subcommand_id 'e
  | MigrateResponse subcommand_id 'e remote_entity
  | Noop

fun msg_entity :: "'e entity_message \<Rightarrow> 'e option" where
  "msg_entity (Spawn e) = Some e"
| "msg_entity (SpawnWithComponents e _) = Some e"
| "msg_entity (Despawn e) = Some e"
| "msg_entity (InsertComponent e _) = Some e"
| "msg_entity (RemoveComponent e _) = Some e"
| "msg_entity (Publish _ e) = Some e"
| "msg_entity (Unpublish _ e) = Some e"
| "msg_entity (EnableDelegation _ e) = Some e"
| "msg_entity (EnableDelegationResponse _ e) = Some e"
| "msg_entity (DisableDelegation _ e) = Some e"
| "msg_entity (RequestAuthority _ e) = Some e"
| "msg_entity (ReleaseAuthority _ e) = Some e"
| "msg_entity (SetAuthority _ e _) = Some e"
| "msg_entity (MigrateResponse _ e _) = Some e"
| "msg_entity Noop = None"

fun is_noop :: "'e entity_message \<Rightarrow> bool" where
  "is_noop Noop = True"
| "is_noop _ = False"

fun msg_component_kind :: "'e entity_message \<Rightarrow> component_kind option" where
  "msg_component_kind (InsertComponent _ k) = Some k"
| "msg_component_kind (RemoveComponent _ k) = Some k"
| "msg_component_kind _ = None"

fun with_entity :: "'e entity_message \<Rightarrow> 'o \<Rightarrow> 'o entity_message res" where
  "with_entity (Spawn _) e = Inr (Spawn e)"
| "with_entity (SpawnWithComponents _ ks) e = Inr (SpawnWithComponents e ks)"
| "with_entity (Despawn _) e = Inr (Despawn e)"
| "with_entity (InsertComponent _ k) e = Inr (InsertComponent e k)"
| "with_entity (RemoveComponent _ k) e = Inr (RemoveComponent e k)"
| "with_entity (Publish i _) e = Inr (Publish i e)"
| "with_entity (Unpublish i _) e = Inr (Unpublish i e)"
| "with_entity (EnableDelegation i _) e = Inr (EnableDelegation i e)"
| "with_entity (EnableDelegationResponse i _) e = Inr (EnableDelegationResponse i e)"
| "with_entity (DisableDelegation i _) e = Inr (DisableDelegation i e)"
| "with_entity (RequestAuthority i _) e = Inr (RequestAuthority i e)"
| "with_entity (ReleaseAuthority i _) e = Inr (ReleaseAuthority i e)"
| "with_entity (SetAuthority i _ s) e = Inr (SetAuthority i e s)"
| "with_entity (MigrateResponse i _ r) e = Inr (MigrateResponse i e r)"
| "with_entity Noop e = Inl (Panic ''Cannot add entity to a Noop message'')"

fun strip_entity :: "'e entity_message \<Rightarrow> unit entity_message res" where
  "strip_entity (Spawn _) = Inr (Spawn ())"
| "strip_entity (SpawnWithComponents _ ks) = Inr (SpawnWithComponents () ks)"
| "strip_entity (Despawn _) = Inr (Despawn ())"
| "strip_entity (InsertComponent _ k) = Inr (InsertComponent () k)"
| "strip_entity (RemoveComponent _ k) = Inr (RemoveComponent () k)"
| "strip_entity (Publish i _) = Inr (Publish i ())"
| "strip_entity (Unpublish i _) = Inr (Unpublish i ())"
| "strip_entity (EnableDelegation i _) = Inr (EnableDelegation i ())"
| "strip_entity (EnableDelegationResponse i _) = Inr (EnableDelegationResponse i ())"
| "strip_entity (DisableDelegation i _) = Inr (DisableDelegation i ())"
| "strip_entity (RequestAuthority i _) = Inr (RequestAuthority i ())"
| "strip_entity (ReleaseAuthority i _) = Inr (ReleaseAuthority i ())"
| "strip_entity (SetAuthority i _ s) = Inr (SetAuthority i () s)"
| "strip_entity (MigrateResponse i _ r) = Inr (MigrateResponse i () r)"
| "strip_entity Noop = Inl (Panic ''Cannot strip entity from a Noop message'')"

fun msg_get_type :: "'e entity_message \<Rightarrow> entity_message_type" where
  "msg_get_type (Spawn _) = EMT_Spawn"
| "msg_get_type (SpawnWithComponents _ _) = EMT_SpawnWithComponents"
| "msg_get_type (Despawn _) = EMT_Despawn"
| "msg_get_type (InsertComponent _ _) = EMT_InsertComponent"
| "msg_get_type (RemoveComponent _ _) = EMT_RemoveComponent"
| "msg_get_type (Publish _ _) = EMT_Publish"
| "msg_get_type (Unpublish _ _) = EMT_Unpublish"
| "msg_get_type (EnableDelegation _ _) = EMT_EnableDelegation"
| "msg_get_type (EnableDelegationResponse _ _) = EMT_EnableDelegationResponse"
| "msg_get_type (DisableDelegation _ _) = EMT_DisableDelegation"
| "msg_get_type (RequestAuthority _ _) = EMT_RequestAuthority"
| "msg_get_type (ReleaseAuthority _ _) = EMT_ReleaseAuthority"
| "msg_get_type (SetAuthority _ _ _) = EMT_SetAuthority"
| "msg_get_type (MigrateResponse _ _ _) = EMT_MigrateResponse"
| "msg_get_type Noop = EMT_Noop"

fun msg_subcommand_id :: "'e entity_message \<Rightarrow> subcommand_id option" where
  "msg_subcommand_id (Publish i _) = Some i"
| "msg_subcommand_id (Unpublish i _) = Some i"
| "msg_subcommand_id (EnableDelegation i _) = Some i"
| "msg_subcommand_id (EnableDelegationResponse i _) = Some i"
| "msg_subcommand_id (DisableDelegation i _) = Some i"
| "msg_subcommand_id (RequestAuthority i _) = Some i"
| "msg_subcommand_id (ReleaseAuthority i _) = Some i"
| "msg_subcommand_id (SetAuthority i _ _) = Some i"
| "msg_subcommand_id (MigrateResponse i _ _) = Some i"
| "msg_subcommand_id _ = None"

definition apply_entity_redirect :: "'e entity_message \<Rightarrow> 'e \<Rightarrow> 'o \<Rightarrow> 'o entity_message res" where
  "apply_entity_redirect m old_entity new_entity =
     (case msg_entity m of
        Some e \<Rightarrow> if e = old_entity then with_entity m new_entity else with_entity m new_entity
      | None \<Rightarrow> with_entity m new_entity)"

fun with_component_kind :: "entity_message_type \<Rightarrow> component_kind \<Rightarrow> unit entity_message res" where
  "with_component_kind EMT_InsertComponent k = Inr (InsertComponent () k)"
| "with_component_kind EMT_RemoveComponent k = Inr (RemoveComponent () k)"
| "with_component_kind _ k = Inl (Panic ''Cannot apply component kind to message type'')"

section \<open>Commands\<close>

datatype entity_command =
    C_Spawn global_entity
  | C_SpawnWithComponents global_entity "component_kind list"
  | C_Despawn global_entity
  | C_InsertComponent global_entity component_kind
  | C_RemoveComponent global_entity component_kind
  | C_Publish "subcommand_id option" global_entity
  | C_Unpublish "subcommand_id option" global_entity
  | C_EnableDelegation "subcommand_id option" global_entity
  | C_DisableDelegation "subcommand_id option" global_entity
  | C_SetAuthority "subcommand_id option" global_entity entity_auth_status
  | C_RequestAuthority "subcommand_id option" global_entity
  | C_ReleaseAuthority "subcommand_id option" global_entity
  | C_EnableDelegationResponse "subcommand_id option" global_entity
  | C_MigrateResponse "subcommand_id option" global_entity remote_entity host_entity

fun cmd_entity :: "entity_command \<Rightarrow> global_entity" where
  "cmd_entity (C_Spawn e) = e"
| "cmd_entity (C_SpawnWithComponents e _) = e"
| "cmd_entity (C_Despawn e) = e"
| "cmd_entity (C_InsertComponent e _) = e"
| "cmd_entity (C_RemoveComponent e _) = e"
| "cmd_entity (C_Publish _ e) = e"
| "cmd_entity (C_Unpublish _ e) = e"
| "cmd_entity (C_EnableDelegation _ e) = e"
| "cmd_entity (C_DisableDelegation _ e) = e"
| "cmd_entity (C_SetAuthority _ e _) = e"
| "cmd_entity (C_RequestAuthority _ e) = e"
| "cmd_entity (C_ReleaseAuthority _ e) = e"
| "cmd_entity (C_EnableDelegationResponse _ e) = e"
| "cmd_entity (C_MigrateResponse _ e _ _) = e"

fun cmd_component_kind :: "entity_command \<Rightarrow> component_kind option" where
  "cmd_component_kind (C_InsertComponent _ k) = Some k"
| "cmd_component_kind (C_RemoveComponent _ k) = Some k"
| "cmd_component_kind _ = None"

fun cmd_get_type :: "entity_command \<Rightarrow> entity_message_type" where
  "cmd_get_type (C_Spawn _) = EMT_Spawn"
| "cmd_get_type (C_SpawnWithComponents _ _) = EMT_SpawnWithComponents"
| "cmd_get_type (C_Despawn _) = EMT_Despawn"
| "cmd_get_type (C_InsertComponent _ _) = EMT_InsertComponent"
| "cmd_get_type (C_RemoveComponent _ _) = EMT_RemoveComponent"
| "cmd_get_type (C_Publish _ _) = EMT_Publish"
| "cmd_get_type (C_Unpublish _ _) = EMT_Unpublish"
| "cmd_get_type (C_EnableDelegation _ _) = EMT_EnableDelegation"
| "cmd_get_type (C_DisableDelegation _ _) = EMT_DisableDelegation"
| "cmd_get_type (C_SetAuthority _ _ _) = EMT_SetAuthority"
| "cmd_get_type (C_RequestAuthority _ _) = EMT_RequestAuthority"
| "cmd_get_type (C_ReleaseAuthority _ _) = EMT_ReleaseAuthority"
| "cmd_get_type (C_EnableDelegationResponse _ _) = EMT_EnableDelegationResponse"
| "cmd_get_type (C_MigrateResponse _ _ _ _) = EMT_MigrateResponse"

fun set_subcommand_id :: "subcommand_id \<Rightarrow> entity_command \<Rightarrow> entity_command res" where
  "set_subcommand_id i (C_Publish _ e) = Inr (C_Publish (Some i) e)"
| "set_subcommand_id i (C_Unpublish _ e) = Inr (C_Unpublish (Some i) e)"
| "set_subcommand_id i (C_EnableDelegation _ e) = Inr (C_EnableDelegation (Some i) e)"
| "set_subcommand_id i (C_DisableDelegation _ e) = Inr (C_DisableDelegation (Some i) e)"
| "set_subcommand_id i (C_SetAuthority _ e s) = Inr (C_SetAuthority (Some i) e s)"
| "set_subcommand_id i (C_RequestAuthority _ e) = Inr (C_RequestAuthority (Some i) e)"
| "set_subcommand_id i (C_ReleaseAuthority _ e) = Inr (C_ReleaseAuthority (Some i) e)"
| "set_subcommand_id i (C_EnableDelegationResponse _ e) = Inr (C_EnableDelegationResponse (Some i) e)"
| "set_subcommand_id i (C_MigrateResponse _ e r h) = Inr (C_MigrateResponse (Some i) e r h)"
| "set_subcommand_id i _ = Inl (Panic ''Cannot set subcommand ID for a command that does not have one'')"

fun is_valid_for_remote_entity :: "entity_command \<Rightarrow> bool" where
  "is_valid_for_remote_entity (C_Publish _ _) = False"
| "is_valid_for_remote_entity (C_Unpublish _ _) = False"
| "is_valid_for_remote_entity (C_EnableDelegation _ _) = False"
| "is_valid_for_remote_entity (C_DisableDelegation _ _) = False"
| "is_valid_for_remote_entity (C_InsertComponent _ _) = True"
| "is_valid_for_remote_entity (C_RemoveComponent _ _) = True"
| "is_valid_for_remote_entity (C_Despawn _) = True"
| "is_valid_for_remote_entity _ = False"

fun cmd_subcommand_id :: "entity_command \<Rightarrow> subcommand_id option" where
  "cmd_subcommand_id (C_Publish i _) = i"
| "cmd_subcommand_id (C_Unpublish i _) = i"
| "cmd_subcommand_id (C_EnableDelegation i _) = i"
| "cmd_subcommand_id (C_DisableDelegation i _) = i"
| "cmd_subcommand_id (C_SetAuthority i _ _) = i"
| "cmd_subcommand_id (C_RequestAuthority i _) = i"
| "cmd_subcommand_id (C_ReleaseAuthority i _) = i"
| "cmd_subcommand_id (C_EnableDelegationResponse i _) = i"
| "cmd_subcommand_id (C_MigrateResponse i _ _ _) = i"
| "cmd_subcommand_id _ = None"

section \<open>Facts\<close>

lemma strip_entity_as_with_entity:
  "strip_entity m = (if m = Noop then Inl (Panic ''Cannot strip entity from a Noop message'')
     else with_entity m ())"
  by (cases m) auto

lemma strip_with_entity:
  "strip_entity m = Inr m' \<Longrightarrow> msg_entity m = Some e \<Longrightarrow> with_entity m' e = Inr m"
  by (cases m) auto

lemma strip_entity_keeps:
  "strip_entity m = Inr m' \<Longrightarrow>
     msg_get_type m' = msg_get_type m \<and> msg_component_kind m' = msg_component_kind m \<and>
     msg_subcommand_id m' = msg_subcommand_id m"
  by (cases m) auto

lemma strip_entity_total: "m \<noteq> Noop \<Longrightarrow> \<exists>m'. strip_entity m = Inr m' \<and> m' \<noteq> Noop"
  by (cases m) auto

lemma with_entity_total: "m \<noteq> Noop \<Longrightarrow> \<exists>m'. with_entity m e = Inr m' \<and> msg_entity m' = Some e"
  by (cases m) auto

lemma set_subcommand_id_keeps:
  "set_subcommand_id i c = Inr c' \<Longrightarrow>
     cmd_subcommand_id c' = Some i \<and> cmd_entity c' = cmd_entity c \<and> cmd_get_type c' = cmd_get_type c"
  by (cases c) auto

end
