(* ===== verification/Ordered_Ids.thy ===== *)
theory Ordered_Ids
  imports Wrapping_Number "HOL-Library.Multiset"
begin

text \<open>
  \<^verbatim>\<open>shared/src/world/sync/ordered_ids.rs\<close>: the deque of message ids, smallest in front, that every
  channel of the replication engine buffers out-of-order messages in. The insertion walks the
  deque from the back with the wrapping comparison; the lemmas show that, for ids within half the
  16-bit range of each other, it is insertion into a sorted list of unwrapped ids.
\<close>

section \<open>The deque\<close>

type_synonym 'p ordered_ids = "(u16 \<times> 'p) list"

definition oi_new :: "'p ordered_ids" where
  "oi_new = []"

text \<open>The loop of \<^verbatim>\<open>push_back\<close>: the first argument is \<^verbatim>\<open>current_index\<close> at the head of the loop.\<close>

fun push_back_loop :: "nat \<Rightarrow> u16 \<Rightarrow> 'p \<Rightarrow> 'p ordered_ids \<Rightarrow> 'p ordered_ids" where
  "push_back_loop 0 message_index item inner = (message_index, item) # inner"
| "push_back_loop (Suc c) message_index item inner =
     (if sequence_less_than (fst (inner ! c)) message_index
      then take (Suc c) inner @ (message_index, item) # drop (Suc c) inner
      else push_back_loop c message_index item inner)"

definition oi_push_back :: "u16 \<Rightarrow> 'p \<Rightarrow> 'p ordered_ids \<Rightarrow> 'p ordered_ids" where
  "oi_push_back message_index item inner = push_back_loop (length inner) message_index item inner"

definition peek_front :: "'p ordered_ids \<Rightarrow> (u16 \<times> 'p) option" where
  "peek_front inner = (case inner of [] \<Rightarrow> None | p # _ \<Rightarrow> Some p)"

definition pop_front :: "'p ordered_ids \<Rightarrow> (u16 \<times> 'p) option \<times> 'p ordered_ids" where
  "pop_front inner = (case inner of [] \<Rightarrow> (None, []) | p # ps \<Rightarrow> (Some p, ps))"

fun pop_front_until :: "u16 \<Rightarrow> bool \<Rightarrow> 'p ordered_ids \<Rightarrow> 'p ordered_ids" where
  "pop_front_until index including [] = []"
| "pop_front_until index including ((old_index, x) # inner) =
     (if sequence_less_than old_index index \<or> (including \<and> old_index = index)
      then pop_front_until index including inner
      else (old_index, x) # inner)"

definition pop_front_until_and_including :: "u16 \<Rightarrow> 'p ordered_ids \<Rightarrow> 'p ordered_ids" where
  "pop_front_until_and_including index inner = pop_front_until index True inner"

definition pop_front_until_and_excluding :: "u16 \<Rightarrow> 'p ordered_ids \<Rightarrow> 'p ordered_ids" where
  "pop_front_until_and_excluding index inner = pop_front_until index False inner"

definition oi_clear :: "'p ordered_ids \<Rightarrow> 'p ordered_ids" where
  "oi_clear inner = []"

lemmas oi_defs [naia_defs] = oi_new_def oi_clear_def pop_front_until_and_including_def
  pop_front_until_and_excluding_def

lemma peek_front_simps [simp]:
  "peek_front [] = None" "peek_front (p # ps) = Some p"
  by (simp_all add: peek_front_def)

lemma pop_front_simps [simp]:
  "pop_front [] = (None, [])" "pop_front (p # ps) = (Some p, ps)"
  by (simp_all add: pop_front_def)

section \<open>Unwrapped contents\<close>

text \<open>
  \<open>wrapped b xs\<close> is the deque that holds the unwrapped ids of \<open>xs\<close>, counted from \<open>b\<close>;
  \<open>near k xs\<close> says that every id of \<open>xs\<close> lies within half the 16-bit range of \<open>k\<close>.
\<close>

definition wrapped :: "u16 \<Rightarrow> (nat \<times> 'p) list \<Rightarrow> 'p ordered_ids" where
  "wrapped b xs = map (\<lambda>(k, x). (seq_at b k, x)) xs"

definition near :: "nat \<Rightarrow> (nat \<times> 'p) list \<Rightarrow> bool" where
  "near k xs = list_all (\<lambda>(j, _). j < k + 32768 \<and> k < j + 32768) xs"

abbreviation sorted_ids :: "(nat \<times> 'p) list \<Rightarrow> bool" where
  "sorted_ids xs \<equiv> sorted (map fst xs)"

lemma wrapped_simps [simp]:
  "wrapped b [] = []"
  "wrapped b (p # xs) = (seq_at b (fst p), snd p) # wrapped b xs"
  "wrapped b (xs @ ys) = wrapped b xs @ wrapped b ys"
  "length (wrapped b xs) = length xs"
  "wrapped b xs = [] \<longleftrightarrow> xs = []"
  by (simp_all add: wrapped_def split_beta)

lemma near_simps [simp]:
  "near k []"
  "near k (p # xs) \<longleftrightarrow> fst p < k + 32768 \<and> k < fst p + 32768 \<and> near k xs"
  "near k (xs @ ys) \<longleftrightarrow> near k xs \<and> near k ys"
  by (auto simp: near_def split_beta)

lemma near_iff: "near k xs \<longleftrightarrow> (\<forall>p\<in>set xs. fst p < k + 32768 \<and> k < fst p + 32768)"
  by (auto simp: near_def list_all_iff split_beta)

lemma push_back_loop_append:
  "push_back_loop (length ys) i x (ys @ zs) = push_back_loop (length ys) i x ys @ zs"
proof (induction ys arbitrary: zs rule: rev_induct)
  case Nil
  then show ?case by simp
next
  case (snoc y ys)
  then show ?case using snoc.IH [of "y # zs"] snoc.IH [of "[y]"] by (simp add: nth_append)
qed

lemma oi_push_back_snoc:
  "oi_push_back i x (ys @ [y]) =
     (if sequence_less_than (fst y) i then ys @ [y, (i, x)] else oi_push_back i x ys @ [y])"
  using push_back_loop_append [of ys i x "[y]"] by (simp add: oi_push_back_def nth_append)

lemma insort_key_snoc:
  "sorted (map f (ys @ [y])) \<Longrightarrow>
   insort_key f x (ys @ [y]) = (if f y < f x then ys @ [y, x] else insort_key f x ys @ [y])"
proof (induction ys)
  case Nil
  then show ?case by auto
next
  case (Cons a ys)
  then show ?case by (auto split: if_splits)
qed

lemma oi_push_back_wrapped:
  "near k xs \<Longrightarrow> sorted_ids xs \<Longrightarrow>
   oi_push_back (seq_at b k) x (wrapped b xs) = wrapped b (insort_key fst (k, x) xs)"
proof (induction xs rule: rev_induct)
  case Nil
  then show ?case by (simp add: oi_push_back_def)
next
  case (snoc p xs)
  then have "sequence_less_than (seq_at b (fst p)) (seq_at b k) \<longleftrightarrow> fst p < k"
    by (intro sequence_less_than_seq_at) auto
  with snoc show ?case
    by (simp add: oi_push_back_snoc insort_key_snoc sorted_append)
qed

lemma pop_front_until_wrapped:
  "near k xs \<Longrightarrow> pop_front_until (seq_at b k) incl (wrapped b xs) =
     wrapped b (dropWhile (\<lambda>p. fst p < k \<or> (incl \<and> fst p = k)) xs)"
  by (induction xs) (auto simp: seq_window of_nat_u16_eq_iff)

text \<open>On a sorted deque the loop removes exactly the smaller ids.\<close>

lemma dropWhile_filter_sorted:
  "sorted_ids xs \<Longrightarrow>
   dropWhile (\<lambda>p. fst p < k \<or> (incl \<and> fst p = k)) xs =
   filter (\<lambda>p. \<not> (fst p < k \<or> (incl \<and> fst p = k))) xs"
proof (induction xs)
  case Nil
  then show ?case by simp
next
  case (Cons a xs)
  then have "filter (\<lambda>p. \<not> (fst p < k \<or> (incl \<and> fst p = k))) xs = xs"
    if "\<not> (fst a < k \<or> (incl \<and> fst a = k))"
    using that by (force simp: filter_id_conv)
  with Cons show ?case by simp
qed

section \<open>Numbered messages\<close>

text \<open>
  A sender numbers its messages 0, 1, 2 and so on; message \<open>i\<close> has the unwrapped id \<open>ks ! i\<close> and
  the payload \<open>f i\<close>. The lemmas say which numbers a channel's buffer holds.
\<close>

lemma insort_key_map_nth:
  assumes "sorted_wrt (<) ks" "j < length ks" "\<forall>i\<in>set L. i < length ks" "sorted_wrt (<) L" "j \<notin> set L"
  shows "insort_key fst (ks ! j, f j) (map (\<lambda>i. (ks ! i, f i)) L) =
    map (\<lambda>i. (ks ! i, f i)) (insort j L)"
  using assms(3-)
proof (induction L)
  case Nil
  then show ?case by simp
next
  case (Cons i L)
  have "ks ! j \<le> ks ! i \<longleftrightarrow> j \<le> i"
    using assms(1,2) Cons.prems(1,3)
    by (metis linorder_not_le list.set_intros(1) nle_le sorted_wrt_nth_less)
  with Cons show ?case by simp
qed

text \<open>The received messages \<open>R\<close> that are not yet applied, in order.\<close>

definition pending :: "nat \<Rightarrow> nat set \<Rightarrow> nat list" where
  "pending m R = filter ((\<le>) m) (sorted_list_of_set R)"

lemma pending_set: "finite R \<Longrightarrow> set (pending m R) = {i \<in> R. m \<le> i}"
  by (auto simp: pending_def)

lemma pending_sorted: "sorted_wrt (<) (pending m R)"
  by (simp add: pending_def sorted_wrt_filter)

lemma pending_insert:
  assumes "finite R" "j \<notin> R"
  shows "pending m (insert j R) = (if m \<le> j then insort j (pending m R) else pending m R)"
  using assms by (simp add: pending_def filter_insort filter_insort_triv)

lemma filter_pending: "m \<le> m' \<Longrightarrow> filter ((\<le>) m') (pending m R) = pending m' R"
  by (auto simp: pending_def intro!: filter_cong)

lemma filter_le_upt: "filter ((\<le>) m) [0..<n] = [m..<n]"
  by (induction n) auto

lemma nth_window:
  "\<forall>k\<in>set ks. k < (32768 :: nat) \<Longrightarrow> i < length ks \<Longrightarrow> j < length ks \<Longrightarrow> ks ! i < ks ! j + 32768"
  by (metis nth_mem trans_less_add2)

lemma strict_nth_le_iff:
  "sorted_wrt (<) (ks :: nat list) \<Longrightarrow> i < length ks \<Longrightarrow> j < length ks \<Longrightarrow> ks ! i \<le> ks ! j \<longleftrightarrow> i \<le> j"
  by (metis linorder_not_le nle_le sorted_wrt_nth_less)

lemma push_pending:
  assumes ks: "sorted_wrt (<) ks" "\<forall>k\<in>set ks. k < 32768"
    and R: "R \<subseteq> {..<length ks}" "j < length ks" "j \<notin> R" and "m \<le> j"
  shows "oi_push_back (b + of_nat (ks ! j)) (f j)
        (wrapped b (map (\<lambda>i. (ks ! i, f i)) (pending m R))) =
      wrapped b (map (\<lambda>i. (ks ! i, f i)) (pending m (insert j R)))"
proof -
  have fin: "finite R" using R(1) finite_subset by blast
  have lt: "\<forall>i\<in>set (pending m R). i < length ks" using R(1) fin by (auto simp: pending_set)
  have "near (ks ! j) (map (\<lambda>i. (ks ! i, f i)) (pending m R))"
    using lt R(2) nth_window [OF ks(2)] by (simp add: near_iff)
  moreover have "sorted_wrt (\<lambda>i i'. ks ! i \<le> ks ! i') (pending m R)"
    using lt by (intro sorted_wrt_mono_rel [OF _ pending_sorted]) (simp add: strict_nth_le_iff ks(1))
  ultimately show ?thesis
    using insort_key_map_nth [where f = f, OF ks(1) R(2) lt pending_sorted] fin R(3) \<open>m \<le> j\<close>
    by (subst oi_push_back_wrapped) (simp_all add: sorted_map pending_set pending_insert)
qed

section \<open>The interface the channels rely on\<close>

text \<open>
  What a channel needs of its buffer: \<open>conc b xs\<close> is the buffer holding the unwrapped entries
  \<open>xs\<close>; a push sorts its entry in, a peek and a pop see the smallest.
\<close>

locale ordered_buffer =
  fixes conc :: "u16 \<Rightarrow> (nat \<times> 'p) list \<Rightarrow> 'q"
    and push :: "u16 \<Rightarrow> 'p \<Rightarrow> 'q \<Rightarrow> 'q"
    and pop :: "'q \<Rightarrow> (u16 \<times> 'p) option \<times> 'q"
  assumes push_conc: "near k xs \<Longrightarrow> sorted_ids xs \<Longrightarrow>
      push (b + of_nat k) x (conc b xs) = conc b (insort_key fst (k, x) xs)"
    and pop_conc_Nil: "pop (conc b []) = (None, conc b [])"
    and pop_conc_Cons: "pop (conc b (p # xs)) = (Some (b + of_nat (fst p), snd p), conc b xs)"
begin

definition push_all :: "u16 \<Rightarrow> (nat \<times> 'p) list \<Rightarrow> 'q \<Rightarrow> 'q" where
  "push_all b ps q = fold (\<lambda>(k, x). push (b + of_nat k) x) ps q"

lemma push_all_conc:
  assumes "\<And>p. p \<in> set ps \<Longrightarrow> fst p < 32768" "\<And>p. p \<in> set xs \<Longrightarrow> fst p < 32768" "sorted_ids xs"
  shows "push_all b ps (conc b xs) = conc b (fold (insort_key fst) ps xs)"
  using assms unfolding push_all_def
proof (induction ps arbitrary: xs)
  case Nil
  then show ?case by simp
next
  case (Cons p ps)
  have "fst q < fst p + 32768 \<and> fst p < fst q + 32768" if "q \<in> set xs" for q
    using Cons.prems(1) [of p] Cons.prems(2) [of q] that by simp
  then have "near (fst p) xs"
    by (simp add: near_iff)
  then have "push (b + of_nat (fst p)) (snd p) (conc b xs) = conc b (insort_key fst p xs)"
    using Cons.prems(3) push_conc [of "fst p" xs b "snd p"] by simp
  moreover have "fold (\<lambda>(k, x). push (b + of_nat k) x) ps (conc b (insort_key fst p xs)) =
      conc b (fold (insort_key fst) ps (insort_key fst p xs))"
    using Cons.prems by (intro Cons.IH) (auto simp: set_insort_key sorted_insort_key)
  ultimately show ?case by (cases p) simp
qed

text \<open>Entries that arrive in any order leave the buffer the sorted one.\<close>

lemma push_all_sorts:
  assumes "\<And>p. p \<in> set ps \<Longrightarrow> fst p < 32768" "distinct (map fst ps)"
    "sorted_ids xs" "set xs = set ps" "distinct xs"
  shows "push_all b ps (conc b []) = conc b xs"
proof -
  have "push_all b ps (conc b []) = conc b (sort_key fst (rev ps))"
    using assms(1) by (subst push_all_conc) (simp_all add: sort_key_def foldr_conv_fold)
  also have "sort_key fst (rev ps) = xs"
    using assms by (intro map_sorted_distinct_set_unique [where f = fst])
      (auto simp: inj_on_def eq_key_imp_eq_value distinct_map)
  finally show ?thesis .
qed

end

interpretation oi: ordered_buffer wrapped oi_push_back pop_front
  by unfold_locales (simp_all add: oi_push_back_wrapped)

section \<open>Properties\<close>

text \<open>
  C31. Whatever order messages with distinct ids within half the 16-bit range arrive in, across the
  wrap of the ids included, pushing them gives one and the same buffer: the ids in the order in
  which they were assigned.
\<close>

theorem push_back_sorts_any_arrival_order:
  assumes "sorted_wrt (<) (map fst xs)" and "\<forall>p\<in>set xs. fst p < 32768" and "mset ps = mset xs"
  shows "fold (\<lambda>(k, x). oi_push_back (b + of_nat k) x) ps oi_new = map (\<lambda>(k, x). (b + of_nat k, x)) xs"
proof -
  have "set ps = set xs" "distinct ps = distinct xs"
    using assms(3) by (auto dest: mset_eq_setD mset_eq_imp_distinct_iff)
  moreover have "distinct (map fst xs)"
    using assms(1) by (simp add: strict_sorted_iff)
  ultimately have "oi.push_all b ps (wrapped b []) = wrapped b xs"
    using assms(1,2)
    by (intro oi.push_all_sorts) (auto simp: strict_sorted_iff distinct_map)
  then show ?thesis
    by (simp add: oi.push_all_def oi_new_def wrapped_def)
qed

theorem push_back_sorts_any_arrival_order_witness:
  "fold (\<lambda>(k, x). oi_push_back (65534 + of_nat k) x) [(2, True), (0, False), (1, True)] oi_new =
     [(65534, False), (65535, True), (0, True)]"
  using push_back_sorts_any_arrival_order
    [of "[(0, False), (1, True), (2, True)]" "[(2, True), (0, False), (1, True)]" 65534]
  by simp

end
