(* ===== verification/Remote_Component_Channel.thy ===== *)
theory Remote_Component_Channel
  imports Entity_Message Ordered_Ids
begin

text \<open>
  \<^verbatim>\<open>shared/src/world/sync/remote_component_channel.rs\<close>: the receiving state machine of one component
  of one entity. The definitions are the module's operations; the lemmas show that the channel
  follows the sender's insert/remove toggles whatever order their messages arrive in.
\<close>

section \<open>The channel\<close>

datatype entity_channel_state = Despawned | Spawned

record remote_component_channel =
  rcc_inserted :: bool
  rcc_last_epoch_id :: "message_index option"
  rcc_buffered_messages :: "bool ordered_ids"
  rcc_incoming_messages :: "entity_message_type list"

definition rcc_new :: remote_component_channel where
  "rcc_new = \<lparr> rcc_inserted = False, rcc_last_epoch_id = None, rcc_buffered_messages = oi_new,
     rcc_incoming_messages = [] \<rparr>"

definition rcc_set_inserted ::
  "bool \<Rightarrow> message_index \<Rightarrow> remote_component_channel \<Rightarrow> remote_component_channel" where
  "rcc_set_inserted inserted last_epoch_id c =
     c \<lparr> rcc_inserted := inserted, rcc_last_epoch_id := Some last_epoch_id \<rparr>"

definition rcc_is_inserted :: "remote_component_channel \<Rightarrow> bool" where
  "rcc_is_inserted c = rcc_inserted c"

definition toggle_type :: "bool \<Rightarrow> entity_message_type" where
  "toggle_type ins = (if ins then EMT_InsertComponent else EMT_RemoveComponent)"

text \<open>
  The loop of \<^verbatim>\<open>process_messages\<close>. The \<^verbatim>\<open>pop_front().unwrap()\<close> of the source returns the entry that
  \<^verbatim>\<open>peek_front\<close> has just shown.
\<close>

function rcc_process_loop :: "remote_component_channel \<Rightarrow> remote_component_channel" where
  "rcc_process_loop c =
     (case peek_front (rcc_buffered_messages c) of
        None \<Rightarrow> c
      | Some (mid, ins) \<Rightarrow>
          if ins \<and> rcc_inserted c then c
          else if \<not> ins \<and> \<not> rcc_inserted c then c
          else
            let c' = rcc_set_inserted ins mid c in
            rcc_process_loop (c'
              \<lparr> rcc_buffered_messages := snd (pop_front (rcc_buffered_messages c')),
                rcc_incoming_messages := rcc_incoming_messages c' @ [toggle_type ins] \<rparr>))"
  by auto
termination
  by (relation "measure (\<lambda>c. length (rcc_buffered_messages c))")
    (auto simp: rcc_set_inserted_def peek_front_def split: list.splits)

declare rcc_process_loop.simps [simp del]

definition rcc_process_messages ::
  "entity_channel_state \<Rightarrow> remote_component_channel \<Rightarrow> remote_component_channel" where
  "rcc_process_messages entity_state c =
     (if entity_state \<noteq> Spawned then c else rcc_process_loop c)"

definition rcc_buffer_pop_front_until_and_excluding ::
  "message_index \<Rightarrow> remote_component_channel \<Rightarrow> remote_component_channel" where
  "rcc_buffer_pop_front_until_and_excluding mid c =
     c \<lparr> rcc_buffered_messages := pop_front_until_and_excluding mid (rcc_buffered_messages c) \<rparr>"

fun toggle_flag :: "unit entity_message \<Rightarrow> bool res" where
  "toggle_flag (InsertComponent _ _) = Inr True"
| "toggle_flag (RemoveComponent _ _) = Inr False"
| "toggle_flag _ = Inl (Panic
     ''ComponentChannel can only accept InsertComponent or RemoveComponent messages'')"

definition rcc_accept_message ::
  "entity_channel_state \<Rightarrow> message_index \<Rightarrow> unit entity_message \<Rightarrow> remote_component_channel \<Rightarrow>
   remote_component_channel res" where
  "rcc_accept_message entity_state mid msg c =
     (case rcc_last_epoch_id c of
        Some last_epoch_id \<Rightarrow> if sequence_equal_or_less_than mid last_epoch_id then Inr c else
          rbind (toggle_flag msg) (\<lambda>ins. Inr (rcc_process_messages entity_state
            (c \<lparr> rcc_buffered_messages := oi_push_back mid ins (rcc_buffered_messages c) \<rparr>)))
      | None \<Rightarrow>
          rbind (toggle_flag msg) (\<lambda>ins. Inr (rcc_process_messages entity_state
            (c \<lparr> rcc_buffered_messages := oi_push_back mid ins (rcc_buffered_messages c) \<rparr>))))"

definition rcc_drain_messages_into ::
  "component_kind \<Rightarrow> unit entity_message list \<Rightarrow> remote_component_channel \<Rightarrow>
   (unit entity_message list \<times> remote_component_channel) res" where
  "rcc_drain_messages_into component_kind outgoing c =
     rbind (rfold (\<lambda>msg_type received. rbind (with_component_kind msg_type component_kind)
               (\<lambda>m. Inr (received @ [m]))) (rcc_incoming_messages c) [])
       (\<lambda>received. Inr (outgoing @ received, c \<lparr> rcc_incoming_messages := [] \<rparr>))"

fun rcc_force_loop :: "bool ordered_ids \<Rightarrow> remote_component_channel \<Rightarrow> remote_component_channel" where
  "rcc_force_loop [] c = c"
| "rcc_force_loop ((mid, ins) # rest) c =
     rcc_force_loop rest (c
       \<lparr> rcc_incoming_messages := rcc_incoming_messages c @ [toggle_type ins],
         rcc_inserted := ins, rcc_last_epoch_id := Some mid \<rparr>)"

definition rcc_force_drain_buffers :: "remote_component_channel \<Rightarrow> remote_component_channel" where
  "rcc_force_drain_buffers c =
     rcc_force_loop (rcc_buffered_messages c) (c \<lparr> rcc_buffered_messages := [] \<rparr>)"

section \<open>The loop as a function of the buffer\<close>

lemma rcc_process_loop_Nil [simp]:
  "rcc_buffered_messages c = [] \<Longrightarrow> rcc_process_loop c = c"
  by (simp add: rcc_process_loop.simps)

lemma rcc_process_loop_Cons [simp]:
  "rcc_buffered_messages c = (mid, ins) # rest \<Longrightarrow> rcc_process_loop c =
     (if ins = rcc_inserted c then c
      else rcc_process_loop (c \<lparr> rcc_inserted := ins, rcc_last_epoch_id := Some mid,
             rcc_buffered_messages := rest,
             rcc_incoming_messages := rcc_incoming_messages c @ [toggle_type ins] \<rparr>))"
  by (subst rcc_process_loop.simps) (auto simp: rcc_set_inserted_def)

lemma rcc_process_loop_literal:
  "rcc_process_loop \<lparr> rcc_inserted = p, rcc_last_epoch_id = e, rcc_buffered_messages = (mid, ins) # rest,
     rcc_incoming_messages = inc \<rparr> =
   (if ins = p then \<lparr> rcc_inserted = p, rcc_last_epoch_id = e, rcc_buffered_messages = (mid, ins) # rest,
      rcc_incoming_messages = inc \<rparr>
    else rcc_process_loop \<lparr> rcc_inserted = ins, rcc_last_epoch_id = Some mid, rcc_buffered_messages = rest,
      rcc_incoming_messages = inc @ [toggle_type ins] \<rparr>)"
  by (subst rcc_process_loop_Cons) auto

lemma rcc_accept_message_alt:
  "rcc_accept_message st mid msg c =
     (if \<exists>e. rcc_last_epoch_id c = Some e \<and> sequence_equal_or_less_than mid e then Inr c
      else rbind (toggle_flag msg) (\<lambda>ins. Inr (rcc_process_messages st
        (c \<lparr> rcc_buffered_messages := oi_push_back mid ins (rcc_buffered_messages c) \<rparr>))))"
  by (auto simp: rcc_accept_message_def split: option.splits)

section \<open>Events alternate\<close>

text \<open>The toggles a channel may hand to the world: insert, remove, insert and so on, \<open>n\<close> of them.\<close>

definition toggles :: "nat \<Rightarrow> entity_message_type list" where
  "toggles n = map (\<lambda>j. toggle_type (even j)) [0..<n]"

definition consistent :: "remote_component_channel \<Rightarrow> bool" where
  "consistent c = (rcc_incoming_messages c = toggles (length (rcc_incoming_messages c)) \<and>
     rcc_inserted c = odd (length (rcc_incoming_messages c)))"

lemma length_toggles [simp]: "length (toggles n) = n"
  by (simp add: toggles_def)

lemma toggles_Suc: "toggles (Suc n) = toggles n @ [toggle_type (even n)]"
  by (simp add: toggles_def)

lemma consistent_new: "consistent rcc_new"
  by (simp add: consistent_def rcc_new_def toggles_def)

lemma consistent_buffer [simp]:
  "consistent (c \<lparr> rcc_buffered_messages := q \<rparr>) = consistent c"
  by (simp add: consistent_def)

lemma consistent_process_loop: "consistent c \<Longrightarrow> consistent (rcc_process_loop c)"
proof (induction "rcc_buffered_messages c" arbitrary: c)
  case Nil
  then show ?case by simp
next
  case (Cons p rest)
  obtain mid ins where p: "p = (mid, ins)" by (cases p)
  let ?c = "c \<lparr> rcc_inserted := ins, rcc_last_epoch_id := Some mid,
             rcc_buffered_messages := rest,
             rcc_incoming_messages := rcc_incoming_messages c @ [toggle_type ins] \<rparr>"
  have "consistent ?c" if "ins \<noteq> rcc_inserted c"
    using Cons.prems that by (auto simp: consistent_def toggles_Suc)
  with Cons show ?case by (simp add: p flip: Cons.hyps(2))
qed

lemma consistent_accept:
  "consistent c \<Longrightarrow> rcc_accept_message st mid msg c = Inr c' \<Longrightarrow> consistent c'"
  by (auto simp: rcc_accept_message_alt rbind_eq_Inr rcc_process_messages_def
      consistent_process_loop split: if_splits)

section \<open>The abstract channel\<close>

text \<open>
  A sender toggles the component with messages number 0, 1, 2 and so on; message \<open>i\<close> is an
  insertion when \<open>i\<close> is even. The abstract channel has applied messages up to \<open>m\<close> (exclusive)
  and buffers the later messages \<open>L\<close>, in order.
\<close>

fun advance :: "nat \<Rightarrow> nat list \<Rightarrow> nat \<times> nat list" where
  "advance m [] = (m, [])"
| "advance m (i # L) = (if even i = odd m then (m, i # L) else advance (Suc i) L)"

definition conc_channel ::
  "u16 \<Rightarrow> nat list \<Rightarrow> nat \<Rightarrow> nat list \<Rightarrow> entity_message_type list \<Rightarrow> remote_component_channel" where
  "conc_channel b ks m L inc =
     \<lparr> rcc_inserted = odd m,
       rcc_last_epoch_id = (if m = 0 then None else Some (seq_at b (ks ! (m - 1)))),
       rcc_buffered_messages = wrapped b (map (\<lambda>i. (ks ! i, even i)) L),
       rcc_incoming_messages = inc \<rparr>"

lemma rcc_process_loop_conc:
  "\<exists>inc'. rcc_process_loop (conc_channel b ks m L inc) =
     conc_channel b ks (fst (advance m L)) (snd (advance m L)) inc'"
proof (induction L arbitrary: m inc)
  case Nil
  then show ?case by (simp add: conc_channel_def)
next
  case (Cons i L)
  show ?case
  proof (cases "even i = odd m")
    case True
    then show ?thesis by (subst rcc_process_loop_Cons) (auto simp: conc_channel_def)
  next
    case False
    then have "rcc_process_loop (conc_channel b ks m (i # L) inc) =
        rcc_process_loop (conc_channel b ks (Suc i) L (inc @ [toggle_type (even i)]))"
      by (subst rcc_process_loop_Cons) (auto simp: conc_channel_def)
    with Cons.IH [of "Suc i"] False show ?thesis by auto
  qed
qed

lemma advance_filter:
  "sorted_wrt (<) L \<Longrightarrow> \<forall>i\<in>set L. m \<le> i \<Longrightarrow>
   m \<le> fst (advance m L) \<and> snd (advance m L) = filter (\<lambda>i. fst (advance m L) \<le> i) L \<and>
   (fst (advance m L) = m \<or> fst (advance m L) - 1 \<in> set L)"
proof (induction L arbitrary: m)
  case Nil
  then show ?case by simp
next
  case (Cons i L)
  have "\<forall>j\<in>set L. Suc i \<le> j" "sorted_wrt (<) L" using Cons.prems(1) by auto
  then have *: "Suc i \<le> fst (advance (Suc i) L)"
    "snd (advance (Suc i) L) = filter (\<lambda>j. fst (advance (Suc i) L) \<le> j) L"
    "fst (advance (Suc i) L) = Suc i \<or> fst (advance (Suc i) L) - 1 \<in> set L"
    using Cons.IH [of "Suc i"] by auto
  show ?case
  proof (cases "even i = odd m")
    case True
    have "filter ((\<le>) m) L = L"
      using Cons.prems(2) by (simp add: filter_id_conv)
    with True Cons.prems(2) show ?thesis by simp
  next
    case False
    with * Cons.prems(2) show ?thesis by auto
  qed
qed

lemma advance_complete: "m \<le> n \<Longrightarrow> advance m [m..<n] = (n, [])"
proof (induction "n - m" arbitrary: m)
  case 0
  then show ?case by simp
next
  case (Suc d)
  then have "[m..<n] = m # [Suc m..<n]" by (simp add: upt_conv_Cons)
  with Suc show ?case by simp
qed

section \<open>Any order of arrival\<close>

text \<open>
  The deliveries of a run: the number of the message and the state the entity channel is in when
  it arrives.
\<close>

definition deliver_toggles ::
  "u16 \<Rightarrow> nat list \<Rightarrow> component_kind \<Rightarrow> (nat \<times> entity_channel_state) list \<Rightarrow>
   remote_component_channel \<Rightarrow> remote_component_channel res" where
  "deliver_toggles b ks kind js = rfold (\<lambda>(j, st). rcc_accept_message st (b + of_nat (ks ! j))
     (if even j then InsertComponent () kind else RemoveComponent () kind)) js"

lemma toggle_flag_msg:
  "toggle_flag (if p then InsertComponent () kind else RemoveComponent () kind) = Inr p"
  by simp

lemma process_pending:
  assumes "finite R" "m \<le> n" "R \<subseteq> {..<n}" "m = 0 \<or> m - 1 \<in> R"
  shows "\<exists>m' inc'. m' \<le> n \<and> (m' = 0 \<or> m' - 1 \<in> R) \<and>
    rcc_process_messages st (conc_channel b ks m (pending m R) inc) =
      conc_channel b ks m' (pending m' R) inc'"
proof (cases "st = Spawned")
  case True
  let ?m = "fst (advance m (pending m R))"
  obtain inc' where "rcc_process_loop (conc_channel b ks m (pending m R) inc) =
      conc_channel b ks ?m (snd (advance m (pending m R))) inc'"
    using rcc_process_loop_conc by blast
  moreover have adv: "m \<le> ?m" "snd (advance m (pending m R)) = filter ((\<le>) ?m) (pending m R)"
      "?m = m \<or> ?m - 1 \<in> set (pending m R)"
    using advance_filter [OF pending_sorted, of m R m] assms(1) by (auto simp: pending_set)
  moreover have "?m \<le> n" "?m = 0 \<or> ?m - 1 \<in> R"
    using adv(3) assms by (auto simp: pending_set)
  ultimately show ?thesis
    using True by (auto simp: rcc_process_messages_def filter_pending)
next
  case False
  then show ?thesis using assms by (auto simp: rcc_process_messages_def)
qed

lemma accept_conc:
  assumes ks: "sorted_wrt (<) ks" "\<forall>k\<in>set ks. k < 32768"
    and R: "R \<subseteq> {..<length ks}" "j < length ks" "j \<notin> R"
    and m: "m \<le> length ks" "m = 0 \<or> m - 1 \<in> R"
  shows "\<exists>m' inc'. m' \<le> length ks \<and> (m' = 0 \<or> m' - 1 \<in> insert j R) \<and>
    rcc_accept_message st (b + of_nat (ks ! j))
      (if even j then InsertComponent () kind else RemoveComponent () kind)
      (conc_channel b ks m (pending m R) inc) = Inr (conc_channel b ks m' (pending m' (insert j R)) inc')"
proof -
  have fin: "finite R" using R(1) finite_subset by blast
  have older: "sequence_equal_or_less_than (b + of_nat (ks ! j)) (b + of_nat (ks ! (m - 1))) \<longleftrightarrow> j < m"
    if "m \<noteq> 0"
    using that m(1) R(2) nth_window [OF ks(2)] strict_nth_le_iff [OF ks(1), of j "m - 1"]
    by (subst sequence_equal_or_less_than_seq_at) auto
  show ?thesis
  proof (cases "j < m")
    case True
    then have "rcc_accept_message st (b + of_nat (ks ! j))
        (if even j then InsertComponent () kind else RemoveComponent () kind)
        (conc_channel b ks m (pending m R) inc) = Inr (conc_channel b ks m (pending m R) inc)"
      using older by (simp add: rcc_accept_message_alt conc_channel_def)
    with True fin R(3) m show ?thesis by (intro exI [of _ m] exI [of _ inc]) (auto simp: pending_insert)
  next
    case False
    have "rcc_accept_message st (b + of_nat (ks ! j))
        (if even j then InsertComponent () kind else RemoveComponent () kind)
        (conc_channel b ks m (pending m R) inc) =
        Inr (rcc_process_messages st (conc_channel b ks m (pending m (insert j R)) inc))"
      using older False push_pending [OF ks R, of m b even]
      by (simp add: rcc_accept_message_alt conc_channel_def toggle_flag_msg del: if_split)
    with process_pending [of "insert j R" m "length ks" st b ks inc] fin m R show ?thesis by auto
  qed
qed

lemma deliver_conc:
  assumes ks: "sorted_wrt (<) ks" "\<forall>k\<in>set ks. k < 32768"
  shows "R \<subseteq> {..<length ks} \<Longrightarrow> m \<le> length ks \<Longrightarrow> m = 0 \<or> m - 1 \<in> R \<Longrightarrow>
    distinct (map fst js) \<Longrightarrow> fst ` set js \<inter> R = {} \<Longrightarrow> fst ` set js \<subseteq> {..<length ks} \<Longrightarrow>
    \<exists>m' inc'. m' \<le> length ks \<and> (m' = 0 \<or> m' - 1 \<in> R \<union> fst ` set js) \<and>
      deliver_toggles b ks kind js (conc_channel b ks m (pending m R) inc) =
      Inr (conc_channel b ks m' (pending m' (R \<union> fst ` set js)) inc')"
proof (induction js arbitrary: R m inc)
  case Nil
  then show ?case by (auto simp: deliver_toggles_def)
next
  case (Cons p js)
  obtain j st where p: "p = (j, st)" by (cases p)
  obtain m1 inc1 where 1: "m1 \<le> length ks" "m1 = 0 \<or> m1 - 1 \<in> insert j R"
      "rcc_accept_message st (b + of_nat (ks ! j))
        (if even j then InsertComponent () kind else RemoveComponent () kind)
        (conc_channel b ks m (pending m R) inc) = Inr (conc_channel b ks m1 (pending m1 (insert j R)) inc1)"
    using accept_conc [OF ks Cons.prems(1), of j m st b kind inc] Cons.prems by (auto simp: p)
  have "\<exists>m' inc'. m' \<le> length ks \<and> (m' = 0 \<or> m' - 1 \<in> insert j R \<union> fst ` set js) \<and>
      deliver_toggles b ks kind js (conc_channel b ks m1 (pending m1 (insert j R)) inc1) =
      Inr (conc_channel b ks m' (pending m' (insert j R \<union> fst ` set js)) inc')"
    using Cons.prems 1 by (intro Cons.IH) (auto simp: p)
  with 1 show ?case by (simp add: deliver_toggles_def p)
qed

lemma conc_channel_new: "conc_channel b ks 0 [] [] = rcc_new"
  by (simp add: conc_channel_def rcc_new_def oi_new_def)

lemma deliver_all_then_process:
  assumes ks: "sorted_wrt (<) ks" "\<forall>k\<in>set ks. k < 32768"
    and js: "mset (map fst js) = mset [0..<length ks]"
  shows "\<exists>c inc. deliver_toggles b ks kind js rcc_new = Inr c \<and>
    rcc_process_messages Spawned c = conc_channel b ks (length ks) [] inc"
proof -
  have "distinct (map fst js)" "fst ` set js = {..<length ks}"
    using mset_eq_setD [OF js] mset_eq_imp_distinct_iff [OF js] by auto
  then obtain m inc where m: "m \<le> length ks" and
      d: "deliver_toggles b ks kind js rcc_new = Inr (conc_channel b ks m (pending m {..<length ks}) inc)"
    using deliver_conc [OF ks, of "{}" 0 js b kind "[]"] by (auto simp: pending_def conc_channel_new)
  have "pending m {..<length ks} = [m..<length ks]"
    by (simp add: pending_def lessThan_atLeast0 filter_le_upt)
  then have "advance m (pending m {..<length ks}) = (length ks, [])"
    using m by (simp add: advance_complete)
  then show ?thesis
    using d rcc_process_loop_conc [of b ks m "pending m {..<length ks}" inc]
    by (auto simp: rcc_process_messages_def)
qed

section \<open>Properties\<close>

text \<open>
  C30. A component channel converges to the sender. A sender inserts and removes the component
  alternately with messages whose ids are any increasing ids of one half of the 16-bit range; the
  messages arrive once each, in any order, each while the entity is spawned or not yet spawned.
  Once the entity is spawned and the channel has processed its buffer, the component is present
  exactly when the last toggle was an insertion, nothing is left in the buffer, the epoch is the
  last id sent, and no message made the channel panic.
\<close>

theorem component_channel_converges:
  assumes "sorted_wrt (<) ks" and "\<forall>k\<in>set ks. k < 32768"
    and "mset (map fst js) = mset [0..<length ks]"
  shows "\<exists>c. deliver_toggles b ks kind js rcc_new = Inr c \<and>
    rcc_is_inserted (rcc_process_messages Spawned c) = odd (length ks) \<and>
    rcc_buffered_messages (rcc_process_messages Spawned c) = [] \<and>
    rcc_last_epoch_id (rcc_process_messages Spawned c) =
      (if ks = [] then None else Some (b + of_nat (last ks)))"
  using deliver_all_then_process [OF assms, of b kind]
  by (force simp: conc_channel_def rcc_is_inserted_def last_conv_nth)

theorem component_channel_converges_witness:
  "\<exists>c. deliver_toggles 65530 [2, 5, 9] 7 [(2, Spawned), (1, Despawned), (0, Spawned)] rcc_new = Inr c \<and>
    rcc_is_inserted (rcc_process_messages Spawned c) \<and>
    rcc_last_epoch_id (rcc_process_messages Spawned c) = Some 3"
  using component_channel_converges
    [of "[2, 5, 9]" "[(2, Spawned), (1, Despawned), (0, Spawned)]" 65530 7]
  by (auto simp: upt_rec)

text \<open>
  The world never sees a duplicate or a reversed toggle: whatever messages a fresh component
  channel accepts, with whatever ids, in whatever order and entity state, the events it queues are
  insert, remove, insert and so on, and its presence flag is that of the last event.
\<close>

theorem component_events_alternate:
  assumes "rfold (\<lambda>(st, mid, msg). rcc_accept_message st mid msg) ms rcc_new = Inr c"
  shows "rcc_incoming_messages c =
      map (\<lambda>j. if even j then EMT_InsertComponent else EMT_RemoveComponent)
        [0..<length (rcc_incoming_messages c)] \<and>
    rcc_inserted c = odd (length (rcc_incoming_messages c))"
proof -
  have "consistent c"
    by (rule rfold_inv [where P = consistent, OF _ consistent_new assms]) (auto intro: consistent_accept)
  then show ?thesis by (simp add: consistent_def toggles_def toggle_type_def)
qed

theorem component_events_alternate_witness:
  "\<exists>c. rfold (\<lambda>(st, mid, msg). rcc_accept_message st mid msg)
      [(Spawned, 5, InsertComponent () 1), (Spawned, 7, InsertComponent () 1),
       (Spawned, 6, RemoveComponent () 1)] rcc_new = Inr c \<and>
    rcc_incoming_messages c = [EMT_InsertComponent, EMT_RemoveComponent, EMT_InsertComponent] \<and>
    rcc_inserted c"
proof -
  obtain c where c: "rfold (\<lambda>(st, mid, msg). rcc_accept_message st mid msg)
      [(Spawned, 5, InsertComponent () 1), (Spawned, 7, InsertComponent () 1),
       (Spawned, 6, RemoveComponent () 1)] rcc_new = Inr c" "length (rcc_incoming_messages c) = 3"
    by (simp add: rcc_accept_message_def rcc_new_def oi_new_def rcc_process_messages_def
        oi_push_back_def sequence_equal_or_less_than_def sequence_less_than_def sequence_greater_than_def)
  from component_events_alternate [OF c(1)] c show ?thesis by (auto simp: upt_rec)
qed

text \<open>
  Forcing the buffers open (the channel is about to migrate) leaves nothing buffered, and the
  presence flag and epoch are those of the last buffered entry.
\<close>

theorem force_drain_buffers_empties:
  "rcc_buffered_messages (rcc_force_drain_buffers c) = [] \<and>
   rcc_incoming_messages (rcc_force_drain_buffers c) =
     rcc_incoming_messages c @ map (\<lambda>p. toggle_type (snd p)) (rcc_buffered_messages c) \<and>
   rcc_is_inserted (rcc_force_drain_buffers c) =
     (if rcc_buffered_messages c = [] then rcc_inserted c else snd (last (rcc_buffered_messages c))) \<and>
   rcc_last_epoch_id (rcc_force_drain_buffers c) =
     (if rcc_buffered_messages c = [] then rcc_last_epoch_id c
      else Some (fst (last (rcc_buffered_messages c))))"
proof -
  have "rcc_buffered_messages (rcc_force_loop q d) = rcc_buffered_messages d \<and>
     rcc_incoming_messages (rcc_force_loop q d) =
       rcc_incoming_messages d @ map (\<lambda>p. toggle_type (snd p)) q \<and>
     rcc_inserted (rcc_force_loop q d) = (if q = [] then rcc_inserted d else snd (last q)) \<and>
     rcc_last_epoch_id (rcc_force_loop q d) =
       (if q = [] then rcc_last_epoch_id d else Some (fst (last q)))" for q d
    by (induction q d rule: rcc_force_loop.induct) auto
  then show ?thesis by (simp add: rcc_force_drain_buffers_def rcc_is_inserted_def)
qed

end
