(* ===== verification/Auth_Channel.thy ===== *)
theory Auth_Channel
  imports Remote_Component_Channel
begin

text \<open>
  The authority stream of one entity: \<^verbatim>\<open>shared/src/world/sync/auth_channel_sender.rs\<close>,
  \<^verbatim>\<open>auth_channel_receiver.rs\<close> and the state machine of \<^verbatim>\<open>auth_channel.rs\<close> that validates commands.
  Authority commands carry an 8-bit subcommand id of their own; the lemmas show that the receiver
  releases them in the order they were sent.
\<close>

section \<open>Sender\<close>

record auth_channel_sender =
  acs_next_subcommand_id :: subcommand_id
  acs_outgoing_commands :: "entity_command list"

definition acs_new :: auth_channel_sender where
  "acs_new = \<lparr> acs_next_subcommand_id = 0, acs_outgoing_commands = [] \<rparr>"

definition acs_send_command :: "entity_command \<Rightarrow> auth_channel_sender \<Rightarrow> auth_channel_sender res" where
  "acs_send_command command s =
     rbind (set_subcommand_id (acs_next_subcommand_id s) command) (\<lambda>command'.
       Inr (s \<lparr> acs_next_subcommand_id := acs_next_subcommand_id s + 1,
                acs_outgoing_commands := acs_outgoing_commands s @ [command'] \<rparr>))"

definition acs_drain_messages_into ::
  "entity_command list \<Rightarrow> auth_channel_sender \<Rightarrow> entity_command list \<times> auth_channel_sender" where
  "acs_drain_messages_into commands s =
     (commands @ acs_outgoing_commands s, s \<lparr> acs_outgoing_commands := [] \<rparr>)"

section \<open>Receiver\<close>

record auth_channel_receiver =
  acr_next_subcommand_id :: subcommand_id
  acr_buffered_messages :: "unit entity_message ordered_ids"
  acr_incoming_messages :: "unit entity_message list"

definition acr_new :: auth_channel_receiver where
  "acr_new = \<lparr> acr_next_subcommand_id = 0, acr_buffered_messages = oi_new, acr_incoming_messages = [] \<rparr>"

definition acr_set_next_subcommand_id :: "subcommand_id \<Rightarrow> auth_channel_receiver \<Rightarrow> auth_channel_receiver" where
  "acr_set_next_subcommand_id i r = r \<lparr> acr_next_subcommand_id := i \<rparr>"

definition acr_drain_messages_into ::
  "unit entity_message list \<Rightarrow> auth_channel_receiver \<Rightarrow> unit entity_message list \<times> auth_channel_receiver" where
  "acr_drain_messages_into outgoing r =
     (outgoing @ acr_incoming_messages r, r \<lparr> acr_incoming_messages := [] \<rparr>)"

definition acr_buffer_pop_front_until_and_including ::
  "message_index \<Rightarrow> auth_channel_receiver \<Rightarrow> auth_channel_receiver" where
  "acr_buffer_pop_front_until_and_including mid r =
     r \<lparr> acr_buffered_messages := pop_front_until_and_including mid (acr_buffered_messages r) \<rparr>"

text \<open>The loop of \<^verbatim>\<open>process_messages\<close>; its \<^verbatim>\<open>pop_front().unwrap()\<close> returns the entry just peeked.\<close>

function acr_process_loop :: "auth_channel_receiver \<Rightarrow> auth_channel_receiver res" where
  "acr_process_loop r =
     (case peek_front (acr_buffered_messages r) of
        None \<Rightarrow> Inr r
      | Some (_, msg) \<Rightarrow>
          (case msg_subcommand_id msg of
             None \<Rightarrow> Inl (Panic ''Expected a subcommand ID in the message'')
           | Some subcommand_id \<Rightarrow>
               if subcommand_id \<noteq> acr_next_subcommand_id r then Inr r
               else acr_process_loop (r
                 \<lparr> acr_next_subcommand_id := acr_next_subcommand_id r + 1,
                   acr_buffered_messages := snd (pop_front (acr_buffered_messages r)),
                   acr_incoming_messages := acr_incoming_messages r @ [msg] \<rparr>)))"
  by auto
termination
  by (relation "measure (\<lambda>r. length (acr_buffered_messages r))")
    (auto simp: peek_front_def split: list.splits)

declare acr_process_loop.simps [simp del]

definition acr_process_messages ::
  "entity_channel_state option \<Rightarrow> auth_channel_receiver \<Rightarrow> auth_channel_receiver res" where
  "acr_process_messages entity_state_opt r =
     (case entity_state_opt of
        Some entity_state \<Rightarrow> if entity_state \<noteq> Spawned then Inr r else acr_process_loop r
      | None \<Rightarrow> acr_process_loop r)"

definition acr_receive_message ::
  "entity_channel_state option \<Rightarrow> message_index \<Rightarrow> unit entity_message \<Rightarrow> auth_channel_receiver \<Rightarrow>
   auth_channel_receiver res" where
  "acr_receive_message entity_state_opt mid msg r =
     acr_process_messages entity_state_opt
       (r \<lparr> acr_buffered_messages := oi_push_back mid msg (acr_buffered_messages r) \<rparr>)"

section \<open>The channel\<close>

datatype entity_auth_channel_state = Unpublished | Published | Delegated

record auth_channel =
  ac_host_type :: host_type
  ac_state :: entity_auth_channel_state
  ac_auth_status :: "entity_auth_status option"
  ac_sender :: auth_channel_sender
  ac_receiver :: auth_channel_receiver

definition ac_new :: "host_type \<Rightarrow> auth_channel" where
  "ac_new host_type =
     \<lparr> ac_host_type = host_type,
       ac_state = (case host_type of Client \<Rightarrow> Unpublished | Server \<Rightarrow> Published),
       ac_auth_status = None, ac_sender = acs_new, ac_receiver = acr_new \<rparr>"

fun valid_auth_transition :: "entity_auth_status \<Rightarrow> entity_auth_status \<Rightarrow> bool" where
  "valid_auth_transition Available Requested = True"
| "valid_auth_transition Available Granted = True"
| "valid_auth_transition Available Denied = True"
| "valid_auth_transition Requested Granted = True"
| "valid_auth_transition Requested Denied = True"
| "valid_auth_transition Requested Available = True"
| "valid_auth_transition Denied Granted = True"
| "valid_auth_transition Denied Available = True"
| "valid_auth_transition Granted Available = True"
| "valid_auth_transition Granted Denied = True"
| "valid_auth_transition Granted Releasing = True"
| "valid_auth_transition Releasing Available = True"
| "valid_auth_transition Releasing Denied = True"
| "valid_auth_transition _ _ = False"

definition validate_set_authority :: "entity_command \<Rightarrow> auth_channel \<Rightarrow> auth_channel res" where
  "validate_set_authority command c =
     (case command of
        C_SetAuthority _ _ next_status \<Rightarrow>
          (case ac_auth_status c of
             None \<Rightarrow> Inl (Panic ''unwrap on None'')
           | Some from_status \<Rightarrow>
               if valid_auth_transition from_status next_status
               then Inr (c \<lparr> ac_auth_status := Some next_status \<rparr>)
               else Inl (Panic ''Invalid authority transition''))
      | _ \<Rightarrow> Inl (Panic ''Expected SetAuthority command''))"

definition ac_validate_command :: "entity_command \<Rightarrow> auth_channel \<Rightarrow> auth_channel res" where
  "ac_validate_command command c =
     (case cmd_get_type command of
        EMT_Publish \<Rightarrow>
          if ac_state c \<noteq> Unpublished then Inl (Panic ''Cannot publish Entity that is already published'')
          else Inr (c \<lparr> ac_state := Published \<rparr>)
      | EMT_Unpublish \<Rightarrow>
          if ac_state c \<noteq> Published then Inl (Panic ''Cannot unpublish Entity that is not published'')
          else Inr (c \<lparr> ac_state := Unpublished \<rparr>)
      | EMT_EnableDelegation \<Rightarrow>
          if ac_state c \<noteq> Published
          then Inl (Panic ''Cannot enable delegation on Entity that is not published'')
          else Inr (c \<lparr> ac_state := Delegated, ac_auth_status := Some Available \<rparr>)
      | EMT_DisableDelegation \<Rightarrow>
          if ac_state c \<noteq> Delegated
          then Inl (Panic ''Cannot disable delegation on Entity that is not delegated'')
          else Inr (c \<lparr> ac_state := Published \<rparr>)
      | EMT_ReleaseAuthority \<Rightarrow>
          if ac_state c \<noteq> Delegated
          then Inl (Panic ''Cannot release authority on Entity that is not delegated'')
          else Inr (c \<lparr> ac_auth_status := Some Available \<rparr>)
      | EMT_SetAuthority \<Rightarrow>
          if ac_state c \<noteq> Delegated
          then Inl (Panic ''Cannot set authority on Entity that is not delegated'')
          else validate_set_authority command c
      | EMT_RequestAuthority \<Rightarrow>
          if ac_state c \<noteq> Delegated
          then Inl (Panic ''Cannot request authority on Entity that is not delegated'')
          else Inr c
      | EMT_EnableDelegationResponse \<Rightarrow>
          if ac_state c \<noteq> Delegated
          then Inl (Panic ''Cannot send EnableDelegationResponse for Entity that is not delegated'')
          else Inr c
      | EMT_MigrateResponse \<Rightarrow>
          if ac_state c \<noteq> Delegated
          then Inl (Panic ''Cannot send MigrateResponse for Entity that is not delegated'')
          else Inr c
      | EMT_Noop \<Rightarrow> Inr c
      | _ \<Rightarrow> Inl (Panic ''Unsupported command type for AuthChannelSender''))"

definition ac_send_command :: "entity_command \<Rightarrow> auth_channel \<Rightarrow> auth_channel res" where
  "ac_send_command command c =
     rbind (acs_send_command command (ac_sender c)) (\<lambda>s. Inr (c \<lparr> ac_sender := s \<rparr>))"

definition ac_sender_drain_messages_into ::
  "entity_command list \<Rightarrow> auth_channel \<Rightarrow> entity_command list \<times> auth_channel" where
  "ac_sender_drain_messages_into commands c =
     (let (out, s) = acs_drain_messages_into commands (ac_sender c) in (out, c \<lparr> ac_sender := s \<rparr>))"

definition ac_is_delegated :: "auth_channel \<Rightarrow> bool" where
  "ac_is_delegated c = (ac_state c = Delegated)"

definition ac_reset :: "auth_channel \<Rightarrow> auth_channel" where
  "ac_reset c = ac_new (ac_host_type c)"

definition ac_receiver_drain_messages_into ::
  "unit entity_message list \<Rightarrow> auth_channel \<Rightarrow> unit entity_message list \<times> auth_channel" where
  "ac_receiver_drain_messages_into outgoing c =
     (let (out, r) = acr_drain_messages_into outgoing (ac_receiver c) in (out, c \<lparr> ac_receiver := r \<rparr>))"

definition ac_receiver_buffer_pop_front_until_and_including ::
  "message_index \<Rightarrow> auth_channel \<Rightarrow> auth_channel" where
  "ac_receiver_buffer_pop_front_until_and_including mid c =
     c \<lparr> ac_receiver := acr_buffer_pop_front_until_and_including mid (ac_receiver c) \<rparr>"

definition ac_receiver_receive_message ::
  "entity_channel_state option \<Rightarrow> message_index \<Rightarrow> unit entity_message \<Rightarrow> auth_channel \<Rightarrow> auth_channel res" where
  "ac_receiver_receive_message entity_state_opt mid msg c =
     rbind (acr_receive_message entity_state_opt mid msg (ac_receiver c))
       (\<lambda>r. Inr (c \<lparr> ac_receiver := r \<rparr>))"

definition ac_receiver_process_messages :: "entity_channel_state \<Rightarrow> auth_channel \<Rightarrow> auth_channel res" where
  "ac_receiver_process_messages entity_state c =
     rbind (acr_process_messages (Some entity_state) (ac_receiver c))
       (\<lambda>r. Inr (c \<lparr> ac_receiver := r \<rparr>))"

definition ac_receiver_set_next_subcommand_id :: "subcommand_id \<Rightarrow> auth_channel \<Rightarrow> auth_channel" where
  "ac_receiver_set_next_subcommand_id i c =
     c \<lparr> ac_receiver := acr_set_next_subcommand_id i (ac_receiver c) \<rparr>"

definition ac_force_publish :: "auth_channel \<Rightarrow> auth_channel" where
  "ac_force_publish c = c \<lparr> ac_state := Published \<rparr>"

definition ac_force_enable_delegation :: "auth_channel \<Rightarrow> auth_channel" where
  "ac_force_enable_delegation c = c \<lparr> ac_state := Delegated, ac_auth_status := Some Available \<rparr>"

definition ac_force_set_auth_status :: "entity_auth_status \<Rightarrow> auth_channel \<Rightarrow> auth_channel" where
  "ac_force_set_auth_status auth_status c = c \<lparr> ac_auth_status := Some auth_status \<rparr>"

section \<open>The state machine keeps a status while delegated\<close>

definition ac_wf :: "auth_channel \<Rightarrow> bool" where
  "ac_wf c = (ac_state c = Delegated \<longrightarrow> ac_auth_status c \<noteq> None)"

lemma ac_wf_new: "ac_wf (ac_new h)"
  by (cases h) (simp_all add: ac_wf_def ac_new_def)

lemma ac_validate_command_wf:
  "ac_wf c \<Longrightarrow> ac_validate_command command c = Inr c' \<Longrightarrow> ac_wf c'"
  by (cases command) (auto simp: ac_validate_command_def validate_set_authority_def ac_wf_def
      split: if_splits option.splits)

lemma ac_force_wf:
  "ac_wf (ac_force_publish c)" "ac_wf (ac_force_enable_delegation c)" "ac_wf (ac_force_set_auth_status s c)"
  by (simp_all add: ac_wf_def ac_force_publish_def ac_force_enable_delegation_def
      ac_force_set_auth_status_def)

text \<open>What a caller has to check before a command so that the channel does not panic.\<close>

fun auth_command_allowed :: "entity_auth_channel_state \<Rightarrow> entity_auth_status option \<Rightarrow> entity_command \<Rightarrow> bool" where
  "auth_command_allowed st a (C_Publish _ _) = (st = Unpublished)"
| "auth_command_allowed st a (C_Unpublish _ _) = (st = Published)"
| "auth_command_allowed st a (C_EnableDelegation _ _) = (st = Published)"
| "auth_command_allowed st a (C_SetAuthority _ _ s) =
     (st = Delegated \<and> (case a of None \<Rightarrow> False | Some f \<Rightarrow> valid_auth_transition f s))"
| "auth_command_allowed st a (C_Spawn _) = False"
| "auth_command_allowed st a (C_SpawnWithComponents _ _) = False"
| "auth_command_allowed st a (C_Despawn _) = False"
| "auth_command_allowed st a (C_InsertComponent _ _) = False"
| "auth_command_allowed st a (C_RemoveComponent _ _) = False"
| "auth_command_allowed st a _ = (st = Delegated)"

lemma ac_validate_command_iff:
  "(\<exists>c'. ac_validate_command command c = Inr c') \<longleftrightarrow>
     auth_command_allowed (ac_state c) (ac_auth_status c) command"
  by (cases command) (auto simp: ac_validate_command_def validate_set_authority_def split: option.splits)

section \<open>The sender numbers its commands\<close>

lemma acs_send_all:
  "rfold acs_send_command cs s = Inr s' \<Longrightarrow>
     acs_next_subcommand_id s' = acs_next_subcommand_id s + of_nat (length cs) \<and>
     (\<exists>out. acs_outgoing_commands s' = acs_outgoing_commands s @ out \<and> length out = length cs \<and>
       (\<forall>i<length cs. cmd_subcommand_id (out ! i) = Some (acs_next_subcommand_id s + of_nat i) \<and>
          cmd_get_type (out ! i) = cmd_get_type (cs ! i) \<and> cmd_entity (out ! i) = cmd_entity (cs ! i)))"
proof (induction cs arbitrary: s)
  case Nil
  then show ?case by simp
next
  case (Cons c cs)
  from Cons.prems obtain t where t: "acs_send_command c s = Inr t" "rfold acs_send_command cs t = Inr s'"
    by (auto simp: rbind_eq_Inr)
  then obtain c' where c': "set_subcommand_id (acs_next_subcommand_id s) c = Inr c'"
    and r: "rfold acs_send_command cs (s \<lparr> acs_next_subcommand_id := acs_next_subcommand_id s + 1,
        acs_outgoing_commands := acs_outgoing_commands s @ [c'] \<rparr>) = Inr s'"
    by (auto simp: acs_send_command_def [of c] rbind_eq_Inr)
  from Cons.IH [OF r] obtain out where n: "acs_next_subcommand_id s' =
      acs_next_subcommand_id s + 1 + of_nat (length cs)" and
    o: "acs_outgoing_commands s' = acs_outgoing_commands s @ c' # out" "length out = length cs"
     "\<forall>i<length cs. cmd_subcommand_id (out ! i) = Some (acs_next_subcommand_id s + 1 + of_nat i) \<and>
          cmd_get_type (out ! i) = cmd_get_type (cs ! i) \<and> cmd_entity (out ! i) = cmd_entity (cs ! i)"
    by auto
  have "cmd_subcommand_id ((c' # out) ! i) = Some (acs_next_subcommand_id s + of_nat i) \<and>
      cmd_get_type ((c' # out) ! i) = cmd_get_type ((c # cs) ! i) \<and>
      cmd_entity ((c' # out) ! i) = cmd_entity ((c # cs) ! i)" if "i < Suc (length cs)" for i
    using that o(3) set_subcommand_id_keeps [OF c'] by (cases i) (auto simp: add_ac)
  with n o show ?case by (intro conjI exI [of _ "c' # out"]) auto
qed

section \<open>The receiver in the order of sending\<close>

text \<open>
  The abstract receiver has released the messages below \<open>m\<close> and buffers the later messages \<open>L\<close>;
  it releases the messages at the front of \<open>L\<close> that follow \<open>m\<close> without a gap.
\<close>

fun release :: "nat \<Rightarrow> nat list \<Rightarrow> nat \<times> nat list" where
  "release m [] = (m, [])"
| "release m (i # L) = (if i = m then release (Suc m) L else (m, i # L))"

definition conc_receiver ::
  "u16 \<Rightarrow> nat list \<Rightarrow> (nat \<Rightarrow> unit entity_message) \<Rightarrow> nat \<Rightarrow> nat list \<Rightarrow> auth_channel_receiver" where
  "conc_receiver b ks f m L =
     \<lparr> acr_next_subcommand_id = of_nat m,
       acr_buffered_messages = wrapped b (map (\<lambda>i. (ks ! i, f i)) L),
       acr_incoming_messages = map f [0..<m] \<rparr>"

lemma acr_process_loop_Nil:
  "acr_buffered_messages r = [] \<Longrightarrow> acr_process_loop r = Inr r"
  by (simp add: acr_process_loop.simps)

lemma acr_process_loop_Cons:
  "acr_buffered_messages r = (mid, msg) # rest \<Longrightarrow> msg_subcommand_id msg = Some s \<Longrightarrow>
   acr_process_loop r = (if s \<noteq> acr_next_subcommand_id r then Inr r
     else acr_process_loop (r \<lparr> acr_next_subcommand_id := acr_next_subcommand_id r + 1,
       acr_buffered_messages := rest, acr_incoming_messages := acr_incoming_messages r @ [msg] \<rparr>))"
  by (subst acr_process_loop.simps) simp

lemma of_nat_u8_eq:
  "i < j + 256 \<Longrightarrow> j < i + 256 \<Longrightarrow> (of_nat i :: u8) = of_nat j \<longleftrightarrow> i = j"
proof -
  have *: "m = n" if "(of_nat m :: u8) = of_nat n" "m \<le> n" "n < m + 256" for m n
  proof -
    have "(of_nat (n - m) :: u8) = 0" using that by (simp add: of_nat_diff)
    moreover have "unat (of_nat (n - m) :: u8) = n - m" using that by (subst unat_of_nat) simp
    ultimately show ?thesis using that(2) by simp
  qed
  show "i < j + 256 \<Longrightarrow> j < i + 256 \<Longrightarrow> (of_nat i :: u8) = of_nat j \<longleftrightarrow> i = j"
    using * [of i j] * [of j i] by (metis nat_le_linear)
qed

text \<open>
  The 8-bit subcommand id identifies a message because at most 256 consecutive messages are in
  flight: every buffered message is less than 256 ahead of the first missing one.
\<close>

lemma acr_process_loop_conc:
  assumes "\<And>i. i \<in> set L \<Longrightarrow> msg_subcommand_id (f i) = Some (of_nat i)"
    and "sorted_wrt (<) L" "\<forall>i\<in>set L. m \<le> i"
    and "\<forall>i\<in>set L. \<forall>j. m \<le> j \<and> j + 256 \<le> i \<longrightarrow> j \<in> set L"
  shows "acr_process_loop (conc_receiver b ks f m L) =
    Inr (conc_receiver b ks f (fst (release m L)) (snd (release m L)))"
  using assms
proof (induction L arbitrary: m)
  case Nil
  then show ?case by (simp add: acr_process_loop_Nil conc_receiver_def)
next
  case (Cons i L)
  have fi: "msg_subcommand_id (f i) = Some (of_nat i)" using Cons.prems(1) by simp
  show ?case
  proof (cases "i = m")
    case True
    have "acr_process_loop (conc_receiver b ks f (Suc m) L) =
        Inr (conc_receiver b ks f (fst (release (Suc m) L)) (snd (release (Suc m) L)))"
    proof (rule Cons.IH)
      show "\<forall>k\<in>set L. \<forall>j. Suc m \<le> j \<and> j + 256 \<le> k \<longrightarrow> j \<in> set L"
      proof (intro ballI allI impI)
        fix k j assume "k \<in> set L" "Suc m \<le> j \<and> j + 256 \<le> k"
        then have "j \<in> set (i # L)" "j \<noteq> i"
          using Cons.prems(4) [rule_format, of k j] True by auto
        then show "j \<in> set L" by simp
      qed
    qed (use Cons.prems True in \<open>auto simp: Suc_le_eq\<close>)
    with True fi show ?thesis
      by (subst acr_process_loop_Cons) (auto simp: conc_receiver_def add.commute)
  next
    case False
    have "m < i" using Cons.prems(3) False by auto
    moreover have "i < m + 256"
    proof (rule ccontr)
      assume "\<not> i < m + 256"
      then have "m \<in> set (i # L)" using Cons.prems(4) [rule_format, of i m] by simp
      with \<open>m < i\<close> Cons.prems(2) show False by auto
    qed
    ultimately have "(of_nat i :: u8) \<noteq> of_nat m" by (subst of_nat_u8_eq) auto
    with False fi show ?thesis
      by (subst acr_process_loop_Cons) (auto simp: conc_receiver_def)
  qed
qed

lemma release_pending:
  assumes "finite R" "{..<m} \<subseteq> R"
  shows "\<exists>m'. m \<le> m' \<and> {..<m'} \<subseteq> R \<and> release m (pending m R) = (m', pending m' R)"
proof -
  have *: "\<exists>m'. m \<le> m' \<and> {m..<m'} \<subseteq> set L \<and> release m L = (m', filter ((\<le>) m') L)"
    if "sorted_wrt (<) L" "\<forall>i\<in>set L. m \<le> i" for L
    using that
  proof (induction L arbitrary: m)
    case Nil
    then show ?case by auto
  next
    case (Cons i L)
    show ?case
    proof (cases "i = m")
      case True
      then have "\<forall>j\<in>set L. Suc m \<le> j" using Cons.prems(1) by (auto simp: Suc_le_eq)
      then obtain m' where "Suc m \<le> m'" "{Suc m..<m'} \<subseteq> set L"
          "release (Suc m) L = (m', filter ((\<le>) m') L)"
        using Cons.IH [of "Suc m"] Cons.prems(1) by auto
      moreover from this(1) have "{m..<m'} = insert m {Suc m..<m'}" by auto
      ultimately show ?thesis using True by (intro exI [of _ m']) auto
    next
      case False
      with Cons.prems show ?thesis by (intro exI [of _ m]) (auto simp: filter_id_conv)
    qed
  qed
  obtain m' where m': "m \<le> m'" "{m..<m'} \<subseteq> set (pending m R)"
      "release m (pending m R) = (m', filter ((\<le>) m') (pending m R))"
    using * [OF pending_sorted, of m R] assms(1) by (auto simp: pending_set)
  then have "{m..<m'} \<subseteq> R" using assms(1) by (auto simp: pending_set)
  moreover have "{..<m'} = {..<m} \<union> {m..<m'}" using m'(1) by auto
  ultimately show ?thesis
    using m' assms(2) by (intro exI [of _ m']) (simp add: filter_pending)
qed

text \<open>
  \<open>in_flight R j\<close>: message \<open>j\<close> arrives when \<open>R\<close> has arrived, at most 256 consecutive messages
  being in flight.
\<close>

definition in_flight :: "nat set \<Rightarrow> nat \<Rightarrow> bool" where
  "in_flight R j = (\<forall>i. i + 256 \<le> j \<longrightarrow> i \<in> R)"

lemma process_released:
  assumes "finite R" "{..<m} \<subseteq> R" "\<And>i. i \<in> R \<Longrightarrow> msg_subcommand_id (f i) = Some (of_nat i)"
    "\<And>i. i \<in> R \<Longrightarrow> in_flight R i"
  shows "\<exists>m'. m \<le> m' \<and> {..<m'} \<subseteq> R \<and>
    acr_process_messages st (conc_receiver b ks f m (pending m R)) =
      Inr (conc_receiver b ks f m' (pending m' R))"
proof -
  have "acr_process_loop (conc_receiver b ks f m (pending m R)) =
      Inr (conc_receiver b ks f (fst (release m (pending m R))) (snd (release m (pending m R))))"
    using assms(1,3,4) by (intro acr_process_loop_conc) (simp_all add: pending_set pending_sorted in_flight_def, blast)
  then show ?thesis
    using release_pending [OF assms(1,2)] assms(2)
    by (auto simp: acr_process_messages_def split: option.split)
qed

definition deliver_auth ::
  "u16 \<Rightarrow> nat list \<Rightarrow> (nat \<Rightarrow> unit entity_message) \<Rightarrow> (nat \<times> entity_channel_state option) list \<Rightarrow>
   auth_channel_receiver \<Rightarrow> auth_channel_receiver res" where
  "deliver_auth b ks f js =
     rfold (\<lambda>(j, st). acr_receive_message st (b + of_nat (ks ! j)) (f j)) js"

lemma in_flight_insert: "in_flight R j \<Longrightarrow> in_flight (insert k R) j"
  by (simp add: in_flight_def)

lemma receive_conc:
  assumes ks: "sorted_wrt (<) ks" "\<forall>k\<in>set ks. k < 32768"
    and R: "R \<subseteq> {..<length ks}" "j < length ks" "j \<notin> R" "{..<m} \<subseteq> R"
    and f: "\<And>i. i < length ks \<Longrightarrow> msg_subcommand_id (f i) = Some (of_nat i)"
    and fl: "\<And>i. i \<in> R \<Longrightarrow> in_flight R i" "in_flight R j"
  shows "\<exists>m'. {..<m'} \<subseteq> insert j R \<and>
    acr_receive_message st (b + of_nat (ks ! j)) (f j) (conc_receiver b ks f m (pending m R)) =
      Inr (conc_receiver b ks f m' (pending m' (insert j R)))"
proof -
  have "m \<le> j" using R(3,4) by (meson lessThan_iff linorder_not_le subsetD)
  then have "acr_receive_message st (b + of_nat (ks ! j)) (f j) (conc_receiver b ks f m (pending m R)) =
      acr_process_messages st (conc_receiver b ks f m (pending m (insert j R)))"
    using push_pending [OF ks R(1,2,3), of m b f] by (simp add: acr_receive_message_def conc_receiver_def)
  moreover have "\<exists>m'. m \<le> m' \<and> {..<m'} \<subseteq> insert j R \<and>
      acr_process_messages st (conc_receiver b ks f m (pending m (insert j R))) =
      Inr (conc_receiver b ks f m' (pending m' (insert j R)))"
  proof (rule process_released)
    show "finite (insert j R)" using R(1) finite_subset by blast
    show "in_flight (insert j R) i" if "i \<in> insert j R" for i
      using that fl in_flight_insert by blast
  qed (use R f in auto)
  ultimately show ?thesis by auto
qed

lemma deliver_auth_conc:
  assumes ks: "sorted_wrt (<) ks" "\<forall>k\<in>set ks. k < 32768"
    and f: "\<And>i. i < length ks \<Longrightarrow> msg_subcommand_id (f i) = Some (of_nat i)"
  shows "R \<subseteq> {..<length ks} \<Longrightarrow> {..<m} \<subseteq> R \<Longrightarrow> (\<And>i. i \<in> R \<Longrightarrow> in_flight R i) \<Longrightarrow>
    distinct (map fst js) \<Longrightarrow> fst ` set js \<inter> R = {} \<Longrightarrow> fst ` set js \<subseteq> {..<length ks} \<Longrightarrow>
    (\<And>p. p < length js \<Longrightarrow> in_flight (R \<union> fst ` set (take p js)) (fst (js ! p))) \<Longrightarrow>
    \<exists>m'. {..<m'} \<subseteq> R \<union> fst ` set js \<and>
      deliver_auth b ks f js (conc_receiver b ks f m (pending m R)) =
      Inr (conc_receiver b ks f m' (pending m' (R \<union> fst ` set js)))"
proof (induction js arbitrary: R m)
  case Nil
  then show ?case by (auto simp: deliver_auth_def)
next
  case (Cons q js)
  obtain j st where q: "q = (j, st)" by (cases q)
  have fl: "in_flight R j" using Cons.prems(7) [of 0] by (simp add: q)
  obtain m1 where 1: "{..<m1} \<subseteq> insert j R"
      "acr_receive_message st (b + of_nat (ks ! j)) (f j) (conc_receiver b ks f m (pending m R)) =
        Inr (conc_receiver b ks f m1 (pending m1 (insert j R)))"
    using receive_conc [OF ks Cons.prems(1) _ _ Cons.prems(2) f Cons.prems(3) fl, of st b] Cons.prems
    by (auto simp: q)
  have "\<exists>m'. {..<m'} \<subseteq> insert j R \<union> fst ` set js \<and>
      deliver_auth b ks f js (conc_receiver b ks f m1 (pending m1 (insert j R))) =
      Inr (conc_receiver b ks f m' (pending m' (insert j R \<union> fst ` set js)))"
  proof (rule Cons.IH)
    show "in_flight (insert j R \<union> fst ` set (take p js)) (fst (js ! p))" if "p < length js" for p
      using Cons.prems(7) [of "Suc p"] that by (simp add: q)
    show "in_flight (insert j R) i" if "i \<in> insert j R" for i
      using that fl Cons.prems(3) in_flight_insert by blast
  qed (use Cons.prems 1(1) in \<open>auto simp: q\<close>)
  with 1 show ?case by (simp add: deliver_auth_def q)
qed

lemma release_complete: "m \<le> n \<Longrightarrow> release m [m..<n] = (n, [])"
proof (induction "n - m" arbitrary: m)
  case 0
  then show ?case by simp
next
  case (Suc d)
  then have "[m..<n] = m # [Suc m..<n]" by (simp add: upt_conv_Cons)
  with Suc show ?case by simp
qed

lemma deliver_auth_all:
  assumes ks: "sorted_wrt (<) ks" "\<forall>k\<in>set ks. k < 32768"
    and f: "\<And>i. i < length ks \<Longrightarrow> msg_subcommand_id (f i) = Some (of_nat i)"
    and js: "mset (map fst js) = mset [0..<length ks]"
    and fl: "\<And>p. p < length js \<Longrightarrow> in_flight (fst ` set (take p js)) (fst (js ! p))"
  shows "rbind (deliver_auth b ks f js acr_new) (acr_process_messages (Some Spawned)) =
    Inr (conc_receiver b ks f (length ks) [])"
proof -
  have d: "distinct (map fst js)" "fst ` set js = {..<length ks}"
    using mset_eq_setD [OF js] mset_eq_imp_distinct_iff [OF js] by auto
  have new: "acr_new = conc_receiver b ks f 0 (pending 0 {})"
    by (simp add: acr_new_def conc_receiver_def pending_def oi_new_def)
  obtain m where m: "{..<m} \<subseteq> {..<length ks}"
    "deliver_auth b ks f js acr_new = Inr (conc_receiver b ks f m (pending m {..<length ks}))"
    using deliver_auth_conc [OF ks f, of "{}" 0 js b] d fl by (auto simp: new)
  have p: "pending m {..<length ks} = [m..<length ks]"
    by (simp add: pending_def lessThan_atLeast0 filter_le_upt)
  have "acr_process_loop (conc_receiver b ks f m [m..<length ks]) =
      Inr (conc_receiver b ks f (fst (release m [m..<length ks])) (snd (release m [m..<length ks])))"
    using f by (intro acr_process_loop_conc) auto
  then show ?thesis
    using m p by (simp add: acr_process_messages_def release_complete)
qed

section \<open>Properties\<close>

text \<open>
  C29. Authority commands are handed over in the order they were sent, none lost and none
  duplicated. The sender numbers its commands with an 8-bit id that wraps; their messages carry
  increasing message ids and arrive once each in any order in which no message overtakes another
  by 256 or more, each before or after the entity is spawned. Once the entity is spawned the
  receiver has released exactly the sent sequence and waits for the next id.
\<close>

theorem auth_messages_in_sending_order:
  assumes "rfold acs_send_command cs acs_new = Inr s"
    and "length ks = length cs" and "sorted_wrt (<) ks" and "\<forall>k\<in>set ks. k < 32768"
    and "\<forall>i<length cs. msg_subcommand_id (f i) = cmd_subcommand_id (acs_outgoing_commands s ! i)"
    and "mset (map fst js) = mset [0..<length cs]"
    and "\<forall>p<length js. in_flight (fst ` set (take p js)) (fst (js ! p))"
  shows "\<exists>r. rbind (deliver_auth b ks f js acr_new) (acr_process_messages (Some Spawned)) = Inr r \<and>
    acr_incoming_messages r = map f [0..<length cs] \<and> acr_buffered_messages r = [] \<and>
    acr_next_subcommand_id r = acs_next_subcommand_id s"
proof -
  have sub: "msg_subcommand_id (f i) = Some (of_nat i)" if "i < length ks" for i
    using acs_send_all [OF assms(1)] assms(2,5) that by (auto simp: acs_new_def)
  show ?thesis
    using deliver_auth_all [OF assms(3,4) sub, of js b] assms acs_send_all [OF assms(1)]
    by (simp add: conc_receiver_def acs_new_def)
qed

theorem auth_messages_in_sending_order_witness:
  "\<exists>s r. rfold acs_send_command [C_Publish None 1, C_EnableDelegation None 1] acs_new = Inr s \<and>
     rbind (deliver_auth 65535 [0, 1] (\<lambda>i. if i = 0 then Publish 0 () else EnableDelegation 1 ())
       [(1, Some Spawned), (0, Some Despawned)] acr_new) (acr_process_messages (Some Spawned)) = Inr r \<and>
     acr_incoming_messages r = [Publish 0 (), EnableDelegation 1 ()] \<and>
     acr_next_subcommand_id r = 2"
proof -
  let ?s = "\<lparr> acs_next_subcommand_id = 2,
     acs_outgoing_commands = [C_Publish (Some 0) 1, C_EnableDelegation (Some 1) 1] \<rparr>"
  let ?f = "\<lambda>i :: nat. if i = 0 then Publish 0 () else EnableDelegation 1 ()"
  have s: "rfold acs_send_command [C_Publish None 1, C_EnableDelegation None 1] acs_new = Inr ?s"
    by (simp add: acs_send_command_def acs_new_def)
  have "\<exists>r. rbind (deliver_auth 65535 [0, 1] ?f [(1, Some Spawned), (0, Some Despawned)] acr_new)
       (acr_process_messages (Some Spawned)) = Inr r \<and>
     acr_incoming_messages r = map ?f [0..<length [C_Publish None 1, C_EnableDelegation None 1]] \<and>
     acr_buffered_messages r = [] \<and> acr_next_subcommand_id r = acs_next_subcommand_id ?s"
    by (rule auth_messages_in_sending_order [OF s])
      (auto simp: in_flight_def less_Suc_eq upt_rec add_mset_commute)
  with s show ?thesis by (auto simp: upt_rec)
qed

text \<open>
  The authority state machine accepts a command exactly when the publication state and, for
  an authority change, the transition table allow it, and every accepted command keeps the
  invariant that a delegated entity has an authority status (so the unwrap of the status in a
  \<^verbatim>\<open>SetAuthority\<close> never fails on a channel reached from a new one).
\<close>

theorem validate_command_characterised:
  "((\<exists>c'. ac_validate_command command c = Inr c') \<longleftrightarrow>
      auth_command_allowed (ac_state c) (ac_auth_status c) command) \<and>
   (case rfold ac_validate_command commands (ac_new h) of
      Inl _ \<Rightarrow> True
    | Inr d \<Rightarrow> (if ac_is_delegated d then ac_auth_status d \<noteq> None else True))"
proof -
  have "ac_wf d" if "rfold ac_validate_command commands (ac_new h) = Inr d" for d
    by (rule rfold_inv [where P = ac_wf, OF _ ac_wf_new that]) (rule ac_validate_command_wf)
  then show ?thesis
    by (auto simp: ac_validate_command_iff ac_wf_def ac_is_delegated_def split: sum.split)
qed

end
