(* ===== verification/Remote_Entity_Channel.thy ===== *)
theory Remote_Entity_Channel
  imports Auth_Channel "HOL-Library.AList"
begin

text \<open>
  \<^verbatim>\<open>shared/src/world/sync/remote_entity_channel.rs\<close>: the demultiplexer that turns the unordered
  messages of one remote entity into a causal stream of events. The hash map of component channels
  is an association list: its order stands for the iteration order of the map.
\<close>

section \<open>The channel\<close>

record remote_entity_channel =
  rec_state :: entity_channel_state
  rec_last_epoch_id :: "message_index option"
  rec_component_channels :: "(component_kind \<times> remote_component_channel) list"
  rec_auth_channel :: auth_channel
  rec_buffered_messages :: "unit entity_message ordered_ids"
  rec_incoming_messages :: "unit entity_message list"
  rec_outgoing_commands :: "entity_command list"

definition rec_new :: "host_type \<Rightarrow> remote_entity_channel" where
  "rec_new host_type =
     \<lparr> rec_state = Despawned, rec_last_epoch_id = None, rec_component_channels = [],
       rec_auth_channel = ac_new host_type, rec_buffered_messages = oi_new,
       rec_incoming_messages = [], rec_outgoing_commands = [] \<rparr>"

definition rec_configure_as_delegated :: "remote_entity_channel \<Rightarrow> remote_entity_channel" where
  "rec_configure_as_delegated c =
     c \<lparr> rec_auth_channel := ac_receiver_set_next_subcommand_id 1
           (ac_force_enable_delegation (ac_force_publish (rec_auth_channel c))) \<rparr>"

definition rec_new_delegated :: "host_type \<Rightarrow> remote_entity_channel" where
  "rec_new_delegated host_type = rec_configure_as_delegated (rec_new host_type)"

definition rec_update_auth_status :: "entity_auth_status \<Rightarrow> remote_entity_channel \<Rightarrow> remote_entity_channel" where
  "rec_update_auth_status s c = c \<lparr> rec_auth_channel := ac_force_set_auth_status s (rec_auth_channel c) \<rparr>"

definition rec_auth_status :: "remote_entity_channel \<Rightarrow> entity_auth_status option" where
  "rec_auth_status c = ac_auth_status (rec_auth_channel c)"

definition rec_is_delegated :: "remote_entity_channel \<Rightarrow> bool" where
  "rec_is_delegated c = ac_is_delegated (rec_auth_channel c)"

definition rec_send_command :: "entity_command \<Rightarrow> remote_entity_channel \<Rightarrow> remote_entity_channel res" where
  "rec_send_command command c =
     rbind (ac_send_command command (rec_auth_channel c)) (\<lambda>a.
       let (out, a') = ac_sender_drain_messages_into (rec_outgoing_commands c) a in
       Inr (c \<lparr> rec_auth_channel := a', rec_outgoing_commands := out \<rparr>))"

definition rec_drain_incoming_messages_into ::
  "'e \<Rightarrow> 'e entity_message list \<Rightarrow> remote_entity_channel \<Rightarrow>
   ('e entity_message list \<times> remote_entity_channel) res" where
  "rec_drain_incoming_messages_into entity outgoing_events c =
     rbind (rfold (\<lambda>rmsg received. rbind (with_entity rmsg entity) (\<lambda>m. Inr (received @ [m])))
               (rec_incoming_messages c) [])
       (\<lambda>received. Inr (outgoing_events @ received, c \<lparr> rec_incoming_messages := [] \<rparr>))"

definition rec_drain_outgoing_messages_into ::
  "entity_command list \<Rightarrow> remote_entity_channel \<Rightarrow> entity_command list \<times> remote_entity_channel" where
  "rec_drain_outgoing_messages_into outgoing c =
     (outgoing @ rec_outgoing_commands c, c \<lparr> rec_outgoing_commands := [] \<rparr>)"

definition rec_has_component_kind :: "component_kind \<Rightarrow> remote_entity_channel \<Rightarrow> bool" where
  "rec_has_component_kind k c = (map_of (rec_component_channels c) k \<noteq> None)"

definition rec_pop_front_into_outgoing :: "remote_entity_channel \<Rightarrow> remote_entity_channel res" where
  "rec_pop_front_into_outgoing c =
     (case pop_front (rec_buffered_messages c) of
        (None, _) \<Rightarrow> Inl (Panic ''unwrap on None'')
      | (Some (_, msg), q) \<Rightarrow>
          Inr (c \<lparr> rec_buffered_messages := q, rec_incoming_messages := rec_incoming_messages c @ [msg] \<rparr>))"

section \<open>The arms of the processing loop\<close>

text \<open>The calls on the authority channel that both spawn arms make.\<close>

definition rec_flush_auth :: "message_index \<Rightarrow> remote_entity_channel \<Rightarrow> remote_entity_channel res" where
  "rec_flush_auth mid c =
     rbind (ac_receiver_process_messages (rec_state c)
             (ac_receiver_buffer_pop_front_until_and_including mid (rec_auth_channel c))) (\<lambda>a.
       let (inc, a') = ac_receiver_drain_messages_into (rec_incoming_messages c) a in
       Inr (c \<lparr> rec_auth_channel := a', rec_incoming_messages := inc \<rparr>))"

text \<open>The \<^verbatim>\<open>for\<close> loop over the component channels that both spawn arms run.\<close>

definition flush_component ::
  "entity_channel_state \<Rightarrow> message_index \<Rightarrow> component_kind \<times> remote_component_channel \<Rightarrow>
   unit entity_message list \<times> (component_kind \<times> remote_component_channel) list \<Rightarrow>
   (unit entity_message list \<times> (component_kind \<times> remote_component_channel) list) res" where
  "flush_component st mid kc s =
     rbind (rcc_drain_messages_into (fst kc) (fst s)
              (rcc_process_messages st (rcc_buffer_pop_front_until_and_excluding mid (snd kc))))
       (\<lambda>(inc, cc). Inr (inc, snd s @ [(fst kc, cc)]))"

definition rec_flush_components :: "message_index \<Rightarrow> remote_entity_channel \<Rightarrow> remote_entity_channel res" where
  "rec_flush_components mid c =
     rbind (rfold (flush_component (rec_state c) mid) (rec_component_channels c) (rec_incoming_messages c, []))
       (\<lambda>(inc, ccs). Inr (c \<lparr> rec_incoming_messages := inc, rec_component_channels := ccs \<rparr>))"

definition entry_channel ::
  "component_kind \<Rightarrow> remote_entity_channel \<Rightarrow> remote_component_channel" where
  "entry_channel k c =
     (case map_of (rec_component_channels c) k of None \<Rightarrow> rcc_new | Some cc \<Rightarrow> cc)"

definition rec_spawn_arm :: "message_index \<Rightarrow> remote_entity_channel \<Rightarrow> remote_entity_channel res" where
  "rec_spawn_arm mid c =
     rbind (rec_pop_front_into_outgoing (c
         \<lparr> rec_state := Spawned, rec_last_epoch_id := Some mid,
           rec_buffered_messages := pop_front_until_and_excluding mid (rec_buffered_messages c) \<rparr>))
       (\<lambda>c. rbind (rec_flush_auth mid c) (rec_flush_components mid))"

definition rec_coalesce :: "message_index \<Rightarrow> component_kind \<Rightarrow> remote_entity_channel \<Rightarrow> remote_entity_channel" where
  "rec_coalesce mid kind c =
     c \<lparr> rec_component_channels :=
           AList.update kind (rcc_set_inserted True mid (entry_channel kind c)) (rec_component_channels c),
         rec_incoming_messages := rec_incoming_messages c @ [InsertComponent () kind] \<rparr>"

definition rec_spawn_with_components_arm ::
  "message_index \<Rightarrow> remote_entity_channel \<Rightarrow> remote_entity_channel res" where
  "rec_spawn_with_components_arm mid c0 =
     (let c = c0 \<lparr> rec_state := Spawned, rec_last_epoch_id := Some mid,
           rec_buffered_messages := pop_front_until_and_excluding mid (rec_buffered_messages c0) \<rparr>
      in case pop_front (rec_buffered_messages c) of
           (Some (_, SpawnWithComponents _ kinds), q) \<Rightarrow>
             rbind (rec_flush_components mid (c \<lparr> rec_buffered_messages := q,
                 rec_incoming_messages := rec_incoming_messages c @ [Spawn ()] \<rparr>))
               (\<lambda>c. rec_flush_auth mid (fold (rec_coalesce mid) kinds c))
         | (Some _, _) \<Rightarrow> Inl (Panic ''unreachable'')
         | (None, _) \<Rightarrow> Inl (Panic ''unwrap on None''))"

definition rec_despawn_arm :: "message_index \<Rightarrow> remote_entity_channel \<Rightarrow> remote_entity_channel res" where
  "rec_despawn_arm mid c =
     rbind (rec_pop_front_into_outgoing (c
         \<lparr> rec_state := Despawned, rec_last_epoch_id := Some mid,
           rec_auth_channel := ac_reset (rec_auth_channel c), rec_component_channels := [] \<rparr>))
       (\<lambda>c. Inr (c \<lparr> rec_buffered_messages := oi_clear (rec_buffered_messages c) \<rparr>))"

definition rec_component_arm :: "remote_entity_channel \<Rightarrow> remote_entity_channel res" where
  "rec_component_arm c =
     (case pop_front (rec_buffered_messages c) of
        (None, _) \<Rightarrow> Inl (Panic ''unwrap on None'')
      | (Some (mid, msg), q) \<Rightarrow>
          (case msg_component_kind msg of
             None \<Rightarrow> Inl (Panic ''unwrap on None'')
           | Some kind \<Rightarrow>
               rbind (rcc_accept_message (rec_state c) mid msg (entry_channel kind c)) (\<lambda>cc.
               rbind (rcc_drain_messages_into kind (rec_incoming_messages c) cc) (\<lambda>(inc, cc').
                 Inr (c \<lparr> rec_buffered_messages := q, rec_incoming_messages := inc,
                   rec_component_channels := AList.update kind cc' (rec_component_channels c) \<rparr>)))))"

definition rec_auth_arm :: "remote_entity_channel \<Rightarrow> remote_entity_channel res" where
  "rec_auth_arm c =
     (case pop_front (rec_buffered_messages c) of
        (None, _) \<Rightarrow> Inl (Panic ''unwrap on None'')
      | (Some (mid, msg), q) \<Rightarrow>
          rbind (ac_receiver_receive_message (Some (rec_state c)) mid msg (rec_auth_channel c)) (\<lambda>a.
            if rec_state c = Spawned then
              let (inc, a') = ac_receiver_drain_messages_into (rec_incoming_messages c) a in
              Inr (c \<lparr> rec_buffered_messages := q, rec_auth_channel := a', rec_incoming_messages := inc \<rparr>)
            else Inr (c \<lparr> rec_buffered_messages := q, rec_auth_channel := a \<rparr>)))"

text \<open>
  One turn of the loop of \<^verbatim>\<open>process_messages\<close>: \<open>None\<close> is a \<^verbatim>\<open>break\<close>. The \<^verbatim>\<open>Noop\<close> arm leaves the message
  in the buffer, as in the source.
\<close>

definition rec_turn :: "remote_entity_channel \<Rightarrow> remote_entity_channel option res" where
  "rec_turn c =
     (case peek_front (rec_buffered_messages c) of
        None \<Rightarrow> Inr None
      | Some (mid, msg) \<Rightarrow>
          (case msg_get_type msg of
             EMT_Spawn \<Rightarrow>
               if rec_state c \<noteq> Despawned then Inr None else rbind (rec_spawn_arm mid c) (Inr \<circ> Some)
           | EMT_SpawnWithComponents \<Rightarrow>
               if rec_state c \<noteq> Despawned then Inr None
               else rbind (rec_spawn_with_components_arm mid c) (Inr \<circ> Some)
           | EMT_Despawn \<Rightarrow>
               if rec_state c \<noteq> Spawned then Inr None else rbind (rec_despawn_arm mid c) (Inr \<circ> Some)
           | EMT_InsertComponent \<Rightarrow> rbind (rec_component_arm c) (Inr \<circ> Some)
           | EMT_RemoveComponent \<Rightarrow> rbind (rec_component_arm c) (Inr \<circ> Some)
           | EMT_Publish \<Rightarrow> rbind (rec_auth_arm c) (Inr \<circ> Some)
           | EMT_Unpublish \<Rightarrow> rbind (rec_auth_arm c) (Inr \<circ> Some)
           | EMT_EnableDelegation \<Rightarrow> rbind (rec_auth_arm c) (Inr \<circ> Some)
           | EMT_DisableDelegation \<Rightarrow> rbind (rec_auth_arm c) (Inr \<circ> Some)
           | EMT_ReleaseAuthority \<Rightarrow> rbind (rec_auth_arm c) (Inr \<circ> Some)
           | EMT_SetAuthority \<Rightarrow> rbind (rec_auth_arm c) (Inr \<circ> Some)
           | EMT_Noop \<Rightarrow> Inr (Some c)
           | _ \<Rightarrow> Inl (Panic ''EntityChannel::accept_message() received an unexpected message type'')))"

text \<open>
  The loop with fuel. Every turn but the one of a \<^verbatim>\<open>Noop\<close> shortens the buffer, so that one turn more
  than the buffer is long is enough: running out of that fuel means that the loop never ends.
\<close>

fun rec_process_loop :: "nat \<Rightarrow> remote_entity_channel \<Rightarrow> remote_entity_channel res" where
  "rec_process_loop 0 c = Inl Diverges"
| "rec_process_loop (Suc n) c =
     rbind (rec_turn c) (\<lambda>r. case r of None \<Rightarrow> Inr c | Some c' \<Rightarrow> rec_process_loop n c')"

definition rec_process_messages :: "remote_entity_channel \<Rightarrow> remote_entity_channel res" where
  "rec_process_messages c = rec_process_loop (Suc (length (rec_buffered_messages c))) c"

definition rec_receive_message ::
  "message_index \<Rightarrow> unit entity_message \<Rightarrow> remote_entity_channel \<Rightarrow> remote_entity_channel res" where
  "rec_receive_message mid msg c =
     (if rec_last_epoch_id c = Some mid
      then Inl (Panic ''EntityChannel received a message with the same id as the last epoch id'')
      else if (case rec_last_epoch_id c of None \<Rightarrow> False | Some e \<Rightarrow> sequence_less_than mid e) then Inr c
      else rec_process_messages
        (c \<lparr> rec_buffered_messages := oi_push_back mid msg (rec_buffered_messages c) \<rparr>))"

section \<open>Operations of a migration\<close>

definition rec_extract_inserted_component_kinds :: "remote_entity_channel \<Rightarrow> component_kind set" where
  "rec_extract_inserted_component_kinds c =
     set (map fst (filter (\<lambda>(_, cc). rcc_is_inserted cc) (rec_component_channels c)))"

definition rec_force_drain_all_buffers :: "remote_entity_channel \<Rightarrow> remote_entity_channel" where
  "rec_force_drain_all_buffers c =
     c \<lparr> rec_incoming_messages := rec_incoming_messages c @ map snd (rec_buffered_messages c),
         rec_buffered_messages := [],
         rec_component_channels :=
           map (\<lambda>(k, cc). (k, rcc_force_drain_buffers cc)) (rec_component_channels c) \<rparr>"

definition rec_insert_component :: "component_kind \<Rightarrow> remote_entity_channel \<Rightarrow> remote_entity_channel" where
  "rec_insert_component k c =
     c \<lparr> rec_component_channels := AList.update k (entry_channel k c) (rec_component_channels c) \<rparr>"

definition rec_remove_component :: "component_kind \<Rightarrow> remote_entity_channel \<Rightarrow> remote_entity_channel" where
  "rec_remove_component k c =
     c \<lparr> rec_component_channels := AList.delete k (rec_component_channels c) \<rparr>"

definition rec_set_spawned :: "message_index \<Rightarrow> remote_entity_channel \<Rightarrow> remote_entity_channel res" where
  "rec_set_spawned epoch_id c =
     (if rec_state c \<noteq> Despawned then Inl (Panic ''Can only set spawned on despawned entity'')
      else Inr (c \<lparr> rec_state := Spawned, rec_last_epoch_id := Some epoch_id \<rparr>))"

definition rec_insert_component_channel_as_inserted ::
  "component_kind \<Rightarrow> message_index \<Rightarrow> remote_entity_channel \<Rightarrow> remote_entity_channel" where
  "rec_insert_component_channel_as_inserted k epoch_id c =
     c \<lparr> rec_component_channels :=
           AList.update k (rcc_set_inserted True epoch_id rcc_new) (rec_component_channels c) \<rparr>"

definition rec_take_incoming_events ::
  "remote_entity_channel \<Rightarrow> unit entity_message list \<times> remote_entity_channel" where
  "rec_take_incoming_events c = (rec_incoming_messages c, c \<lparr> rec_incoming_messages := [] \<rparr>)"

section \<open>What the world sees\<close>

text \<open>
  The world of one entity: whether it is alive and which components it has. A step is undefined on
  an event that the world could not apply. With \<open>strict\<close> the components count: an insertion needs
  the component absent, a removal needs it present.
\<close>

fun is_auth_message :: "unit entity_message \<Rightarrow> bool" where
  "is_auth_message (Publish _ _) = True"
| "is_auth_message (Unpublish _ _) = True"
| "is_auth_message (EnableDelegation _ _) = True"
| "is_auth_message (DisableDelegation _ _) = True"
| "is_auth_message (ReleaseAuthority _ _) = True"
| "is_auth_message (SetAuthority _ _ _) = True"
| "is_auth_message _ = False"

fun world_step :: "bool \<Rightarrow> bool \<times> component_kind set \<Rightarrow> unit entity_message \<Rightarrow>
    (bool \<times> component_kind set) option" where
  "world_step strict (alive, ks) (Spawn _) = (if alive then None else Some (True, {}))"
| "world_step strict (alive, ks) (Despawn _) = (if alive then Some (False, {}) else None)"
| "world_step strict (alive, ks) (InsertComponent _ k) =
     (if alive \<and> (strict \<longrightarrow> k \<notin> ks) then Some (True, insert k ks) else None)"
| "world_step strict (alive, ks) (RemoveComponent _ k) =
     (if alive \<and> (strict \<longrightarrow> k \<in> ks) then Some (True, ks - {k}) else None)"
| "world_step strict (alive, ks) m = (if alive \<and> is_auth_message m then Some (True, ks) else None)"

fun world_run :: "bool \<Rightarrow> bool \<times> component_kind set \<Rightarrow> unit entity_message list \<Rightarrow>
    (bool \<times> component_kind set) option" where
  "world_run strict w [] = Some w"
| "world_run strict w (e # es) =
     (case world_step strict w e of None \<Rightarrow> None | Some w' \<Rightarrow> world_run strict w' es)"

lemma world_run_append:
  "world_run strict w (es @ fs) =
     (case world_run strict w es of None \<Rightarrow> None | Some w' \<Rightarrow> world_run strict w' fs)"
  by (induction es arbitrary: w) (auto split: option.splits)

lemma world_run_auth:
  "\<forall>m\<in>set ms. is_auth_message m \<Longrightarrow> world_run strict (True, ks) ms = Some (True, ks)"
proof (induction ms)
  case Nil
  then show ?case by simp
next
  case (Cons m ms)
  then show ?case by (cases m) auto
qed

section \<open>What the sub-channels emit\<close>

fun alternates :: "bool \<Rightarrow> entity_message_type list \<Rightarrow> bool \<Rightarrow> bool" where
  "alternates p [] q = (p = q)"
| "alternates p (t # ts) q = (t = toggle_type (\<not> p) \<and> alternates (\<not> p) ts q)"

definition toggle_msg :: "component_kind \<Rightarrow> entity_message_type \<Rightarrow> unit entity_message" where
  "toggle_msg k t = (if t = EMT_InsertComponent then InsertComponent () k else RemoveComponent () k)"

lemma toggle_msg_toggle_type [simp]:
  "toggle_msg k (toggle_type p) = (if p then InsertComponent () k else RemoveComponent () k)"
  by (simp add: toggle_msg_def toggle_type_def)

lemma rcc_process_loop_alternates:
  "\<exists>ts. rcc_incoming_messages (rcc_process_loop c) = rcc_incoming_messages c @ ts \<and>
     alternates (rcc_inserted c) ts (rcc_inserted (rcc_process_loop c))"
proof (induction "rcc_buffered_messages c" arbitrary: c)
  case Nil
  then show ?case by simp
next
  case (Cons p rest)
  obtain mid ins where p: "p = (mid, ins)" by (cases p)
  let ?c = "c \<lparr> rcc_inserted := ins, rcc_last_epoch_id := Some mid,
             rcc_buffered_messages := rest,
             rcc_incoming_messages := rcc_incoming_messages c @ [toggle_type ins] \<rparr>"
  have loop: "rcc_process_loop c = (if ins = rcc_inserted c then c else rcc_process_loop ?c)"
    using Cons.hyps(2) by (intro rcc_process_loop_Cons) (simp add: p)
  show ?case
  proof (cases "ins = rcc_inserted c")
    case True
    then show ?thesis by (simp add: loop)
  next
    case False
    obtain ts where "rcc_incoming_messages (rcc_process_loop ?c) = rcc_incoming_messages ?c @ ts"
        "alternates (rcc_inserted ?c) ts (rcc_inserted (rcc_process_loop ?c))"
      using Cons.hyps(1) [of ?c] by auto
    with False show ?thesis by (intro exI [of _ "toggle_type ins # ts"]) (auto simp: loop)
  qed
qed

lemma rcc_process_messages_alternates:
  "rcc_incoming_messages c = [] \<Longrightarrow> alternates (rcc_inserted c)
     (rcc_incoming_messages (rcc_process_messages st c)) (rcc_inserted (rcc_process_messages st c))"
  using rcc_process_loop_alternates [of c] by (auto simp: rcc_process_messages_def)

lemma rcc_drain_alternates:
  assumes "alternates p (rcc_incoming_messages c) q"
  shows "rcc_drain_messages_into k out c =
    Inr (out @ map (toggle_msg k) (rcc_incoming_messages c), c \<lparr> rcc_incoming_messages := [] \<rparr>)"
proof -
  have "rfold (\<lambda>msg_type received. rbind (with_component_kind msg_type k) (\<lambda>m. Inr (received @ [m]))) ts acc =
      Inr (acc @ map (toggle_msg k) ts)" if "alternates p ts q" for p ts acc
    using that by (induction p ts q arbitrary: acc rule: alternates.induct)
      (auto simp: toggle_type_def toggle_msg_def)
  from this [OF assms] show ?thesis by (simp add: rcc_drain_messages_into_def)
qed

lemma world_run_toggles:
  assumes "alternates p ts q" "strict \<Longrightarrow> p = (k \<in> ks)"
  shows "\<exists>ks'. world_run strict (True, ks) (map (toggle_msg k) ts) = Some (True, ks') \<and>
    (strict \<longrightarrow> ks' = (if q then insert k ks else ks - {k}))"
  using assms
proof (induction p ts q arbitrary: ks rule: alternates.induct)
  case (1 p q)
  then show ?case by auto
next
  case (2 p t ts q)
  then have t: "t = toggle_type (\<not> p)" "alternates (\<not> p) ts q" by auto
  let ?ks = "if p then ks - {k} else insert k ks"
  have "\<exists>ks'. world_run strict (True, ?ks) (map (toggle_msg k) ts) = Some (True, ks') \<and>
      (strict \<longrightarrow> ks' = (if q then insert k ?ks else ?ks - {k}))"
    by (rule 2(1)) (use t in auto)
  with t 2(3) show ?case
    by (cases p; cases strict) auto
qed

lemma acr_process_loop_emits:
  "acr_process_loop r = Inr r' \<Longrightarrow> \<exists>ms. acr_incoming_messages r' = acr_incoming_messages r @ ms \<and>
     set ms \<subseteq> snd ` set (acr_buffered_messages r) \<and>
     set (acr_buffered_messages r') \<subseteq> set (acr_buffered_messages r)"
proof (induction "acr_buffered_messages r" arbitrary: r)
  case Nil
  then show ?case by (simp add: acr_process_loop_Nil)
next
  case (Cons p rest)
  obtain mid msg where p: "p = (mid, msg)" by (cases p)
  let ?r = "r \<lparr> acr_next_subcommand_id := acr_next_subcommand_id r + 1,
       acr_buffered_messages := rest, acr_incoming_messages := acr_incoming_messages r @ [msg] \<rparr>"
  obtain s where s: "msg_subcommand_id msg = Some s"
    using Cons.prems Cons.hyps(2) [symmetric] by (subst (asm) acr_process_loop.simps)
      (auto simp: p split: option.splits)
  have loop: "acr_process_loop r = (if s \<noteq> acr_next_subcommand_id r then Inr r else acr_process_loop ?r)"
    using Cons.hyps(2) s by (intro acr_process_loop_Cons [of r mid]) (simp_all add: p)
  show ?case
  proof (cases "s = acr_next_subcommand_id r")
    case True
    then obtain ms where "acr_incoming_messages r' = acr_incoming_messages ?r @ ms"
        "set ms \<subseteq> snd ` set rest" "set (acr_buffered_messages r') \<subseteq> set rest"
      using Cons.hyps(1) [of ?r] Cons.prems loop by auto
    then show ?thesis
      by (intro exI [of _ "msg # ms"]) (auto simp: p simp flip: Cons.hyps(2))
  next
    case False
    with Cons.prems loop show ?thesis by auto
  qed
qed

section \<open>The invariant\<close>

text \<open>
  The sub-channels hold no undelivered event, the authority buffer holds authority messages only,
  a despawned entity has no inserted component, and the undrained events run the world from \<open>w0\<close>,
  the state the world was left in by the events already drained, to the state of the channel.
\<close>

definition idle_component :: "entity_channel_state \<Rightarrow> remote_component_channel \<Rightarrow> bool" where
  "idle_component st cc = (rcc_incoming_messages cc = [] \<and> (st = Despawned \<longrightarrow> \<not> rcc_inserted cc))"

definition idle_auth :: "auth_channel \<Rightarrow> bool" where
  "idle_auth a = (acr_incoming_messages (ac_receiver a) = [] \<and>
     (\<forall>p\<in>set (acr_buffered_messages (ac_receiver a)). is_auth_message (snd p)))"

definition rec_inserted :: "(component_kind \<times> remote_component_channel) list \<Rightarrow> component_kind set" where
  "rec_inserted ccs = {k. \<exists>cc. map_of ccs k = Some cc \<and> rcc_inserted cc}"

definition world_ok :: "bool \<Rightarrow> bool \<times> component_kind set \<Rightarrow> entity_channel_state \<Rightarrow> unit entity_message list \<Rightarrow>
    (component_kind \<times> remote_component_channel) list \<Rightarrow> bool" where
  "world_ok strict w0 st inc ccs = (\<exists>ks. world_run strict w0 inc = Some (st = Spawned, ks) \<and>
     (strict \<longrightarrow> ks = rec_inserted ccs))"

definition no_coalesced :: "unit entity_message ordered_ids \<Rightarrow> bool" where
  "no_coalesced q = (\<forall>p\<in>set q. msg_get_type (snd p) \<noteq> EMT_SpawnWithComponents)"

definition rec_ok :: "bool \<Rightarrow> bool \<times> component_kind set \<Rightarrow> remote_entity_channel \<Rightarrow> bool" where
  "rec_ok strict w0 c = (distinct (map fst (rec_component_channels c)) \<and>
     (\<forall>p\<in>set (rec_component_channels c). idle_component (rec_state c) (snd p)) \<and>
     idle_auth (rec_auth_channel c) \<and>
     world_ok strict w0 (rec_state c) (rec_incoming_messages c) (rec_component_channels c) \<and>
     (strict \<longrightarrow> no_coalesced (rec_buffered_messages c)))"

lemma set_push_back_loop: "set (push_back_loop n i x q) = insert (i, x) (set q)"
proof (induction n)
  case 0
  then show ?case by simp
next
  case (Suc n)
  have "set (take (Suc n) q) \<union> set (drop (Suc n) q) = set q"
    by (metis append_take_drop_id set_append)
  with Suc show ?case by auto
qed

lemma set_oi_push_back [simp]: "set (oi_push_back i x q) = insert (i, x) (set q)"
  by (simp add: oi_push_back_def set_push_back_loop)

lemma set_pop_front_until: "set (pop_front_until i incl q) \<subseteq> set q"
  by (induction i incl q rule: pop_front_until.induct) auto

lemma set_AList_update: "set (AList.update k v al) \<subseteq> insert (k, v) (set al)"
  by (induction al) auto

lemma rec_inserted_update:
  "rec_inserted (AList.update k cc ccs) =
     (if rcc_inserted cc then insert k (rec_inserted ccs) else rec_inserted ccs - {k})"
  by (auto simp: rec_inserted_def update_conv' split: if_splits)

lemma rec_inserted_entry:
  "k \<in> rec_inserted (rec_component_channels c) \<longleftrightarrow> rcc_inserted (entry_channel k c)"
  by (auto simp: rec_inserted_def entry_channel_def rcc_new_def split: option.splits)

lemma idle_entry:
  "rec_ok strict w0 c \<Longrightarrow> idle_component (rec_state c) (entry_channel k c)"
  by (auto simp: rec_ok_def entry_channel_def idle_component_def rcc_new_def
      dest!: map_of_SomeD split: option.splits)

lemma rec_ok_new: "rec_ok strict (False, {}) (rec_new h)"
  by (auto simp: rec_ok_def rec_new_def idle_auth_def ac_new_def acr_new_def oi_new_def world_ok_def
      rec_inserted_def no_coalesced_def)

lemma rec_ok_extract:
  "rec_ok strict w0 c \<Longrightarrow> rec_extract_inserted_component_kinds c = rec_inserted (rec_component_channels c)"
  by (force simp: rec_ok_def rec_extract_inserted_component_kinds_def rec_inserted_def
      rcc_is_inserted_def)

lemma world_ok_snoc_run:
  assumes "world_ok strict w0 st inc ccs"
    and "\<And>ks. (strict \<Longrightarrow> ks = rec_inserted ccs) \<Longrightarrow>
      \<exists>ks'. world_run strict (st = Spawned, ks) es = Some (st' = Spawned, ks') \<and>
        (strict \<longrightarrow> ks' = rec_inserted ccs')"
  shows "world_ok strict w0 st' (inc @ es) ccs'"
  using assms unfolding world_ok_def by (fastforce simp: world_run_append)

section \<open>Every arm keeps it\<close>

lemma rcc_accept_emits:
  assumes "rcc_accept_message st mid msg cc = Inr cc'" "idle_component st cc"
  shows "\<exists>ts. rcc_incoming_messages cc' = ts \<and> alternates (rcc_inserted cc) ts (rcc_inserted cc') \<and>
    (st = Despawned \<longrightarrow> ts = [] \<and> \<not> rcc_inserted cc')"
proof -
  consider "cc' = cc" | q where "cc' = rcc_process_messages st (cc \<lparr> rcc_buffered_messages := q \<rparr>)"
    using assms(1) by (auto simp: rcc_accept_message_alt rbind_eq_Inr split: if_splits)
  then show ?thesis
  proof cases
    case 1
    with assms(2) show ?thesis by (simp add: idle_component_def)
  next
    case 2
    with assms(2) rcc_process_loop_alternates [of "cc \<lparr> rcc_buffered_messages := q \<rparr>"] show ?thesis
      by (cases st) (auto simp: idle_component_def rcc_process_messages_def)
  qed
qed

lemma rec_component_arm_ok:
  assumes ok: "rec_ok strict w0 c" and arm: "rec_component_arm c = Inr c'"
  shows "rec_ok strict w0 c'"
proof -
  obtain mid msg q where q: "rec_buffered_messages c = (mid, msg) # q"
    using arm by (cases "rec_buffered_messages c") (auto simp: rec_component_arm_def)
  obtain k where k: "msg_component_kind msg = Some k"
    using arm q by (auto simp: rec_component_arm_def split: option.splits)
  obtain cc where cc: "rcc_accept_message (rec_state c) mid msg (entry_channel k c) = Inr cc"
    using arm q k by (auto simp: rec_component_arm_def rbind_eq_Inr)
  obtain ts where ts: "rcc_incoming_messages cc = ts" "alternates (rcc_inserted (entry_channel k c)) ts (rcc_inserted cc)"
      "rec_state c = Despawned \<longrightarrow> ts = [] \<and> \<not> rcc_inserted cc"
    using rcc_accept_emits [OF cc idle_entry [OF ok]] by auto
  have c': "c' = c \<lparr> rec_buffered_messages := q,
      rec_incoming_messages := rec_incoming_messages c @ map (toggle_msg k) ts,
      rec_component_channels := AList.update k (cc \<lparr> rcc_incoming_messages := [] \<rparr>) (rec_component_channels c) \<rparr>"
    using arm q k cc ts rcc_drain_alternates [of _ cc _ k "rec_incoming_messages c"]
    by (auto simp: rec_component_arm_def)
  have "world_ok strict w0 (rec_state c) (rec_incoming_messages c @ map (toggle_msg k) ts)
      (AList.update k (cc \<lparr> rcc_incoming_messages := [] \<rparr>) (rec_component_channels c))"
  proof (rule world_ok_snoc_run)
    show "world_ok strict w0 (rec_state c) (rec_incoming_messages c) (rec_component_channels c)"
      using ok by (simp add: rec_ok_def)
  next
    fix ks assume ks: "strict \<Longrightarrow> ks = rec_inserted (rec_component_channels c)"
    show "\<exists>ks'. world_run strict (rec_state c = Spawned, ks) (map (toggle_msg k) ts) =
        Some (rec_state c = Spawned, ks') \<and> (strict \<longrightarrow> ks' = rec_inserted
          (AList.update k (cc \<lparr> rcc_incoming_messages := [] \<rparr>) (rec_component_channels c)))"
    proof (cases "rec_state c")
      case Spawned
      have "\<exists>ks'. world_run strict (True, ks) (map (toggle_msg k) ts) = Some (True, ks') \<and>
          (strict \<longrightarrow> ks' = (if rcc_inserted cc then insert k ks else ks - {k}))"
        using ts(2) ks by (intro world_run_toggles) (auto simp: rec_inserted_entry)
      with Spawned ks show ?thesis by (auto simp: rec_inserted_update)
    next
      case Despawned
      then have "k \<notin> ks" if strict
        using ks [OF that] ts idle_entry [OF ok, of k] by (simp add: rec_inserted_entry idle_component_def)
      with Despawned ks ts show ?thesis by (auto simp: rec_inserted_update)
    qed
  qed
  moreover have "idle_component (rec_state c) (snd p)"
    if "p \<in> set (AList.update k (cc \<lparr> rcc_incoming_messages := [] \<rparr>) (rec_component_channels c))" for p
    using subsetD [OF set_AList_update that] ok ts(3) by (auto simp: idle_component_def rec_ok_def)
  ultimately show ?thesis
    using ok q by (simp add: c' rec_ok_def distinct_update no_coalesced_def)
qed

lemma acr_process_idle:
  assumes "acr_process_messages st r = Inr r'" "acr_incoming_messages r = []"
    "\<forall>p\<in>set (acr_buffered_messages r). is_auth_message (snd p)"
  shows "(\<forall>m\<in>set (acr_incoming_messages r'). is_auth_message m) \<and>
    (\<forall>p\<in>set (acr_buffered_messages r'). is_auth_message (snd p)) \<and>
    (st = Some Despawned \<longrightarrow> acr_incoming_messages r' = [])"
proof (cases "st = Some Despawned")
  case True
  with assms show ?thesis by (auto simp: acr_process_messages_def)
next
  case False
  then have "st = None \<or> st = Some Spawned" by (metis entity_channel_state.exhaust option.exhaust)
  then have "acr_process_loop r = Inr r'"
    using assms(1) by (auto simp: acr_process_messages_def)
  from acr_process_loop_emits [OF this] obtain ms where ms: "acr_incoming_messages r' = ms"
      "set ms \<subseteq> snd ` set (acr_buffered_messages r)"
      "set (acr_buffered_messages r') \<subseteq> set (acr_buffered_messages r)"
    using assms(2) by auto
  then have "\<forall>m\<in>set ms. is_auth_message m" using assms(3) by blast
  with ms assms(3) False show ?thesis by blast
qed

lemma world_ok_auth:
  "world_ok strict w0 Spawned inc ccs \<Longrightarrow> \<forall>m\<in>set ms. is_auth_message m \<Longrightarrow>
   world_ok strict w0 Spawned (inc @ ms) ccs"
  by (erule world_ok_snoc_run) (auto simp: world_run_auth)

lemma rec_auth_arm_ok:
  assumes ok: "rec_ok strict w0 c" and arm: "rec_auth_arm c = Inr c'"
    and m: "rec_buffered_messages c = (mid, msg) # q" "is_auth_message msg"
  shows "rec_ok strict w0 c'"
proof -
  obtain r where r: "acr_receive_message (Some (rec_state c)) mid msg (ac_receiver (rec_auth_channel c)) = Inr r"
    using arm m(1) by (auto simp: rec_auth_arm_def ac_receiver_receive_message_def rbind_eq_Inr)
  have idle: "acr_incoming_messages (ac_receiver (rec_auth_channel c)) = []"
      "\<forall>p\<in>set (acr_buffered_messages (ac_receiver (rec_auth_channel c))). is_auth_message (snd p)"
    using ok by (simp_all add: rec_ok_def idle_auth_def)
  have *: "\<forall>m\<in>set (acr_incoming_messages r). is_auth_message m"
     "\<forall>p\<in>set (acr_buffered_messages r). is_auth_message (snd p)"
     "rec_state c = Despawned \<Longrightarrow> acr_incoming_messages r = []"
    using acr_process_idle [OF r [unfolded acr_receive_message_def]] idle m(2) by simp_all
  have c': "c' = c \<lparr> rec_buffered_messages := q,
      rec_auth_channel := (rec_auth_channel c) \<lparr> ac_receiver :=
        (if rec_state c = Spawned then r \<lparr> acr_incoming_messages := [] \<rparr> else r) \<rparr>,
      rec_incoming_messages := rec_incoming_messages c @
        (if rec_state c = Spawned then acr_incoming_messages r else []) \<rparr>"
    using arm m(1) r by (auto simp: rec_auth_arm_def ac_receiver_receive_message_def
        ac_receiver_drain_messages_into_def acr_drain_messages_into_def)
  show ?thesis
    using ok * m(1) by (cases "rec_state c")
      (auto simp: c' rec_ok_def idle_auth_def no_coalesced_def world_ok_auth)
qed

lemma rec_flush_auth_ok:
  assumes ok: "rec_ok strict w0 c" and st: "rec_state c = Spawned" and fl: "rec_flush_auth mid c = Inr c'"
  shows "rec_ok strict w0 c' \<and> rec_state c' = Spawned"
proof -
  let ?r = "acr_buffer_pop_front_until_and_including mid (ac_receiver (rec_auth_channel c))"
  obtain r where r: "acr_process_messages (Some Spawned) ?r = Inr r"
    using fl st by (auto simp: rec_flush_auth_def ac_receiver_process_messages_def rbind_eq_Inr
        ac_receiver_buffer_pop_front_until_and_including_def)
  have "set (acr_buffered_messages ?r) \<subseteq> set (acr_buffered_messages (ac_receiver (rec_auth_channel c)))"
    by (simp add: acr_buffer_pop_front_until_and_including_def pop_front_until_and_including_def
        set_pop_front_until)
  then have "\<forall>p\<in>set (acr_buffered_messages ?r). is_auth_message (snd p)" "acr_incoming_messages ?r = []"
    using ok by (auto simp: rec_ok_def idle_auth_def acr_buffer_pop_front_until_and_including_def)
  with acr_process_idle [OF r] have *: "\<forall>m\<in>set (acr_incoming_messages r). is_auth_message m"
     "\<forall>p\<in>set (acr_buffered_messages r). is_auth_message (snd p)" by auto
  have c': "c' = c \<lparr> rec_auth_channel := (rec_auth_channel c) \<lparr> ac_receiver := r \<lparr> acr_incoming_messages := [] \<rparr> \<rparr>,
      rec_incoming_messages := rec_incoming_messages c @ acr_incoming_messages r \<rparr>"
    using fl st r by (auto simp: rec_flush_auth_def ac_receiver_process_messages_def
        ac_receiver_buffer_pop_front_until_and_including_def ac_receiver_drain_messages_into_def
        acr_drain_messages_into_def)
  show ?thesis
    using ok st * by (auto simp: c' rec_ok_def idle_auth_def world_ok_auth)
qed

lemma rec_inserted_middle:
  "distinct (map fst (acc @ (k, cc) # rest)) \<Longrightarrow>
   rec_inserted (acc @ (k, cc) # rest) =
     (if rcc_inserted cc then insert k (rec_inserted (acc @ rest)) else rec_inserted (acc @ rest)) \<and>
   k \<notin> rec_inserted (acc @ rest)"
proof -
  assume d: "distinct (map fst (acc @ (k, cc) # rest))"
  then have k: "map_of acc k = None" "map_of rest k = None" by (auto simp: map_of_eq_None_iff)
  then show ?thesis
    by (auto simp: rec_inserted_def map_add_def split: option.splits if_splits)
qed

lemma flush_component_emits:
  assumes "flush_component Spawned mid (k, cc) (inc, acc) = Inr (inc', acc')" "rcc_incoming_messages cc = []"
  shows "\<exists>ts cc'. inc' = inc @ map (toggle_msg k) ts \<and> acc' = acc @ [(k, cc')] \<and>
    alternates (rcc_inserted cc) ts (rcc_inserted cc') \<and> rcc_incoming_messages cc' = []"
proof -
  let ?cc = "rcc_buffer_pop_front_until_and_excluding mid cc"
  obtain ts where "rcc_incoming_messages (rcc_process_loop ?cc) = ts"
      "alternates (rcc_inserted cc) ts (rcc_inserted (rcc_process_loop ?cc))"
    using rcc_process_loop_alternates [of ?cc] assms(2)
    by (auto simp: rcc_buffer_pop_front_until_and_excluding_def)
  with assms(1) rcc_drain_alternates [of _ "rcc_process_loop ?cc" _ k inc] show ?thesis
    by (auto simp: flush_component_def rcc_process_messages_def)
qed

lemma flush_components_ok:
  assumes "rfold (flush_component Spawned mid) rest (inc, acc) = Inr (inc', ccs)"
    and "distinct (map fst (acc @ rest))" "\<forall>p\<in>set (acc @ rest). rcc_incoming_messages (snd p) = []"
    and "world_ok strict w0 Spawned inc (acc @ rest)"
  shows "map fst ccs = map fst (acc @ rest) \<and> (\<forall>p\<in>set ccs. rcc_incoming_messages (snd p) = []) \<and>
    world_ok strict w0 Spawned inc' ccs"
  using assms
proof (induction rest arbitrary: inc acc)
  case Nil
  then show ?case by simp
next
  case (Cons p rest)
  obtain k cc where p: "p = (k, cc)" by (cases p)
  obtain inc1 acc1 where 1: "flush_component Spawned mid (k, cc) (inc, acc) = Inr (inc1, acc1)"
      "rfold (flush_component Spawned mid) rest (inc1, acc1) = Inr (inc', ccs)"
    using Cons.prems(1) by (auto simp: p rbind_eq_Inr)
  obtain ts cc' where 2: "inc1 = inc @ map (toggle_msg k) ts" "acc1 = acc @ [(k, cc')]"
      "alternates (rcc_inserted cc) ts (rcc_inserted cc')" "rcc_incoming_messages cc' = []"
    using flush_component_emits [OF 1(1)] Cons.prems(3) by (auto simp: p)
  have "world_ok strict w0 Spawned inc1 (acc1 @ rest)"
    unfolding 2(1)
  proof (rule world_ok_snoc_run [OF Cons.prems(4)])
    fix ks assume ks: "strict \<Longrightarrow> ks = rec_inserted (acc @ p # rest)"
    have m: "rec_inserted (acc @ (k, cc) # rest) = (if rcc_inserted cc then insert k
          (rec_inserted (acc @ rest)) else rec_inserted (acc @ rest))"
        "rec_inserted (acc @ (k, cc') # rest) = (if rcc_inserted cc' then insert k
          (rec_inserted (acc @ rest)) else rec_inserted (acc @ rest))"
        "k \<notin> rec_inserted (acc @ rest)"
      using rec_inserted_middle [of acc k cc rest] rec_inserted_middle [of acc k cc' rest] Cons.prems(2)
      by (simp_all add: p)
    then have "rcc_inserted cc = (k \<in> ks)" if strict using ks that by (auto simp: p)
    from world_run_toggles [OF 2(3) this] obtain ks' where
        "world_run strict (True, ks) (map (toggle_msg k) ts) = Some (True, ks')"
        "strict \<longrightarrow> ks' = (if rcc_inserted cc' then insert k ks else ks - {k})"
      by blast
    with ks m show "\<exists>ks'. world_run strict (Spawned = Spawned, ks) (map (toggle_msg k) ts) =
        Some (Spawned = Spawned, ks') \<and> (strict \<longrightarrow> ks' = rec_inserted (acc1 @ rest))"
      by (auto simp: p 2(2))
  qed
  with Cons.IH [OF 1(2)] Cons.prems 2 show ?case by (auto simp: p)
qed

lemma rec_flush_components_ok:
  assumes ok: "rec_ok strict w0 c" and st: "rec_state c = Spawned" and fl: "rec_flush_components mid c = Inr c'"
  shows "rec_ok strict w0 c' \<and> rec_state c' = Spawned"
proof -
  obtain inc ccs where r: "rfold (flush_component Spawned mid) (rec_component_channels c)
      (rec_incoming_messages c, []) = Inr (inc, ccs)"
    and c': "c' = c \<lparr> rec_incoming_messages := inc, rec_component_channels := ccs \<rparr>"
    using fl st by (auto simp: rec_flush_components_def rbind_eq_Inr)
  show ?thesis
    using flush_components_ok [OF r, of strict w0] ok st by (auto simp: c' rec_ok_def idle_component_def)
qed

lemma pop_front_until_excl_head [simp]:
  "pop_front_until mid False ((mid, x) # q) = (mid, x) # q"
  by (simp add: sequence_less_than_def)

lemma rec_ok_despawned:
  assumes "rec_ok strict w0 c" "rec_state c = Despawned"
  shows "rec_inserted (rec_component_channels c) = {}"
  using assms by (auto simp: rec_ok_def rec_inserted_def idle_component_def dest!: map_of_SomeD)

text \<open>The state both spawn arms reach before they flush the sub-channels.\<close>

lemma rec_ok_spawned:
  assumes ok: "rec_ok strict w0 c" and st: "rec_state c = Despawned"
    and q: "rec_buffered_messages c = (mid, msg) # q"
  shows "rec_ok strict w0 (c \<lparr> rec_state := Spawned, rec_last_epoch_id := Some mid,
    rec_buffered_messages := q, rec_incoming_messages := rec_incoming_messages c @ [Spawn ()] \<rparr>)"
proof -
  have "world_ok strict w0 Spawned (rec_incoming_messages c @ [Spawn ()]) (rec_component_channels c)"
    by (rule world_ok_snoc_run [of _ _ Despawned])
      (use ok st rec_ok_despawned [OF ok st] in \<open>auto simp: rec_ok_def\<close>)
  with ok q show ?thesis by (auto simp: rec_ok_def idle_component_def no_coalesced_def)
qed

lemma msg_get_type_cases:
  "msg_get_type m = EMT_Spawn \<longleftrightarrow> (\<exists>e. m = Spawn e)"
  "msg_get_type m = EMT_SpawnWithComponents \<longleftrightarrow> (\<exists>e ks. m = SpawnWithComponents e ks)"
  "msg_get_type m = EMT_Despawn \<longleftrightarrow> (\<exists>e. m = Despawn e)"
  by (cases m; simp)+

lemma rec_spawn_arm_ok:
  assumes ok: "rec_ok strict w0 c" and st: "rec_state c = Despawned"
    and q: "rec_buffered_messages c = (mid, Spawn ()) # q" and arm: "rec_spawn_arm mid c = Inr c'"
  shows "rec_ok strict w0 c'"
proof -
  let ?c = "c \<lparr> rec_state := Spawned, rec_last_epoch_id := Some mid,
    rec_buffered_messages := q, rec_incoming_messages := rec_incoming_messages c @ [Spawn ()] \<rparr>"
  from arm q obtain c1 where "rec_flush_auth mid ?c = Inr c1" "rec_flush_components mid c1 = Inr c'"
    by (auto simp: rec_spawn_arm_def rec_pop_front_into_outgoing_def rbind_eq_Inr naia_defs)
  with rec_flush_auth_ok [OF rec_ok_spawned [OF ok st q]] rec_flush_components_ok show ?thesis
    by fastforce
qed

lemma rec_coalesce_ok:
  assumes "rec_ok False w0 c" "rec_state c = Spawned"
  shows "rec_ok False w0 (rec_coalesce mid k c) \<and> rec_state (rec_coalesce mid k c) = Spawned"
proof -
  have "world_ok False w0 Spawned (rec_incoming_messages c @ [InsertComponent () k])
      (AList.update k (rcc_set_inserted True mid (entry_channel k c)) (rec_component_channels c))"
    by (rule world_ok_snoc_run [of _ _ Spawned]) (use assms in \<open>auto simp: rec_ok_def\<close>)
  moreover have "idle_component Spawned (snd p)"
    if "p \<in> set (AList.update k (rcc_set_inserted True mid (entry_channel k c)) (rec_component_channels c))" for p
    using subsetD [OF set_AList_update that] assms idle_entry [OF assms(1), of k]
    by (auto simp: idle_component_def rec_ok_def rcc_set_inserted_def)
  ultimately show ?thesis
    using assms by (simp add: rec_ok_def rec_coalesce_def distinct_update)
qed

lemma rec_coalesce_all_ok:
  "rec_ok False w0 c \<and> rec_state c = Spawned \<Longrightarrow>
   rec_ok False w0 (fold (rec_coalesce mid) ks c) \<and> rec_state (fold (rec_coalesce mid) ks c) = Spawned"
proof (induction ks arbitrary: c)
  case Nil
  then show ?case by simp
next
  case (Cons k ks)
  then show ?case using rec_coalesce_ok [of w0 c mid k] by simp
qed

lemma rec_spawn_with_components_arm_ok:
  assumes ok: "rec_ok False w0 c" and st: "rec_state c = Despawned"
    and q: "rec_buffered_messages c = (mid, SpawnWithComponents () ks) # q"
    and arm: "rec_spawn_with_components_arm mid c = Inr c'"
  shows "rec_ok False w0 c'"
proof -
  let ?c = "c \<lparr> rec_state := Spawned, rec_last_epoch_id := Some mid,
    rec_buffered_messages := q, rec_incoming_messages := rec_incoming_messages c @ [Spawn ()] \<rparr>"
  from arm q obtain c1 where c1: "rec_flush_components mid ?c = Inr c1"
      "rec_flush_auth mid (fold (rec_coalesce mid) ks c1) = Inr c'"
    by (auto simp: rec_spawn_with_components_arm_def rbind_eq_Inr naia_defs)
  have "rec_ok False w0 c1 \<and> rec_state c1 = Spawned"
    using rec_flush_components_ok [OF rec_ok_spawned [OF ok st q] _ c1(1)] by simp
  then have "rec_ok False w0 (fold (rec_coalesce mid) ks c1) \<and> rec_state (fold (rec_coalesce mid) ks c1) = Spawned"
    by (rule rec_coalesce_all_ok)
  with rec_flush_auth_ok c1(2) show ?thesis by blast
qed

lemma rec_despawn_arm_ok:
  assumes ok: "rec_ok strict w0 c" and st: "rec_state c = Spawned"
    and q: "rec_buffered_messages c = (mid, Despawn ()) # q" and arm: "rec_despawn_arm mid c = Inr c'"
  shows "rec_ok strict w0 c'"
proof -
  have "world_ok strict w0 Despawned (rec_incoming_messages c @ [Despawn ()]) []"
    by (rule world_ok_snoc_run [of _ _ Spawned]) (use ok st in \<open>auto simp: rec_ok_def rec_inserted_def\<close>)
  with ok q arm show ?thesis
    by (auto simp: rec_ok_def rec_despawn_arm_def rec_pop_front_into_outgoing_def idle_auth_def
        ac_reset_def ac_new_def acr_new_def no_coalesced_def naia_defs)
qed

lemma rec_turn_ok:
  assumes ok: "rec_ok strict w0 c" and turn: "rec_turn c = Inr (Some c')"
  shows "rec_ok strict w0 c'"
proof (cases "rec_buffered_messages c")
  case Nil
  with turn show ?thesis by (simp add: rec_turn_def)
next
  case (Cons p q)
  obtain mid msg where p: "p = (mid, msg)" by (cases p)
  have head: "rec_buffered_messages c = (mid, msg) # q" by (simp add: Cons p)
  note arms = rec_spawn_arm_ok [OF ok] rec_despawn_arm_ok [OF ok] rec_component_arm_ok [OF ok]
    rec_auth_arm_ok [OF ok _ head]
  show ?thesis
  proof (cases msg)
    case (SpawnWithComponents u ks)
    with turn head ok have "\<not> strict" by (auto simp: rec_ok_def no_coalesced_def)
    with SpawnWithComponents turn head ok rec_spawn_with_components_arm_ok [of w0 c mid ks q c'] show ?thesis
      by (auto simp: rec_turn_def rbind_eq_Inr split: if_splits)
  qed (use turn head ok arms in \<open>auto simp: rec_turn_def rbind_eq_Inr split: if_splits
      intro: entity_channel_state.exhaust\<close>)
qed

lemma rec_process_loop_ok:
  "rec_ok strict w0 c \<Longrightarrow> rec_process_loop n c = Inr c' \<Longrightarrow> rec_ok strict w0 c'"
proof (induction n arbitrary: c)
  case 0
  then show ?case by simp
next
  case (Suc n)
  then show ?case by (auto simp: rbind_eq_Inr split: option.splits intro: rec_turn_ok)
qed

lemma rec_receive_message_ok:
  assumes "rec_ok strict w0 c" "rec_receive_message mid msg c = Inr c'"
    "strict \<Longrightarrow> msg_get_type msg \<noteq> EMT_SpawnWithComponents"
  shows "rec_ok strict w0 c'"
proof (cases "c' = c")
  case False
  have "rec_ok strict w0 (c \<lparr> rec_buffered_messages := oi_push_back mid msg (rec_buffered_messages c) \<rparr>)"
    using assms(1,3) by (auto simp: rec_ok_def no_coalesced_def)
  with assms(2) False show ?thesis
    by (auto simp: rec_receive_message_def rec_process_messages_def simp del: rec_process_loop.simps
        split: if_splits intro: rec_process_loop_ok)
qed (use assms in simp)

section \<open>No panic and no endless loop\<close>

text \<open>The messages an entity channel is meant to receive.\<close>

fun receivable :: "unit entity_message \<Rightarrow> bool" where
  "receivable (Spawn _) = True"
| "receivable (SpawnWithComponents _ _) = True"
| "receivable (Despawn _) = True"
| "receivable (InsertComponent _ _) = True"
| "receivable (RemoveComponent _ _) = True"
| "receivable m = is_auth_message m"

lemma auth_has_subcommand_id: "is_auth_message m \<Longrightarrow> \<exists>s. msg_subcommand_id m = Some s"
  by (cases m) auto

lemma acr_process_loop_total:
  "\<forall>p\<in>set (acr_buffered_messages r). is_auth_message (snd p) \<Longrightarrow> \<exists>r'. acr_process_loop r = Inr r'"
proof (induction "acr_buffered_messages r" arbitrary: r)
  case Nil
  then show ?case by (simp add: acr_process_loop_Nil)
next
  case (Cons p rest)
  obtain mid msg where p: "p = (mid, msg)" by (cases p)
  have "is_auth_message msg" using Cons.prems Cons.hyps(2) [symmetric] by (simp add: p)
  then obtain s where s: "msg_subcommand_id msg = Some s" using auth_has_subcommand_id by auto
  let ?r = "r \<lparr> acr_next_subcommand_id := acr_next_subcommand_id r + 1,
       acr_buffered_messages := rest, acr_incoming_messages := acr_incoming_messages r @ [msg] \<rparr>"
  have "acr_process_loop r = (if s \<noteq> acr_next_subcommand_id r then Inr r else acr_process_loop ?r)"
    using Cons.hyps(2) s by (intro acr_process_loop_Cons [of r mid]) (simp_all add: p)
  moreover have "\<exists>r'. acr_process_loop ?r = Inr r'"
    using Cons.prems Cons.hyps(2) [symmetric] by (intro Cons.hyps(1)) auto
  ultimately show ?case by auto
qed

lemma acr_process_messages_total:
  "\<forall>p\<in>set (acr_buffered_messages r). is_auth_message (snd p) \<Longrightarrow> \<exists>r'. acr_process_messages st r = Inr r'"
  using acr_process_loop_total by (auto simp: acr_process_messages_def split: option.split)

lemma rec_flush_auth_total:
  assumes "rec_ok strict w0 c"
  shows "\<exists>c'. rec_flush_auth mid c = Inr c' \<and> rec_buffered_messages c' = rec_buffered_messages c"
proof -
  let ?r = "acr_buffer_pop_front_until_and_including mid (ac_receiver (rec_auth_channel c))"
  have "set (acr_buffered_messages ?r) \<subseteq> set (acr_buffered_messages (ac_receiver (rec_auth_channel c)))"
    by (simp add: acr_buffer_pop_front_until_and_including_def pop_front_until_and_including_def
        set_pop_front_until)
  then have "\<forall>p\<in>set (acr_buffered_messages ?r). is_auth_message (snd p)"
    using assms by (auto simp: rec_ok_def idle_auth_def)
  from acr_process_messages_total [OF this, of "Some (rec_state c)"] show ?thesis
    by (auto simp: rec_flush_auth_def ac_receiver_process_messages_def Let_def split_beta
        ac_receiver_buffer_pop_front_until_and_including_def)
qed

lemma flush_component_total:
  assumes "rcc_incoming_messages (snd kc) = []"
  shows "\<exists>s'. flush_component st mid kc s = Inr s'"
proof -
  let ?cc = "rcc_buffer_pop_front_until_and_excluding mid (snd kc)"
  have "alternates (rcc_inserted ?cc) (rcc_incoming_messages (rcc_process_messages st ?cc))
      (rcc_inserted (rcc_process_messages st ?cc))"
    using assms by (intro rcc_process_messages_alternates)
      (simp add: rcc_buffer_pop_front_until_and_excluding_def)
  from rcc_drain_alternates [OF this] show ?thesis by (simp add: flush_component_def)
qed

lemma rec_flush_components_total:
  assumes "rec_ok strict w0 c"
  shows "\<exists>c'. rec_flush_components mid c = Inr c' \<and> rec_buffered_messages c' = rec_buffered_messages c"
proof -
  have "\<exists>s'. rfold (flush_component st mid) ccs s = Inr s'"
    if "\<forall>p\<in>set ccs. rcc_incoming_messages (snd p) = []" for st s ccs
    using that
  proof (induction ccs arbitrary: s)
    case Nil
    then show ?case by simp
  next
    case (Cons p ccs)
    then show ?case using flush_component_total [of p st mid s] by auto
  qed
  moreover have "\<forall>p\<in>set (rec_component_channels c). rcc_incoming_messages (snd p) = []"
    using assms by (auto simp: rec_ok_def idle_component_def)
  ultimately obtain s' where "rfold (flush_component (rec_state c) mid) (rec_component_channels c)
      (rec_incoming_messages c, []) = Inr s'" by blast
  then show ?thesis by (cases s') (simp add: rec_flush_components_def)
qed

lemma rcc_accept_message_total:
  assumes "msg_component_kind msg = Some k"
  shows "\<exists>cc'. rcc_accept_message st mid msg cc = Inr cc'"
proof -
  obtain b where "toggle_flag msg = Inr b" using assms by (cases msg) auto
  then show ?thesis by (simp add: rcc_accept_message_alt)
qed

lemma rec_component_arm_total:
  assumes "rec_ok strict w0 c" "rec_buffered_messages c = (mid, msg) # q" "msg_component_kind msg = Some k"
  shows "\<exists>c'. rec_component_arm c = Inr c' \<and> rec_buffered_messages c' = q"
proof -
  obtain cc where cc: "rcc_accept_message (rec_state c) mid msg (entry_channel k c) = Inr cc"
    using rcc_accept_message_total [OF assms(3)] by blast
  have "alternates (rcc_inserted (entry_channel k c)) (rcc_incoming_messages cc) (rcc_inserted cc)"
    using rcc_accept_emits [OF cc idle_entry [OF assms(1)]] by auto
  from rcc_drain_alternates [OF this] cc assms(2,3) show ?thesis by (simp add: rec_component_arm_def)
qed

lemma rec_auth_arm_total:
  assumes "rec_ok strict w0 c" "rec_buffered_messages c = (mid, msg) # q" "is_auth_message msg"
  shows "\<exists>c'. rec_auth_arm c = Inr c' \<and> rec_buffered_messages c' = q"
proof -
  obtain r where "acr_receive_message (Some (rec_state c)) mid msg (ac_receiver (rec_auth_channel c)) = Inr r"
    using acr_process_messages_total [of "(ac_receiver (rec_auth_channel c)) \<lparr> acr_buffered_messages :=
        oi_push_back mid msg (acr_buffered_messages (ac_receiver (rec_auth_channel c))) \<rparr>"
        "Some (rec_state c)"] assms(1,3)
    by (auto simp: acr_receive_message_def rec_ok_def idle_auth_def)
  then show ?thesis
    by (simp add: rec_auth_arm_def assms(2) ac_receiver_receive_message_def Let_def split_beta)
qed

lemma rec_coalesce_buffer [simp]:
  "rec_buffered_messages (fold (rec_coalesce mid) ks c) = rec_buffered_messages c"
  by (induction ks arbitrary: c) (simp_all add: rec_coalesce_def)

lemma rec_spawn_arm_total:
  assumes ok: "rec_ok strict w0 c" and st: "rec_state c = Despawned"
    and q: "rec_buffered_messages c = (mid, Spawn ()) # q"
  shows "\<exists>c'. rec_spawn_arm mid c = Inr c' \<and> rec_buffered_messages c' = q"
proof -
  let ?c = "c \<lparr> rec_state := Spawned, rec_last_epoch_id := Some mid,
    rec_buffered_messages := q, rec_incoming_messages := rec_incoming_messages c @ [Spawn ()] \<rparr>"
  obtain c1 where 1: "rec_flush_auth mid ?c = Inr c1" "rec_buffered_messages c1 = q"
    using rec_flush_auth_total [OF rec_ok_spawned [OF ok st q]] by auto
  then have "rec_ok strict w0 c1" using rec_flush_auth_ok [OF rec_ok_spawned [OF ok st q]] by simp
  from rec_flush_components_total [OF this, of mid] 1 q show ?thesis
    by (auto simp: rec_spawn_arm_def rec_pop_front_into_outgoing_def naia_defs)
qed

lemma rec_spawn_with_components_arm_total:
  assumes ok: "rec_ok False w0 c" and st: "rec_state c = Despawned"
    and q: "rec_buffered_messages c = (mid, SpawnWithComponents () ks) # q"
  shows "\<exists>c'. rec_spawn_with_components_arm mid c = Inr c' \<and> rec_buffered_messages c' = q"
proof -
  let ?c = "c \<lparr> rec_state := Spawned, rec_last_epoch_id := Some mid,
    rec_buffered_messages := q, rec_incoming_messages := rec_incoming_messages c @ [Spawn ()] \<rparr>"
  obtain c1 where 1: "rec_flush_components mid ?c = Inr c1" "rec_buffered_messages c1 = q"
    using rec_flush_components_total [OF rec_ok_spawned [OF ok st q]] by auto
  have "rec_ok False w0 c1 \<and> rec_state c1 = Spawned"
    using rec_flush_components_ok [OF rec_ok_spawned [OF ok st q] _ 1(1)] by simp
  then have "rec_ok False w0 (fold (rec_coalesce mid) ks c1)"
    using rec_coalesce_all_ok by blast
  from rec_flush_auth_total [OF this, of mid] 1 q show ?thesis
    by (auto simp: rec_spawn_with_components_arm_def naia_defs)
qed

lemma rec_turn_total:
  assumes ok: "rec_ok False w0 c" and good: "\<forall>p\<in>set (rec_buffered_messages c). receivable (snd p)"
  shows "rec_turn c = Inr None \<or>
    (\<exists>c'. rec_turn c = Inr (Some c') \<and> set (rec_buffered_messages c') \<subseteq> set (rec_buffered_messages c) \<and>
       length (rec_buffered_messages c') < length (rec_buffered_messages c))"
proof (cases "rec_buffered_messages c")
  case Nil
  then show ?thesis by (simp add: rec_turn_def)
next
  case (Cons p q)
  obtain mid msg where p: "p = (mid, msg)" by (cases p)
  have head: "rec_buffered_messages c = (mid, msg) # q" and rec: "receivable msg"
    using good by (simp_all add: Cons p)
  note totals = rec_component_arm_total [OF ok head] rec_auth_arm_total [OF ok head]
    rec_spawn_arm_total [OF ok] rec_spawn_with_components_arm_total [OF ok]
  show ?thesis
  proof (cases msg)
    case (Despawn u)
    then show ?thesis
      by (auto simp: rec_turn_def head rec_despawn_arm_def rec_pop_front_into_outgoing_def naia_defs)
  next
    case (Spawn u)
    then show ?thesis using totals(3) [of mid q] head by (cases "rec_state c") (auto simp: rec_turn_def)
  next
    case (SpawnWithComponents u ks)
    then show ?thesis using totals(4) [of mid ks q] head by (cases "rec_state c") (auto simp: rec_turn_def)
  next
    case (InsertComponent u k)
    then show ?thesis using totals(1) head by (auto simp: rec_turn_def)
  next
    case (RemoveComponent u k)
    then show ?thesis using totals(1) head by (auto simp: rec_turn_def)
  qed (use totals(2) rec head in \<open>auto simp: rec_turn_def\<close>)
qed

lemma rec_process_loop_total:
  "rec_ok False w0 c \<Longrightarrow> \<forall>p\<in>set (rec_buffered_messages c). receivable (snd p) \<Longrightarrow>
   length (rec_buffered_messages c) < n \<Longrightarrow>
   \<exists>c'. rec_process_loop n c = Inr c' \<and> set (rec_buffered_messages c') \<subseteq> set (rec_buffered_messages c)"
proof (induction n arbitrary: c)
  case 0
  then show ?case by simp
next
  case (Suc n)
  from rec_turn_total [OF Suc.prems(1,2)] show ?case
  proof (elim disjE exE conjE)
    fix c1 assume c1: "rec_turn c = Inr (Some c1)"
      "set (rec_buffered_messages c1) \<subseteq> set (rec_buffered_messages c)"
      "length (rec_buffered_messages c1) < length (rec_buffered_messages c)"
    obtain c' where "rec_process_loop n c1 = Inr c'"
        "set (rec_buffered_messages c') \<subseteq> set (rec_buffered_messages c1)"
      using Suc.IH [OF rec_turn_ok [OF Suc.prems(1) c1(1)]] c1 Suc.prems(2,3) by auto
    with c1 show ?thesis by auto
  qed auto
qed

lemma rec_receive_message_total:
  assumes "rec_ok False w0 c" "\<forall>p\<in>set (rec_buffered_messages c). receivable (snd p)" "receivable msg"
    "rec_last_epoch_id c \<noteq> Some mid"
  shows "\<exists>c'. rec_receive_message mid msg c = Inr c' \<and> (\<forall>p\<in>set (rec_buffered_messages c'). receivable (snd p))"
proof -
  let ?c = "c \<lparr> rec_buffered_messages := oi_push_back mid msg (rec_buffered_messages c) \<rparr>"
  have "rec_ok False w0 ?c" using assms(1) by (simp add: rec_ok_def)
  moreover have "\<forall>p\<in>set (rec_buffered_messages ?c). receivable (snd p)" using assms(2,3) by auto
  ultimately obtain c' where "rec_process_messages ?c = Inr c'" "set (rec_buffered_messages c') \<subseteq> set (rec_buffered_messages ?c)"
    unfolding rec_process_messages_def using rec_process_loop_total by blast
  with assms show ?thesis by (fastforce simp: rec_receive_message_def split: option.split)
qed

text \<open>Fuel beyond the length of the buffer does not change the result.\<close>

lemma rec_process_loop_mono:
  "rec_process_loop n c = Inr c' \<Longrightarrow> n \<le> n' \<Longrightarrow> rec_process_loop n' c = Inr c'"
proof (induction n arbitrary: c n')
  case 0
  then show ?case by simp
next
  case (Suc n)
  then obtain k where k: "n' = Suc k" "n \<le> k" by (cases n') auto
  with Suc show ?case by (auto simp: rbind_eq_Inr split: option.splits)
qed

end
