(* ===== verification/Remote_Engine.thy ===== *)
theory Remote_Engine
  imports Remote_Entity_Channel
begin

text \<open>
  \<^verbatim>\<open>shared/src/world/sync/remote_engine.rs\<close> and \<^verbatim>\<open>config.rs\<close>: the engine that routes the messages of
  all remote entities to their channels and collects the events of the world. Its properties are
  those of the replication receiver as a whole: entities do not influence each other, and the
  events of each entity can be applied to the world one after the other.
\<close>

section \<open>The engine\<close>

record engine_config =
  max_in_flight :: u16
  flush_threshold :: u16

definition default_engine_config :: engine_config where
  "default_engine_config = \<lparr> max_in_flight = 32767, flush_threshold = ucast (65536 - 32767 :: u32) \<rparr>"

record 'e remote_engine =
  re_host_type :: host_type
  re_config :: engine_config
  re_entity_channels :: "'e \<rightharpoonup> remote_entity_channel"
  re_incoming_events :: "'e entity_message list"
  re_outgoing_commands :: "entity_command list"

definition re_new :: "host_type \<Rightarrow> 'e remote_engine" where
  "re_new host_type = \<lparr> re_host_type = host_type, re_config = default_engine_config,
     re_entity_channels = Map.empty, re_incoming_events = [], re_outgoing_commands = [] \<rparr>"

definition re_take_incoming_events :: "'e remote_engine \<Rightarrow> 'e entity_message list \<times> 'e remote_engine" where
  "re_take_incoming_events g = (re_incoming_events g, g \<lparr> re_incoming_events := [] \<rparr>)"

definition re_take_outgoing_commands :: "'e remote_engine \<Rightarrow> entity_command list \<times> 'e remote_engine" where
  "re_take_outgoing_commands g = (re_outgoing_commands g, g \<lparr> re_outgoing_commands := [] \<rparr>)"

definition re_insert_entity_channel ::
  "'e \<Rightarrow> remote_entity_channel \<Rightarrow> 'e remote_engine \<Rightarrow> 'e remote_engine res" where
  "re_insert_entity_channel entity channel g =
     (if re_entity_channels g entity \<noteq> None
      then Inl (Panic ''Cannot insert entity channel that already exists for entity'')
      else Inr (g \<lparr> re_entity_channels := (re_entity_channels g)(entity \<mapsto> channel) \<rparr>))"

definition re_remove_entity_channel ::
  "'e \<Rightarrow> 'e remote_engine \<Rightarrow> (remote_entity_channel \<times> 'e remote_engine) res" where
  "re_remove_entity_channel entity g =
     (case re_entity_channels g entity of
        None \<Rightarrow> Inl (Panic ''Cannot remove entity channel that doesn't exist'')
      | Some c \<Rightarrow> Inr (c, g \<lparr> re_entity_channels := (re_entity_channels g)(entity := None) \<rparr>))"

definition re_has_entity :: "'e \<Rightarrow> 'e remote_engine \<Rightarrow> bool" where
  "re_has_entity entity g = (re_entity_channels g entity \<noteq> None)"

definition re_receive_message ::
  "message_index \<Rightarrow> 'e entity_message \<Rightarrow> 'e remote_engine \<Rightarrow> 'e remote_engine res" where
  "re_receive_message mid msg g =
     (if msg_get_type msg = EMT_Noop then Inr g
      else case msg_entity msg of
        None \<Rightarrow> Inl (Panic ''unwrap on None'')
      | Some entity \<Rightarrow>
          rbind (if re_entity_channels g entity = None
                 then re_insert_entity_channel entity (rec_new (re_host_type g)) g else Inr g) (\<lambda>g.
          case re_entity_channels g entity of
            None \<Rightarrow> Inl (Panic ''unwrap on None'')
          | Some channel \<Rightarrow>
              rbind (strip_entity msg) (\<lambda>stripped.
              rbind (rec_receive_message mid stripped channel) (\<lambda>channel.
              rbind (rec_drain_incoming_messages_into entity (re_incoming_events g) channel) (\<lambda>(evs, channel).
                Inr (g \<lparr> re_entity_channels := (re_entity_channels g)(entity \<mapsto> channel),
                         re_incoming_events := evs \<rparr>))))))"

definition re_send_auth_command :: "'e \<Rightarrow> entity_command \<Rightarrow> 'e remote_engine \<Rightarrow> 'e remote_engine res" where
  "re_send_auth_command entity command g =
     (case re_entity_channels g entity of
        None \<Rightarrow> Inl (Panic ''Cannot send a command to an entity that does not exist in the engine'')
      | Some channel \<Rightarrow>
          rbind (rec_send_command command channel) (\<lambda>channel.
            let (out, channel) = rec_drain_outgoing_messages_into (re_outgoing_commands g) channel in
            Inr (g \<lparr> re_entity_channels := (re_entity_channels g)(entity \<mapsto> channel),
                     re_outgoing_commands := out \<rparr>)))"

definition re_receive_set_auth_status :: "'e \<Rightarrow> entity_auth_status \<Rightarrow> 'e remote_engine \<Rightarrow> 'e remote_engine" where
  "re_receive_set_auth_status entity auth_status g =
     (case re_entity_channels g entity of
        None \<Rightarrow> g
      | Some channel \<Rightarrow> g \<lparr> re_entity_channels :=
          (re_entity_channels g)(entity \<mapsto> rec_update_auth_status auth_status channel) \<rparr>)"

definition re_get_entity_auth_status :: "'e \<Rightarrow> 'e remote_engine \<Rightarrow> entity_auth_status option" where
  "re_get_entity_auth_status entity g = Option.bind (re_entity_channels g entity) rec_auth_status"

definition re_send_entity_command :: "'e \<Rightarrow> entity_command \<Rightarrow> 'e remote_engine \<Rightarrow> 'e remote_engine res" where
  "re_send_entity_command entity command g =
     (case re_entity_channels g entity of
        None \<Rightarrow> Inl (Panic ''Cannot send a command to an entity that does not exist in the engine'')
      | Some channel \<Rightarrow>
          (case command of
             C_Despawn _ \<Rightarrow> Inr (g \<lparr> re_entity_channels := (re_entity_channels g)(entity := None) \<rparr>)
           | C_InsertComponent _ kind \<Rightarrow> Inr (g \<lparr> re_entity_channels :=
               (re_entity_channels g)(entity \<mapsto> rec_insert_component kind channel) \<rparr>)
           | C_RemoveComponent _ kind \<Rightarrow> Inr (g \<lparr> re_entity_channels :=
               (re_entity_channels g)(entity \<mapsto> rec_remove_component kind channel) \<rparr>)
           | _ \<Rightarrow> Inr g))"

section \<open>Draining a channel\<close>

lemma world_step_not_noop: "world_step strict w m = Some w' \<Longrightarrow> m \<noteq> Noop"
  by (cases m; cases w) auto

lemma with_entity_all:
  "\<forall>m\<in>set ms. m \<noteq> Noop \<Longrightarrow>
   \<exists>es. rfold (\<lambda>rmsg received. rbind (with_entity rmsg e) (\<lambda>m. Inr (received @ [m]))) ms acc =
      Inr (acc @ es) \<and> map strip_entity es = map Inr ms \<and> (\<forall>m\<in>set es. msg_entity m = Some e)"
proof (induction ms arbitrary: acc)
  case Nil
  then show ?case by simp
next
  case (Cons m ms)
  obtain m' where m': "with_entity m e = Inr m'" "msg_entity m' = Some e"
    using with_entity_total [of m e] Cons.prems by auto
  have "strip_entity m' = Inr m" using m' Cons.prems by (cases m) auto
  moreover obtain es where
    "rfold (\<lambda>rmsg received. rbind (with_entity rmsg e) (\<lambda>m. Inr (received @ [m]))) ms (acc @ [m']) =
      Inr (acc @ m' # es)" "map strip_entity es = map Inr ms" "\<forall>m\<in>set es. msg_entity m = Some e"
    using Cons.IH [of "acc @ [m']"] Cons.prems by auto
  ultimately show ?case using m' by (intro exI [of _ "m' # es"]) simp
qed

lemma world_run_not_noop: "world_run strict w ms = Some w' \<Longrightarrow> \<forall>m\<in>set ms. m \<noteq> Noop"
  by (induction ms arbitrary: w) (auto split: option.splits dest: world_step_not_noop)

lemma rec_drain_incoming:
  assumes "rec_ok strict w0 c"
  shows "\<exists>es. rec_drain_incoming_messages_into e out c = Inr (out @ es, c \<lparr> rec_incoming_messages := [] \<rparr>) \<and>
    map strip_entity es = map Inr (rec_incoming_messages c) \<and> (\<forall>m\<in>set es. msg_entity m = Some e)"
proof -
  have "\<forall>m\<in>set (rec_incoming_messages c). m \<noteq> Noop"
    using assms by (auto simp: rec_ok_def world_ok_def dest: world_run_not_noop)
  from with_entity_all [OF this, of e "[]"] show ?thesis
    by (auto simp: rec_drain_incoming_messages_into_def)
qed

section \<open>The events of one entity\<close>

definition events_of :: "'e \<Rightarrow> 'e entity_message list \<Rightarrow> 'e entity_message list" where
  "events_of e evs = filter (\<lambda>m. msg_entity m = Some e) evs"

definition stripped :: "'e entity_message \<Rightarrow> unit entity_message" where
  "stripped m = (case strip_entity m of Inr u \<Rightarrow> u | Inl _ \<Rightarrow> Noop)"

definition engine_ok :: "bool \<Rightarrow> 'e remote_engine \<Rightarrow> bool" where
  "engine_ok strict g = (\<forall>e. case re_entity_channels g e of
       None \<Rightarrow> events_of e (re_incoming_events g) = []
     | Some c \<Rightarrow> rec_incoming_messages c = [] \<and>
         (\<exists>w. world_run strict (False, {}) (map stripped (events_of e (re_incoming_events g))) = Some w \<and>
            rec_ok strict w c))"

text \<open>The channel of an entity, a new one for an entity the engine has not seen.\<close>

definition channel_of :: "'e \<Rightarrow> 'e remote_engine \<Rightarrow> remote_entity_channel" where
  "channel_of e g = (case re_entity_channels g e of None \<Rightarrow> rec_new (re_host_type g) | Some c \<Rightarrow> c)"

lemma channel_of_update [simp]:
  "channel_of e (g \<lparr> re_entity_channels := (re_entity_channels g)(e' \<mapsto> c), re_incoming_events := evs \<rparr>) =
     (if e = e' then c else channel_of e g)"
  by (simp add: channel_of_def split: option.split)

lemma re_receive_message_cases:
  assumes "re_receive_message mid msg g = Inr g'"
  shows "(msg = Noop \<and> g' = g) \<or>
    (\<exists>e m c' evs c''. msg_entity msg = Some e \<and> strip_entity msg = Inr m \<and>
       rec_receive_message mid m (channel_of e g)
         = Inr c' \<and>
       rec_drain_incoming_messages_into e (re_incoming_events g) c' = Inr (evs, c'') \<and>
       g' = g \<lparr> re_entity_channels := (re_entity_channels g)(e \<mapsto> c''), re_incoming_events := evs \<rparr>)"
proof (cases "msg = Noop")
  case True
  with assms show ?thesis by (simp add: re_receive_message_def)
next
  case False
  then obtain e where e: "msg_entity msg = Some e" "msg_get_type msg \<noteq> EMT_Noop" by (cases msg) auto
  show ?thesis
  proof (cases "re_entity_channels g e")
    case None
    with assms e show ?thesis
      by (auto simp: re_receive_message_def re_insert_entity_channel_def rbind_eq_Inr channel_of_def)
  next
    case (Some c)
    with assms e show ?thesis
      by (auto simp: re_receive_message_def rbind_eq_Inr channel_of_def)
  qed
qed

lemma stripped_map: "map strip_entity es = map Inr ms \<Longrightarrow> map stripped es = ms"
proof (induction es arbitrary: ms)
  case Nil
  then show ?case by simp
next
  case (Cons m es)
  then show ?case by (cases ms) (auto simp: stripped_def)
qed

lemma events_of_append [simp]: "events_of e (xs @ ys) = events_of e xs @ events_of e ys"
  by (simp add: events_of_def)

lemma events_of_same: "\<forall>m\<in>set es. msg_entity m = Some e \<Longrightarrow>
    events_of e' es = (if e' = e then es else [])"
  by (auto simp: events_of_def filter_id_conv filter_empty_conv)

lemma engine_ok_entry:
  assumes "engine_ok strict g"
  shows "\<exists>w. world_run strict (False, {}) (map stripped (events_of e (re_incoming_events g))) = Some w \<and>
    rec_ok strict w (channel_of e g)"
proof (cases "re_entity_channels g e")
  case None
  with spec [OF assms [unfolded engine_ok_def], of e] have "events_of e (re_incoming_events g) = []"
    by simp
  with None show ?thesis by (simp add: rec_ok_new channel_of_def)
next
  case (Some c)
  with spec [OF assms [unfolded engine_ok_def], of e] show ?thesis by (simp add: channel_of_def)
qed

lemma re_receive_message_ok:
  assumes ok: "engine_ok strict g" and rcv: "re_receive_message mid msg g = Inr g'"
    and swc: "strict \<Longrightarrow> msg_get_type msg \<noteq> EMT_SpawnWithComponents"
  shows "engine_ok strict g'"
  using re_receive_message_cases [OF rcv]
proof (elim disjE exE conjE)
  fix e m c' evs c''
  let ?c = "channel_of e g"
  assume e: "msg_entity msg = Some e" and m: "strip_entity msg = Inr m"
    and c': "rec_receive_message mid m ?c = Inr c'"
    and d: "rec_drain_incoming_messages_into e (re_incoming_events g) c' = Inr (evs, c'')"
    and g': "g' = g \<lparr> re_entity_channels := (re_entity_channels g)(e \<mapsto> c''), re_incoming_events := evs \<rparr>"
  obtain w where w: "world_run strict (False, {}) (map stripped (events_of e (re_incoming_events g))) = Some w"
      "rec_ok strict w ?c"
    using engine_ok_entry [OF ok] by blast
  have ok': "rec_ok strict w c'"
    using rec_receive_message_ok [OF w(2) c'] swc strip_entity_keeps [OF m] by simp
  obtain es where es: "evs = re_incoming_events g @ es" "c'' = c' \<lparr> rec_incoming_messages := [] \<rparr>"
      "map strip_entity es = map Inr (rec_incoming_messages c')" "\<forall>m\<in>set es. msg_entity m = Some e"
    using rec_drain_incoming [OF ok', of e "re_incoming_events g"] d by auto
  obtain ks where ks: "world_run strict w (rec_incoming_messages c') = Some (rec_state c' = Spawned, ks)"
      "strict \<longrightarrow> ks = rec_inserted (rec_component_channels c')"
    using ok' by (auto simp: rec_ok_def world_ok_def)
  have "rec_ok strict (rec_state c' = Spawned, ks) c''"
    using ok' ks(2) by (auto simp: es(2) rec_ok_def world_ok_def)
  moreover have "world_run strict (False, {}) (map stripped (events_of e evs)) =
      Some (rec_state c' = Spawned, ks)"
    using w(1) ks(1) stripped_map [OF es(3)] events_of_same [OF es(4), of e]
    by (simp add: es(1) world_run_append)
  moreover have "events_of e' evs = events_of e' (re_incoming_events g)" if "e' \<noteq> e" for e'
    using events_of_same [OF es(4), of e'] that by (simp add: es(1))
  ultimately show ?thesis
    unfolding engine_ok_def
  proof (intro allI)
    fix e'
    assume *: "rec_ok strict (rec_state c' = Spawned, ks) c''"
      "world_run strict (False, {}) (map stripped (events_of e evs)) = Some (rec_state c' = Spawned, ks)"
      "\<And>e'. e' \<noteq> e \<Longrightarrow> events_of e' evs = events_of e' (re_incoming_events g)"
    show "case re_entity_channels g' e' of None \<Rightarrow> events_of e' (re_incoming_events g') = []
      | Some c \<Rightarrow> rec_incoming_messages c = [] \<and>
         (\<exists>w. world_run strict (False, {}) (map stripped (events_of e' (re_incoming_events g'))) = Some w \<and>
            rec_ok strict w c)"
      using * spec [OF ok [unfolded engine_ok_def], of e'] es(2) by (cases "e' = e") (auto simp: g' cong: option.case_cong)
  qed
qed (use ok in simp)

lemma engine_ok_new: "engine_ok strict (re_new h)"
  by (simp add: engine_ok_def re_new_def events_of_def)

lemma engine_run_ok:
  assumes "rfold (\<lambda>(mid, msg). re_receive_message mid msg) ms (re_new h) = Inr g"
    "strict \<Longrightarrow> \<forall>p\<in>set ms. msg_get_type (snd p) \<noteq> EMT_SpawnWithComponents"
  shows "engine_ok strict g"
proof (rule rfold_inv [where P = "engine_ok strict", OF _ engine_ok_new assms(1)])
  fix x s s'
  assume "x \<in> set ms" "engine_ok strict s" "(case x of (mid, msg) \<Rightarrow> re_receive_message mid msg) s = Inr s'"
  then show "engine_ok strict s'"
    using re_receive_message_ok [of strict s "fst x" "snd x" s'] assms(2) by (simp add: split_beta)
qed

section \<open>Entities are independent\<close>

text \<open>The channel of one entity alone: receive a message of the entity and drain its events.\<close>

definition entity_receive ::
  "'e \<Rightarrow> message_index \<times> 'e entity_message \<Rightarrow> remote_entity_channel \<times> 'e entity_message list \<Rightarrow>
   (remote_entity_channel \<times> 'e entity_message list) res" where
  "entity_receive e p s =
     rbind (strip_entity (snd p)) (\<lambda>m.
     rbind (rec_receive_message (fst p) m (fst s)) (\<lambda>c.
     rbind (rec_drain_incoming_messages_into e (snd s) c) (\<lambda>(evs, c'). Inr (c', evs))))"

lemma with_entity_msg_entity: "with_entity m e = Inr m' \<Longrightarrow> msg_entity m' = Some e"
  by (cases m) auto

lemma drain_only_own:
  assumes "rec_drain_incoming_messages_into e out c = Inr (evs, c')"
  shows "\<exists>es. evs = out @ es \<and> (\<forall>m\<in>set es. msg_entity m = Some e) \<and>
    rec_drain_incoming_messages_into e out' c = Inr (out' @ es, c')"
proof -
  have own: "\<exists>es. r = acc @ es \<and> (\<forall>m\<in>set es. msg_entity m = Some e)"
    if "rfold (\<lambda>rmsg received. rbind (with_entity rmsg e) (\<lambda>m. Inr (received @ [m]))) ms acc = Inr r"
    for ms acc r
    using that
  proof (induction ms arbitrary: acc)
    case Nil
    then show ?case by simp
  next
    case (Cons m ms)
    from Cons.prems obtain m' where m': "with_entity m e = Inr m'"
        "rfold (\<lambda>rmsg received. rbind (with_entity rmsg e) (\<lambda>m. Inr (received @ [m]))) ms (acc @ [m']) = Inr r"
      by (auto simp: rbind_eq_Inr)
    from Cons.IH [OF m'(2)] with_entity_msg_entity [OF m'(1)] show ?case by auto
  qed
  obtain r where r: "rfold (\<lambda>rmsg received. rbind (with_entity rmsg e) (\<lambda>m. Inr (received @ [m])))
      (rec_incoming_messages c) [] = Inr r" "evs = out @ r" "c' = c \<lparr> rec_incoming_messages := [] \<rparr>"
    using assms by (auto simp: rec_drain_incoming_messages_into_def rbind_eq_Inr)
  from own [OF r(1)] r show ?thesis by (simp add: rec_drain_incoming_messages_into_def)
qed

lemma engine_isolates_aux:
  assumes "rfold (\<lambda>(mid, msg). re_receive_message mid msg) ms g = Inr g'"
  shows "rfold (entity_receive e) (filter (\<lambda>p. msg_entity (snd p) = Some e) ms)
      (channel_of e g, events_of e (re_incoming_events g)) =
    Inr (channel_of e g', events_of e (re_incoming_events g'))"
  using assms
proof (induction ms arbitrary: g)
  case Nil
  then show ?case by simp
next
  case (Cons p ms)
  obtain mid msg where p: "p = (mid, msg)" by (cases p)
  obtain g1 where g1: "re_receive_message mid msg g = Inr g1"
      "rfold (\<lambda>(mid, msg). re_receive_message mid msg) ms g1 = Inr g'"
    using Cons.prems by (auto simp: p rbind_eq_Inr)
  note IH = Cons.IH [OF g1(2)]
  from re_receive_message_cases [OF g1(1)] show ?case
  proof (elim disjE exE conjE)
    assume "msg = Noop" "g1 = g"
    with IH show ?thesis by (simp add: p)
  next
    fix e' m c' evs c''
    let ?c = "channel_of e' g"
    assume e': "msg_entity msg = Some e'" and m: "strip_entity msg = Inr m"
      and c': "rec_receive_message mid m ?c = Inr c'"
      and d: "rec_drain_incoming_messages_into e' (re_incoming_events g) c' = Inr (evs, c'')"
      and g1': "g1 = g \<lparr> re_entity_channels := (re_entity_channels g)(e' \<mapsto> c''), re_incoming_events := evs \<rparr>"
    obtain es where es: "evs = re_incoming_events g @ es" "\<forall>m\<in>set es. msg_entity m = Some e'"
        "rec_drain_incoming_messages_into e' (events_of e' (re_incoming_events g)) c' =
          Inr (events_of e' (re_incoming_events g) @ es, c'')"
      using drain_only_own [OF d] by blast
    show ?thesis
    proof (cases "e' = e")
      case True
      have "entity_receive e p (?c, events_of e (re_incoming_events g)) = Inr (c'', events_of e evs)"
        using m c' es events_of_same [OF es(2), of e] True by (simp add: entity_receive_def p)
      with IH True e' show ?thesis by (simp add: p g1')
    next
      case False
      then have "events_of e evs = events_of e (re_incoming_events g)"
        using events_of_same [OF es(2), of e] by (simp add: es(1))
      with IH False e' show ?thesis by (simp add: p g1')
    qed
  qed
qed

lemma engine_host_type:
  "rfold (\<lambda>(mid, msg). re_receive_message mid msg) ms g = Inr g' \<Longrightarrow> re_host_type g' = re_host_type g"
proof (induction ms arbitrary: g)
  case Nil
  then show ?case by simp
next
  case (Cons p ms)
  obtain g1 where g1: "re_receive_message (fst p) (snd p) g = Inr g1"
      "rfold (\<lambda>(mid, msg). re_receive_message mid msg) ms g1 = Inr g'"
    using Cons.prems by (cases p) (auto simp: rbind_eq_Inr)
  then show ?case using Cons.IH [OF g1(2)] re_receive_message_cases [OF g1(1)] by auto
qed

section \<open>Totality\<close>

lemma rec_turn_epoch:
  assumes "rec_turn c = Inr (Some c')"
  shows "rec_last_epoch_id c' = rec_last_epoch_id c \<or>
    rec_last_epoch_id c' \<in> Some ` fst ` set (rec_buffered_messages c)"
proof (cases "rec_buffered_messages c")
  case Nil
  with assms show ?thesis by (simp add: rec_turn_def)
next
  case (Cons p q)
  have fold_epoch: "rec_last_epoch_id (fold (rec_coalesce mid) ks d) = rec_last_epoch_id d" for mid ks d
    by (induction ks arbitrary: d) (simp_all add: rec_coalesce_def)
  have flush: "rec_flush_auth mid d = Inr d' \<Longrightarrow> rec_last_epoch_id d' = rec_last_epoch_id d"
    "rec_flush_components mid d = Inr d' \<Longrightarrow> rec_last_epoch_id d' = rec_last_epoch_id d" for mid d d'
    by (auto simp: rec_flush_auth_def rec_flush_components_def rbind_eq_Inr Let_def split_beta)
  obtain mid msg where p: "p = (mid, msg)" by (cases p)
  have "rec_last_epoch_id c' = rec_last_epoch_id c \<or> rec_last_epoch_id c' = Some mid"
    using assms Cons
    by (cases msg) (auto simp: rec_turn_def p rbind_eq_Inr rec_spawn_arm_def rec_spawn_with_components_arm_def
        rec_despawn_arm_def rec_component_arm_def rec_auth_arm_def rec_pop_front_into_outgoing_def
        naia_defs Let_def split_beta fold_epoch dest!: flush split: if_splits option.splits)
  with Cons p show ?thesis by auto
qed

lemma rec_process_loop_epoch:
  "rec_process_loop n c = Inr c' \<Longrightarrow> rec_ok False w c \<Longrightarrow>
   \<forall>p\<in>set (rec_buffered_messages c). receivable (snd p) \<Longrightarrow>
   rec_last_epoch_id c' = rec_last_epoch_id c \<or> rec_last_epoch_id c' \<in> Some ` fst ` set (rec_buffered_messages c)"
proof (induction n arbitrary: c)
  case 0
  then show ?case by simp
next
  case (Suc n)
  from rec_turn_total [OF Suc.prems(2,3)] show ?case
  proof (elim disjE exE conjE)
    fix c1 assume c1: "rec_turn c = Inr (Some c1)"
      "set (rec_buffered_messages c1) \<subseteq> set (rec_buffered_messages c)"
    have "rec_last_epoch_id c' = rec_last_epoch_id c1 \<or>
        rec_last_epoch_id c' \<in> Some ` fst ` set (rec_buffered_messages c1)"
      using Suc.prems c1 rec_turn_ok [OF Suc.prems(2) c1(1)] by (intro Suc.IH) (auto split: option.splits)
    moreover have "Some ` fst ` set (rec_buffered_messages c1) \<subseteq> Some ` fst ` set (rec_buffered_messages c)"
      using c1(2) by (intro image_mono)
    ultimately show ?thesis using rec_turn_epoch [OF c1(1)] by (elim disjE) (simp_all, blast+)
  qed (use Suc.prems in simp)
qed

text \<open>
  What a channel whose engine has received messages with ids \<open>I\<close> looks like: its buffer holds
  receivable messages with such ids, and its epoch is one of them.
\<close>

definition seen :: "message_index set \<Rightarrow> remote_entity_channel \<Rightarrow> bool" where
  "seen I c = ((\<forall>p\<in>set (rec_buffered_messages c). receivable (snd p) \<and> fst p \<in> I) \<and>
     rec_last_epoch_id c \<in> insert None (Some ` I))"

lemma seen_mono: "seen I c \<Longrightarrow> I \<subseteq> J \<Longrightarrow> seen J c"
  by (auto simp: seen_def)

lemma rec_receive_message_seen:
  assumes ok: "rec_ok False w c" and s: "seen I c" and m: "receivable m" "mid \<notin> I"
  shows "\<exists>c'. rec_receive_message mid m c = Inr c' \<and> seen (insert mid I) c'"
proof (cases "case rec_last_epoch_id c of None \<Rightarrow> False | Some e \<Rightarrow> sequence_less_than mid e")
  case True
  then show ?thesis using s m seen_mono [OF s, of "insert mid I"]
    by (auto simp: rec_receive_message_def seen_def split: option.splits)
next
  case False
  let ?c = "c \<lparr> rec_buffered_messages := oi_push_back mid m (rec_buffered_messages c) \<rparr>"
  have ok': "rec_ok False w ?c" using ok by (simp add: rec_ok_def)
  have buf: "\<forall>p\<in>set (rec_buffered_messages ?c). receivable (snd p) \<and> fst p \<in> insert mid I"
    using s m by (auto simp: seen_def)
  obtain c' where c': "rec_process_messages ?c = Inr c'"
      "set (rec_buffered_messages c') \<subseteq> set (rec_buffered_messages ?c)"
    unfolding rec_process_messages_def using rec_process_loop_total [OF ok'] buf by blast
  have "rec_last_epoch_id c' = rec_last_epoch_id ?c \<or>
      rec_last_epoch_id c' \<in> Some ` fst ` set (rec_buffered_messages ?c)"
    using rec_process_loop_epoch [OF c'(1) [unfolded rec_process_messages_def] ok'] buf by auto
  then have "rec_last_epoch_id c' \<in> insert None (Some ` insert mid I)"
    using s buf by (auto simp: seen_def)
  then have "seen (insert mid I) c'"
    using c'(2) buf unfolding seen_def by blast
  moreover have "rec_receive_message mid m c = Inr c'"
    using False c'(1) s m(2) by (auto simp: rec_receive_message_def seen_def)
  ultimately show ?thesis by blast
qed

lemma rec_new_seen: "seen I (rec_new h)"
  by (simp add: seen_def rec_new_def oi_new_def)

lemma re_receive_message_seen:
  assumes ok: "engine_ok False g" and s: "\<forall>e. seen I (channel_of e g)"
    and m: "msg = Noop \<or> receivable (stripped msg)" "mid \<notin> I"
  shows "\<exists>g'. re_receive_message mid msg g = Inr g' \<and> (\<forall>e. seen (insert mid I) (channel_of e g'))"
proof (cases "msg = Noop")
  case True
  then show ?thesis using s seen_mono [of I _ "insert mid I"] by (auto simp: re_receive_message_def)
next
  case False
  then obtain e where e: "msg_entity msg = Some e" "msg_get_type msg \<noteq> EMT_Noop" by (cases msg) auto
  obtain u where u: "strip_entity msg = Inr u" "receivable u"
    using strip_entity_total [OF False] m(1) False by (auto simp: stripped_def)
  obtain w where w: "rec_ok False w (channel_of e g)" using engine_ok_entry [OF ok] by blast
  obtain c' where c': "rec_receive_message mid u (channel_of e g) = Inr c'" "seen (insert mid I) c'"
    using rec_receive_message_seen [OF w _ u(2) m(2)] s by blast
  obtain evs where d: "rec_drain_incoming_messages_into e (re_incoming_events g) c' =
      Inr (evs, c' \<lparr> rec_incoming_messages := [] \<rparr>)"
    using rec_drain_incoming [OF rec_receive_message_ok [OF w c'(1)], of e "re_incoming_events g"] by auto
  have "re_receive_message mid msg g = Inr (g \<lparr> re_entity_channels :=
      (re_entity_channels g)(e \<mapsto> c' \<lparr> rec_incoming_messages := [] \<rparr>), re_incoming_events := evs \<rparr>)"
    using e u c' d by (cases "re_entity_channels g e")
      (auto simp: re_receive_message_def re_insert_entity_channel_def channel_of_def)
  moreover have "seen (insert mid I) (c' \<lparr> rec_incoming_messages := [] \<rparr>)"
    using c'(2) by (simp add: seen_def)
  ultimately show ?thesis using s seen_mono [of I _ "insert mid I"] by auto
qed

lemma engine_run_total:
  "engine_ok False g \<Longrightarrow> \<forall>e. seen I (channel_of e g) \<Longrightarrow>
   \<forall>p\<in>set ms. snd p = Noop \<or> receivable (stripped (snd p)) \<Longrightarrow> distinct (map fst ms) \<Longrightarrow>
   I \<inter> fst ` set ms = {} \<Longrightarrow>
   \<exists>g'. rfold (\<lambda>(mid, msg). re_receive_message mid msg) ms g = Inr g'"
proof (induction ms arbitrary: g I)
  case Nil
  then show ?case by simp
next
  case (Cons p ms)
  obtain g1 where g1: "re_receive_message (fst p) (snd p) g = Inr g1"
      "\<forall>e. seen (insert (fst p) I) (channel_of e g1)"
    using re_receive_message_seen [OF Cons.prems(1,2), of "snd p" "fst p"] Cons.prems(3,5) by auto
  have "engine_ok False g1" using re_receive_message_ok [OF Cons.prems(1) g1(1)] by simp
  from Cons.IH [OF this g1(2)] Cons.prems(3-) g1(1) show ?case by (auto simp: split_beta)
qed

text \<open>Simplification rules that evaluate an engine on concrete messages.\<close>

lemmas engine_eval = re_receive_message_def re_new_def re_insert_entity_channel_def rec_receive_message_def
  rec_new_def oi_new_def oi_push_back_def rec_process_messages_def rec_turn_def rec_component_arm_def
  entry_channel_def rcc_accept_message_def rcc_new_def rcc_process_messages_def rcc_drain_messages_into_def
  rec_drain_incoming_messages_into_def rec_spawn_arm_def rec_spawn_with_components_arm_def
  rec_pop_front_into_outgoing_def naia_defs
  rec_flush_auth_def rec_flush_components_def flush_component_def ac_new_def acr_new_def acs_new_def
  ac_receiver_process_messages_def ac_receiver_buffer_pop_front_until_and_including_def
  acr_buffer_pop_front_until_and_including_def ac_receiver_drain_messages_into_def
  acr_drain_messages_into_def acr_process_messages_def acr_process_loop_Nil rec_despawn_arm_def
  rcc_buffer_pop_front_until_and_excluding_def sequence_less_than_def sequence_greater_than_def
  sequence_equal_or_less_than_def ac_reset_def toggle_type_def rec_coalesce_def rcc_set_inserted_def
  rcc_process_loop_literal

section \<open>Properties\<close>



text \<open>
  C10. The spawn barrier, coalesced spawns included: for every sequence of messages whatsoever,
  the events emitted for an entity begin with a spawn, spawn and despawn alternate, and component
  and authority events occur only between a spawn and the next despawn.
\<close>

theorem engine_spawn_barrier:
  assumes "rfold (\<lambda>(mid, msg). re_receive_message mid msg) ms (re_new h) = Inr eng"
  shows "world_run False (False, {}) (map stripped (filter (\<lambda>m. msg_entity m = Some e) (re_incoming_events eng))) \<noteq> None"
proof -
  have "engine_ok False eng" by (rule engine_run_ok [OF assms]) simp
  from engine_ok_entry [OF this, of e] show ?thesis by (auto simp: events_of_def)
qed

theorem engine_spawn_barrier_witness:
  "\<exists>eng. rfold (\<lambda>(mid, msg). re_receive_message mid msg) [(4, Despawn (1 :: nat))] (re_new Client) = Inr eng \<and>
    world_run False (False, {}) (map stripped (filter (\<lambda>m. msg_entity m = Some 1) (re_incoming_events eng))) \<noteq> None"
proof -
  obtain eng where "rfold (\<lambda>(mid, msg). re_receive_message mid msg) [(4, Despawn (1 :: nat))] (re_new Client) = Inr eng"
    by (simp add: engine_eval)
  with engine_spawn_barrier [OF this] show ?thesis by auto
qed

text \<open>
  C12. No head-of-line blocking: the channel of an entity and the events emitted for it are those of
  the entity's own messages processed alone, whatever messages of other entities come in between.
\<close>

theorem engine_isolates_entities:
  assumes "rfold (\<lambda>(mid, msg). re_receive_message mid msg) ms (re_new h) = Inr eng"
  shows "rfold (entity_receive e) (filter (\<lambda>p. msg_entity (snd p) = Some e) ms) (rec_new h, []) =
    Inr (case re_entity_channels eng e of None \<Rightarrow> rec_new h | Some c \<Rightarrow> c,
         filter (\<lambda>m. msg_entity m = Some e) (re_incoming_events eng))"
  using engine_isolates_aux [OF assms, of e] engine_host_type [OF assms]
  by (simp add: channel_of_def re_new_def events_of_def cong: option.case_cong)

theorem engine_isolates_entities_witness:
  "\<exists>eng. rfold (\<lambda>(mid, msg). re_receive_message mid msg) [(4, Despawn (1 :: nat)), (5, Despawn 2)] (re_new Client) = Inr eng \<and>
    rfold (entity_receive 1) [(4, Despawn 1)] (rec_new Client, []) =
      Inr (case re_entity_channels eng 1 of None \<Rightarrow> rec_new Client | Some c \<Rightarrow> c,
         filter (\<lambda>m. msg_entity m = Some 1) (re_incoming_events eng))"
proof -
  obtain eng where *: "rfold (\<lambda>(mid, msg). re_receive_message mid msg)
      [(4, Despawn (1 :: nat)), (5, Despawn 2)] (re_new Client) = Inr eng"
    by (simp add: engine_eval)
  show ?thesis using engine_isolates_entities [OF *, of 1] * by simp
qed

text \<open>
  C11. The engine never panics and its loops end: it accepts every sequence of messages with
  distinct ids whose types an entity channel is meant to receive (and ignores \<^verbatim>\<open>Noop\<close> messages, on
  which a channel alone would loop forever).
\<close>

theorem engine_receives_everything:
  assumes "distinct (map fst ms)"
    and "\<forall>p\<in>set ms. snd p = Noop \<or> receivable (stripped (snd p))"
  shows "\<exists>eng. rfold (\<lambda>(mid, msg). re_receive_message mid msg) ms (re_new h) = Inr eng"
  using engine_run_total [OF engine_ok_new, of "{}" h ms] assms rec_new_seen
  by (auto simp: channel_of_def re_new_def)

theorem engine_receives_everything_witness:
  "\<exists>eng. rfold (\<lambda>(mid, msg). re_receive_message mid msg)
      [(9, SpawnWithComponents (1 :: nat) [7, 8]), (8, RemoveComponent 1 7), (7, Noop), (6, Publish 0 2)]
      (re_new Client) = Inr eng"
  by (rule engine_receives_everything) (simp_all add: stripped_def)

section \<open>What the engine does not promise\<close>


text \<open>
  A removal that overtakes the coalesced spawn that inserts the component is never applied: the
  world keeps the component the sender has removed, and the removal stays in the buffer.
\<close>

theorem coalesced_spawn_loses_removal:
  "\<exists>eng c. rfold (\<lambda>(mid, msg). re_receive_message mid msg)
      [(2, RemoveComponent (1 :: nat) 7), (1, SpawnWithComponents 1 [7])] (re_new Client) = Inr eng \<and>
    re_entity_channels eng 1 = Some c \<and> rec_extract_inserted_component_kinds c = {7} \<and>
    re_incoming_events eng = [Spawn 1, InsertComponent 1 7] \<and>
    rcc_buffered_messages (entry_channel 7 c) = [(2, False)]"
  by (simp add: engine_eval rec_extract_inserted_component_kinds_def rcc_is_inserted_def, force)


text \<open>A \<^verbatim>\<open>Noop\<close> handed to an entity channel directly would make its loop run forever.\<close>

theorem noop_never_returns:
  "rec_process_loop n ((rec_new h) \<lparr> rec_buffered_messages := [(mid, Noop)] \<rparr>) = Inl Diverges"
  by (induction n) (simp_all add: rec_turn_def)

end
