(* ===== verification/Entity_Convergence.thy ===== *)
theory Entity_Convergence
  imports Remote_Engine
begin

text \<open>
  The receiver of one entity converges to its sender: whatever order the messages of one lifetime
  of the entity arrive in, the channel ends up with the components the sender has.
\<close>

section \<open>Toggles of one component in a run of the world\<close>

fun flags :: "component_kind \<Rightarrow> unit entity_message list \<Rightarrow> bool list" where
  "flags k [] = []"
| "flags k (m # ms) = (if msg_component_kind m = Some k then [\<not> (\<exists>e. m = RemoveComponent e k)] else []) @ flags k ms"

fun alternates_b :: "bool \<Rightarrow> bool list \<Rightarrow> bool \<Rightarrow> bool" where
  "alternates_b p [] q = (p = q)"
| "alternates_b p (b # bs) q = (b = (\<not> p) \<and> alternates_b (\<not> p) bs q)"

text \<open>The messages of one lifetime after its spawn: component toggles and authority messages.\<close>

fun within_lifetime :: "unit entity_message \<Rightarrow> bool" where
  "within_lifetime (InsertComponent _ _) = True"
| "within_lifetime (RemoveComponent _ _) = True"
| "within_lifetime m = is_auth_message m"

lemma world_run_flags:
  "\<forall>m\<in>set ms. within_lifetime m \<Longrightarrow> world_run True (True, A) ms = Some (a, S) \<Longrightarrow>
   a \<and> alternates_b (k \<in> A) (flags k ms) (k \<in> S)"
proof (induction ms arbitrary: A)
  case Nil
  then show ?case by simp
next
  case (Cons m ms)
  obtain w where w: "world_step True (True, A) m = Some w" "world_run True w ms = Some (a, S)"
    using Cons.prems(2) by (auto split: option.splits)
  show ?case
  proof (cases m)
    case (InsertComponent e k')
    with w have "k' \<notin> A" "world_run True (True, insert k' A) ms = Some (a, S)" by (auto split: if_splits)
    with Cons.IH [of "insert k' A"] Cons.prems(1) InsertComponent show ?thesis by (cases "k' = k") auto
  next
    case (RemoveComponent e k')
    with w have "k' \<in> A" "world_run True (True, A - {k'}) ms = Some (a, S)" by (auto split: if_splits)
    with Cons.IH [of "A - {k'}"] Cons.prems(1) RemoveComponent show ?thesis by (cases "k' = k") auto
  qed (use Cons w in auto)
qed

lemma alternates_b_even:
  "alternates_b p bs q \<Longrightarrow> (\<forall>r<length bs. bs ! r = (even r \<noteq> p)) \<and> q = (odd (length bs) \<noteq> p)"
proof (induction p bs q rule: alternates_b.induct)
  case (1 p q)
  then show ?case by simp
next
  case (2 p b bs q)
  then show ?case by (auto simp: nth_Cons split: nat.split)
qed

section \<open>Positions of the toggles\<close>

definition positions :: "(nat \<Rightarrow> unit entity_message) \<Rightarrow> nat \<Rightarrow> component_kind \<Rightarrow> nat list" where
  "positions f n k = filter (\<lambda>i. msg_component_kind (f i) = Some k) [1..<n]"

lemma flags_map:
  "flags k (map f xs) =
     map (\<lambda>i. \<not> (\<exists>e. f i = RemoveComponent e k)) (filter (\<lambda>i. msg_component_kind (f i) = Some k) xs)"
  by (induction xs) auto

lemma positions_sorted: "sorted_wrt (<) (positions f n k)"
  by (simp add: positions_def sorted_wrt_filter)

lemma positions_set: "set (positions f n k) = {i. 1 \<le> i \<and> i < n \<and> msg_component_kind (f i) = Some k}"
  by (auto simp: positions_def)

text \<open>The received ranks among the toggles of a component.\<close>

definition ranks :: "(nat \<Rightarrow> unit entity_message) \<Rightarrow> nat \<Rightarrow> component_kind \<Rightarrow> nat set \<Rightarrow> nat set" where
  "ranks f n k R = {r. r < length (positions f n k) \<and> positions f n k ! r \<in> R}"

lemma ranks_subset: "ranks f n k R \<subseteq> {..<length (positions f n k)}"
  by (auto simp: ranks_def)

lemma ranks_finite [simp]: "finite (ranks f n k R)"
  using finite_subset [OF ranks_subset] by blast

lemma ranks_insert_other:
  "msg_component_kind (f j) \<noteq> Some k \<or> j = 0 \<Longrightarrow> ranks f n k (insert j R) = ranks f n k R"
proof -
  assume "msg_component_kind (f j) \<noteq> Some k \<or> j = 0"
  then have "j \<notin> set (positions f n k)" by (auto simp: positions_set)
  then show ?thesis by (auto simp: ranks_def)
qed

lemma ranks_insert:
  assumes "positions f n k ! r = j" "r < length (positions f n k)"
  shows "ranks f n k (insert j R) = insert r (ranks f n k R)"
proof -
  have "distinct (positions f n k)" using positions_sorted strict_sorted_iff by blast
  with assms show ?thesis by (auto simp: ranks_def nth_eq_iff_index_eq)
qed

section \<open>Settled component channels\<close>

definition settled :: "remote_component_channel \<Rightarrow> bool" where
  "settled c = (case rcc_buffered_messages c of [] \<Rightarrow> True | p # _ \<Rightarrow> snd p = rcc_inserted c)"

lemma settled_process_loop: "settled (rcc_process_loop c)"
proof (induction "rcc_buffered_messages c" arbitrary: c)
  case Nil
  then show ?case by (simp add: settled_def)
next
  case (Cons p rest)
  obtain mid ins where p: "p = (mid, ins)" by (cases p)
  let ?c = "c \<lparr> rcc_inserted := ins, rcc_last_epoch_id := Some mid,
             rcc_buffered_messages := rest,
             rcc_incoming_messages := rcc_incoming_messages c @ [toggle_type ins] \<rparr>"
  have loop: "rcc_process_loop c = (if ins = rcc_inserted c then c else rcc_process_loop ?c)"
    using Cons.hyps(2) by (intro rcc_process_loop_Cons) (simp add: p)
  show ?case
  proof (cases "ins = rcc_inserted c")
    case True
    then show ?thesis by (simp add: loop settled_def p flip: Cons.hyps(2))
  next
    case False
    then show ?thesis using Cons.hyps(1) [of ?c] by (simp add: loop)
  qed
qed

lemma settled_accept:
  "settled c \<Longrightarrow> rcc_accept_message Spawned mid msg c = Inr c' \<Longrightarrow> settled c'"
  by (auto simp: rcc_accept_message_alt rbind_eq_Inr rcc_process_messages_def settled_process_loop
      split: if_splits)

lemma settled_drained [simp]: "settled (c \<lparr> rcc_incoming_messages := x \<rparr>) = settled c"
  by (simp add: settled_def split: list.split)

lemma conc_drained [simp]: "(conc_channel b ks m L inc) \<lparr> rcc_incoming_messages := x \<rparr> = conc_channel b ks m L x"
  by (simp add: conc_channel_def)

lemma settled_conc_complete:
  assumes "settled (conc_channel b ks m [m..<n] inc)" "m \<le> n"
  shows "m = n"
proof (rule ccontr)
  assume "m \<noteq> n"
  with assms(2) have "[m..<n] = m # [Suc m..<n]" by (simp add: upt_conv_Cons)
  with assms(1) show False by (simp add: settled_def conc_channel_def)
qed

section \<open>What the arms do to the component channels\<close>

abbreviation drained :: "remote_component_channel \<Rightarrow> remote_component_channel" where
  "drained cc \<equiv> cc \<lparr> rcc_incoming_messages := [] \<rparr>"

abbreviation flushed :: "message_index \<Rightarrow> remote_component_channel \<Rightarrow> remote_component_channel" where
  "flushed mid cc \<equiv> drained (rcc_process_loop (rcc_buffer_pop_front_until_and_excluding mid cc))"

lemma flush_component_entry:
  assumes "flush_component Spawned mid (k, cc) (inc, acc) = Inr s'" "rcc_incoming_messages cc = []"
  shows "snd s' = acc @ [(k, flushed mid cc)]"
proof -
  let ?cc = "rcc_buffer_pop_front_until_and_excluding mid cc"
  have "alternates (rcc_inserted ?cc) (rcc_incoming_messages (rcc_process_messages Spawned ?cc))
      (rcc_inserted (rcc_process_messages Spawned ?cc))"
    using assms(2) by (intro rcc_process_messages_alternates)
      (simp add: rcc_buffer_pop_front_until_and_excluding_def)
  from rcc_drain_alternates [OF this] assms(1) show ?thesis
    by (auto simp: flush_component_def rcc_process_messages_def)
qed

lemma flush_components_entries:
  "rfold (flush_component Spawned mid) ccs (inc, acc) = Inr s' \<Longrightarrow>
   \<forall>p\<in>set ccs. rcc_incoming_messages (snd p) = [] \<Longrightarrow>
   snd s' = acc @ map (\<lambda>(k, cc). (k, flushed mid cc)) ccs"
proof (induction ccs arbitrary: inc acc)
  case Nil
  then show ?case by auto
next
  case (Cons p ccs)
  obtain k cc where p: "p = (k, cc)" by (cases p)
  obtain s1 where s1: "flush_component Spawned mid (k, cc) (inc, acc) = Inr s1"
      "rfold (flush_component Spawned mid) ccs s1 = Inr s'"
    using Cons.prems(1) by (auto simp: p rbind_eq_Inr)
  have "snd s1 = acc @ [(k, flushed mid cc)]"
    using flush_component_entry [OF s1(1)] Cons.prems(2) by (simp add: p)
  then show ?case
    using Cons.IH [of "fst s1" "snd s1"] s1(2) Cons.prems(2) by (cases s1) (simp add: p)
qed

lemma flushed_new: "flushed mid rcc_new = rcc_new"
  by (simp add: rcc_new_def rcc_buffer_pop_front_until_and_excluding_def naia_defs)

lemma rec_flush_components_entry:
  assumes "rec_ok strict w c" "rec_state c = Spawned" "rec_flush_components mid c = Inr c'"
  shows "entry_channel k c' = flushed mid (entry_channel k c) \<and> rec_state c' = Spawned \<and>
    rec_last_epoch_id c' = rec_last_epoch_id c \<and> rec_buffered_messages c' = rec_buffered_messages c"
proof -
  obtain s' where s': "rfold (flush_component Spawned mid) (rec_component_channels c)
      (rec_incoming_messages c, []) = Inr s'"
    and c': "c' = c \<lparr> rec_incoming_messages := fst s', rec_component_channels := snd s' \<rparr>"
    using assms(2,3) by (auto simp: rec_flush_components_def rbind_eq_Inr)
  have "snd s' = map (\<lambda>(k, cc). (k, flushed mid cc)) (rec_component_channels c)"
    using flush_components_entries [OF s'] assms(1) by (auto simp: rec_ok_def idle_component_def)
  then have "map_of (snd s') k = map_option (flushed mid) (map_of (rec_component_channels c) k)"
    by (simp add: map_of_map)
  then show ?thesis
    using assms(2) flushed_new [of mid] by (auto simp: c' entry_channel_def split: option.split)
qed

lemma rec_flush_auth_entry:
  assumes "rec_flush_auth mid c = Inr c'"
  shows "entry_channel k c' = entry_channel k c \<and> rec_state c' = rec_state c \<and>
    rec_last_epoch_id c' = rec_last_epoch_id c \<and> rec_buffered_messages c' = rec_buffered_messages c"
  using assms by (auto simp: rec_flush_auth_def rbind_eq_Inr Let_def split_beta entry_channel_def)

lemma rec_spawn_arm_entry:
  assumes ok: "rec_ok strict w c" and st: "rec_state c = Despawned"
    and q: "rec_buffered_messages c = (mid, Spawn ()) # q" and arm: "rec_spawn_arm mid c = Inr c'"
  shows "entry_channel k c' = flushed mid (entry_channel k c) \<and> rec_state c' = Spawned \<and>
    rec_last_epoch_id c' = Some mid \<and> rec_buffered_messages c' = q"
proof -
  let ?c = "c \<lparr> rec_state := Spawned, rec_last_epoch_id := Some mid,
    rec_buffered_messages := q, rec_incoming_messages := rec_incoming_messages c @ [Spawn ()] \<rparr>"
  from arm q obtain c1 where c1: "rec_flush_auth mid ?c = Inr c1" "rec_flush_components mid c1 = Inr c'"
    by (auto simp: rec_spawn_arm_def rec_pop_front_into_outgoing_def rbind_eq_Inr naia_defs)
  have ok1: "rec_ok strict w c1" "rec_state c1 = Spawned"
    using rec_flush_auth_ok [OF rec_ok_spawned [OF ok st q] _ c1(1)] by auto
  from rec_flush_components_entry [OF ok1 c1(2), of k] rec_flush_auth_entry [OF c1(1), of k]
  show ?thesis by (simp add: entry_channel_def)
qed

lemma rec_component_arm_entry:
  assumes ok: "rec_ok strict w c" and q: "rec_buffered_messages c = (mid, msg) # q"
    and kind: "msg_component_kind msg = Some k"
    and acc: "rcc_accept_message (rec_state c) mid msg (entry_channel k c) = Inr cc"
  shows "\<exists>c'. rec_component_arm c = Inr c' \<and>
    (\<forall>k'. entry_channel k' c' = (if k' = k then drained cc else entry_channel k' c)) \<and>
    rec_state c' = rec_state c \<and> rec_last_epoch_id c' = rec_last_epoch_id c \<and> rec_buffered_messages c' = q"
proof -
  have "alternates (rcc_inserted (entry_channel k c)) (rcc_incoming_messages cc) (rcc_inserted cc)"
    using rcc_accept_emits [OF acc idle_entry [OF ok]] by auto
  from rcc_drain_alternates [OF this] acc q kind show ?thesis
    by (simp add: rec_component_arm_def entry_channel_def update_conv')
qed

lemma rec_auth_arm_entry:
  assumes "rec_auth_arm c = Inr c'" "rec_buffered_messages c = p # q"
  shows "entry_channel k c' = entry_channel k c \<and> rec_state c' = rec_state c \<and>
    rec_last_epoch_id c' = rec_last_epoch_id c \<and> rec_buffered_messages c' = q"
  using assms by (cases p) (auto simp: rec_auth_arm_def rbind_eq_Inr Let_def split_beta entry_channel_def
      split: if_splits)

lemma rec_process_single:
  assumes "rec_turn c = Inr (Some c')" "length (rec_buffered_messages c) = 1" "rec_buffered_messages c' = []"
  shows "rec_process_messages c = Inr c'"
  using assms by (simp add: rec_process_messages_def) (simp add: rec_turn_def)

section \<open>Any order of arrival\<close>

text \<open>
  The state of the channel when the messages \<open>R\<close> of a lifetime have arrived: message 0 is the
  spawn; every component channel is the abstract one of its toggles, and is settled once the
  entity is spawned.
\<close>

definition arrived :: "u16 \<Rightarrow> nat list \<Rightarrow> (nat \<Rightarrow> unit entity_message) \<Rightarrow> nat set \<Rightarrow> remote_entity_channel \<Rightarrow> bool" where
  "arrived b ks f R c = (rec_buffered_messages c = [] \<and>
     rec_state c = (if 0 \<in> R then Spawned else Despawned) \<and>
     rec_last_epoch_id c = (if 0 \<in> R then Some (b + of_nat (ks ! 0)) else None) \<and>
     (\<exists>w. rec_ok False w c) \<and>
     (\<forall>k. \<exists>m. m \<le> length (positions f (length ks) k) \<and> (m = 0 \<or> m - 1 \<in> ranks f (length ks) k R) \<and>
        entry_channel k c = conc_channel b (map ((!) ks) (positions f (length ks) k)) m
          (pending m (ranks f (length ks) k R)) []) \<and>
     (0 \<in> R \<longrightarrow> (\<forall>k. settled (entry_channel k c))))"

definition lifetime_stream :: "nat list \<Rightarrow> (nat \<Rightarrow> unit entity_message) \<Rightarrow> bool" where
  "lifetime_stream ks f = (ks \<noteq> [] \<and> sorted_wrt (<) ks \<and> (\<forall>k\<in>set ks. k < 32768) \<and> f 0 = Spawn () \<and>
     (\<forall>i\<in>{1..<length ks}. within_lifetime (f i)) \<and>
     (\<forall>k. \<forall>r<length (positions f (length ks) k). toggle_flag (f (positions f (length ks) k ! r)) = Inr (even r)))"

lemma positions_ids:
  assumes "lifetime_stream ks f"
  shows "sorted_wrt (<) (map ((!) ks) (positions f (length ks) k))"
    "\<forall>x\<in>set (map ((!) ks) (positions f (length ks) k)). ks ! 0 < x \<and> x < 32768"
proof -
  have ks: "sorted_wrt (<) ks" "\<forall>k\<in>set ks. k < 32768" using assms by (auto simp: lifetime_stream_def)
  have "\<And>i j. i \<in> set (positions f (length ks) k) \<Longrightarrow> j \<in> set (positions f (length ks) k) \<Longrightarrow>
      i < j \<Longrightarrow> ks ! i < ks ! j"
    using ks(1) by (simp add: positions_set sorted_wrt_nth_less)
  then show "sorted_wrt (<) (map ((!) ks) (positions f (length ks) k))"
    unfolding sorted_wrt_map using positions_sorted by (rule sorted_wrt_mono_rel)
  show "\<forall>x\<in>set (map ((!) ks) (positions f (length ks) k)). ks ! 0 < x \<and> x < 32768"
    using ks by (auto simp: positions_set sorted_wrt_nth_less)
qed

lemma seq_newer_than_first:
  assumes "lifetime_stream ks f" "0 < j" "j < length ks"
  shows "\<not> sequence_less_than (b + of_nat (ks ! j)) (b + of_nat (ks ! 0))"
    "b + of_nat (ks ! j) \<noteq> b + of_nat (ks ! 0)"
proof -
  have ks: "sorted_wrt (<) ks" "ks ! j < 32768" "ks ! 0 < 32768" "ks ! 0 < ks ! j"
    using assms by (auto simp: lifetime_stream_def sorted_wrt_nth_less)
  then show "\<not> sequence_less_than (b + of_nat (ks ! j)) (b + of_nat (ks ! 0))"
    by (subst sequence_less_than_seq_at) auto
  show "b + of_nat (ks ! j) \<noteq> b + of_nat (ks ! 0)"
    using ks seq_at_eq_iff [of "ks ! j" "ks ! 0" b] by auto
qed

lemma receive_pushes:
  assumes l: "lifetime_stream ks f" and a: "arrived b ks f R c" and j: "j < length ks" "j \<notin> R"
    and t: "rec_turn (c \<lparr> rec_buffered_messages := [(b + of_nat (ks ! j), f j)] \<rparr>) = Inr (Some c')"
      "rec_buffered_messages c' = []"
  shows "rec_receive_message (b + of_nat (ks ! j)) (f j) c = Inr c'"
proof -
  have epoch: "rec_last_epoch_id c \<noteq> Some (b + of_nat (ks ! j)) \<and>
      \<not> (case rec_last_epoch_id c of None \<Rightarrow> False | Some e \<Rightarrow> sequence_less_than (b + of_nat (ks ! j)) e)"
  proof (cases "0 \<in> R")
    case True
    then have "0 < j" using j(2) by (cases j) auto
    moreover have "rec_last_epoch_id c = Some (b + of_nat (ks ! 0))"
      using a True by (simp add: arrived_def)
    ultimately show ?thesis using seq_newer_than_first [OF l _ j(1), of b] by auto
  next
    case False
    with a show ?thesis by (simp add: arrived_def)
  qed
  have "rec_process_messages (c \<lparr> rec_buffered_messages := [(b + of_nat (ks ! j), f j)] \<rparr>) = Inr c'"
    using t by (intro rec_process_single) auto
  with epoch a show ?thesis by (simp add: rec_receive_message_def arrived_def oi_push_back_def)
qed

lemma flushed_conc:
  assumes "\<forall>x\<in>set ids. k0 < x \<and> x < 32768" "\<forall>i\<in>set L. i < length ids"
  shows "rcc_buffer_pop_front_until_and_excluding (b + of_nat k0) (conc_channel b ids m L inc) =
    conc_channel b ids m L inc"
proof -
  have ids: "k0 < ids ! i \<and> ids ! i < 32768" if "i \<in> set L" for i
    using assms that by simp
  then have "near k0 (map (\<lambda>i. (ids ! i, even i)) L)" by (force simp: near_iff)
  from pop_front_until_wrapped [OF this, of b False]
  have "pop_front_until (b + of_nat k0) False (wrapped b (map (\<lambda>i. (ids ! i, even i)) L)) =
      wrapped b (dropWhile (\<lambda>p. fst p < k0) (map (\<lambda>i. (ids ! i, even i)) L))" by simp
  also have "dropWhile (\<lambda>p. fst p < k0) (map (\<lambda>i. (ids ! i, even i)) L) = map (\<lambda>i. (ids ! i, even i)) L"
    using ids by (cases L) force+
  finally show ?thesis
    by (simp add: rcc_buffer_pop_front_until_and_excluding_def conc_channel_def naia_defs)
qed

lemma arrive_spawn:
  assumes l: "lifetime_stream ks f" and a: "arrived b ks f R c" and R: "0 \<notin> R"
  shows "\<exists>c'. rec_receive_message (b + of_nat (ks ! 0)) (f 0) c = Inr c' \<and> arrived b ks f (insert 0 R) c'"
proof -
  let ?mid = "b + of_nat (ks ! 0)" and ?n = "length ks"
  let ?c = "c \<lparr> rec_buffered_messages := [(?mid, Spawn ())] \<rparr>"
  have f0: "f 0 = Spawn ()" and n: "0 < ?n" using l by (auto simp: lifetime_stream_def)
  obtain w where w: "rec_ok False w c" and st: "rec_state c = Despawned"
    using a R by (auto simp: arrived_def)
  have ok: "rec_ok False w ?c" using w by (simp add: rec_ok_def)
  obtain c' where c': "rec_spawn_arm ?mid ?c = Inr c'" "rec_buffered_messages c' = []"
    using rec_spawn_arm_total [OF ok, of ?mid "[]"] st by auto
  have turn: "rec_turn (c \<lparr> rec_buffered_messages := [(?mid, f 0)] \<rparr>) = Inr (Some c')"
    using c'(1) st f0 by (simp add: rec_turn_def)
  have rcv: "rec_receive_message ?mid (f 0) c = Inr c'"
    by (rule receive_pushes [OF l a n R turn c'(2)])
  have entry: "entry_channel k c' = flushed ?mid (entry_channel k c)" "rec_state c' = Spawned"
      "rec_last_epoch_id c' = Some ?mid" for k
    using rec_spawn_arm_entry [OF ok _ _ c'(1), of "[]" k] st by (simp_all add: entry_channel_def)
  have "\<exists>m. m \<le> length (positions f ?n k) \<and> (m = 0 \<or> m - 1 \<in> ranks f ?n k R) \<and>
      entry_channel k c' = conc_channel b (map ((!) ks) (positions f ?n k)) m (pending m (ranks f ?n k R)) []" for k
  proof -
    obtain m where m: "m \<le> length (positions f ?n k)" "m = 0 \<or> m - 1 \<in> ranks f ?n k R"
        "entry_channel k c = conc_channel b (map ((!) ks) (positions f ?n k)) m (pending m (ranks f ?n k R)) []"
      using a unfolding arrived_def by blast
    have "flushed ?mid (entry_channel k c) = drained (rcc_process_loop (entry_channel k c))"
      unfolding m(3) using positions_ids(2) [OF l, of k]
      by (subst flushed_conc) (auto simp: pending_set ranks_def)
    moreover obtain m' inc' where "m' \<le> length (positions f ?n k)" "m' = 0 \<or> m' - 1 \<in> ranks f ?n k R"
        "rcc_process_messages Spawned (entry_channel k c) =
          conc_channel b (map ((!) ks) (positions f ?n k)) m' (pending m' (ranks f ?n k R)) inc'"
      using process_pending [OF ranks_finite m(1) ranks_subset m(2), of Spawned b
          "map ((!) ks) (positions f ?n k)" "[]"] m(3) by auto
    ultimately show ?thesis using entry by (auto simp: rcc_process_messages_def)
  qed
  moreover have "ranks f ?n k (insert 0 R) = ranks f ?n k R" for k
    by (rule ranks_insert_other) simp
  moreover have "rec_ok False w c'" by (rule rec_receive_message_ok [OF w rcv]) simp
  moreover have "settled (entry_channel k c')" for k
    by (simp add: entry settled_process_loop)
  ultimately show ?thesis
    using rcv c'(2) entry(2,3) by (auto simp: arrived_def simp del: split_paired_Ex)
qed

lemma arrive_auth:
  assumes l: "lifetime_stream ks f" and a: "arrived b ks f R c" and j: "j < length ks" "j \<notin> R"
    and m: "is_auth_message (f j)"
  shows "\<exists>c'. rec_receive_message (b + of_nat (ks ! j)) (f j) c = Inr c' \<and> arrived b ks f (insert j R) c'"
proof -
  let ?mid = "b + of_nat (ks ! j)"
  let ?c = "c \<lparr> rec_buffered_messages := [(?mid, f j)] \<rparr>"
  obtain w where w: "rec_ok False w c" using a by (auto simp: arrived_def)
  have ok: "rec_ok False w ?c" using w by (simp add: rec_ok_def)
  obtain c' where c': "rec_auth_arm ?c = Inr c'" "rec_buffered_messages c' = []"
    using rec_auth_arm_total [OF ok, of ?mid "f j" "[]"] m by auto
  have turn: "rec_turn ?c = Inr (Some c')" using c'(1) m by (cases "f j") (simp_all add: rec_turn_def)
  have rcv: "rec_receive_message ?mid (f j) c = Inr c'"
    by (rule receive_pushes [OF l a j turn c'(2)])
  have entry: "entry_channel k c' = entry_channel k c" "rec_state c' = rec_state c"
      "rec_last_epoch_id c' = rec_last_epoch_id c" for k
    using rec_auth_arm_entry [OF c'(1), of "(?mid, f j)" "[]" k] by (simp_all add: entry_channel_def)
  have "j \<noteq> 0" using m l by (intro notI) (simp add: lifetime_stream_def)
  have "msg_component_kind (f j) = None" using m by (cases "f j") auto
  then have "ranks f (length ks) k (insert j R) = ranks f (length ks) k R" for k
    by (intro ranks_insert_other) simp
  moreover have "rec_ok False w c'" by (rule rec_receive_message_ok [OF w rcv]) simp
  moreover have "0 \<in> insert j R \<longleftrightarrow> 0 \<in> R" using \<open>j \<noteq> 0\<close> by auto
  ultimately show ?thesis
    using a rcv c'(2) entry unfolding arrived_def by (auto simp del: split_paired_Ex)
qed

lemma arrive_toggle:
  assumes l: "lifetime_stream ks f" and a: "arrived b ks f R c" and j: "j < length ks" "j \<notin> R"
    and kind: "msg_component_kind (f j) = Some k"
  shows "\<exists>c'. rec_receive_message (b + of_nat (ks ! j)) (f j) c = Inr c' \<and> arrived b ks f (insert j R) c'"
proof -
  let ?mid = "b + of_nat (ks ! j)" and ?n = "length ks" and ?P = "positions f (length ks)"
  let ?c = "c \<lparr> rec_buffered_messages := [(?mid, f j)] \<rparr>"
  obtain w where w: "rec_ok False w c" using a by (auto simp: arrived_def)
  have ok: "rec_ok False w ?c" using w by (simp add: rec_ok_def)
  have j0: "j \<noteq> 0" using l kind by (metis lifetime_stream_def msg_component_kind.simps(3) option.distinct(1))
  have "j \<in> set (?P k)" using j(1) j0 kind by (simp add: positions_set)
  then obtain r where r: "?P k ! r = j" "r < length (?P k)" by (auto simp: in_set_conv_nth)
  have flag: "f j = (if even r then InsertComponent () k else RemoveComponent () k)"
  proof -
    have "toggle_flag (f j) = Inr (even r)" using l r unfolding lifetime_stream_def by blast
    with kind show ?thesis by (cases "f j") auto
  qed
  have idr: "map ((!) ks) (?P k) ! r = ks ! j" using r by simp
  obtain m where m: "m \<le> length (?P k)" "m = 0 \<or> m - 1 \<in> ranks f ?n k R"
      "entry_channel k c = conc_channel b (map ((!) ks) (?P k)) m (pending m (ranks f ?n k R)) []"
    using a unfolding arrived_def by blast
  have rk: "r \<notin> ranks f ?n k R" using j(2) r(1) by (auto simp: ranks_def)
  obtain m' inc' where m': "m' \<le> length (?P k)" "m' = 0 \<or> m' - 1 \<in> insert r (ranks f ?n k R)"
      "rcc_accept_message (rec_state c) ?mid (f j) (entry_channel k c) =
        Inr (conc_channel b (map ((!) ks) (?P k)) m' (pending m' (insert r (ranks f ?n k R))) inc')"
    using accept_conc [of "map ((!) ks) (?P k)" "ranks f ?n k R" r m "rec_state c" b k "[]"]
      positions_ids [OF l, of k] ranks_subset [of f ?n k R] r(2) rk m idr flag by auto
  obtain c' where c': "rec_component_arm ?c = Inr c'" "rec_buffered_messages c' = []"
      "\<forall>k'. entry_channel k' c' = (if k' = k then conc_channel b (map ((!) ks) (?P k)) m'
         (pending m' (insert r (ranks f ?n k R))) [] else entry_channel k' c)"
      "rec_state c' = rec_state c" "rec_last_epoch_id c' = rec_last_epoch_id c"
    using rec_component_arm_entry [OF ok, of ?mid "f j" "[]" k] kind m'(3)
    by (auto simp: entry_channel_def)
  have turn: "rec_turn ?c = Inr (Some c')" using c'(1) flag by (simp add: rec_turn_def split: if_splits)
  have rcv: "rec_receive_message ?mid (f j) c = Inr c'"
    by (rule receive_pushes [OF l a j turn c'(2)])
  have settled: "settled (entry_channel k' c')" if "0 \<in> R" for k'
  proof (cases "k' = k")
    case True
    have "settled (entry_channel k c)" "rec_state c = Spawned" using a that by (auto simp: arrived_def)
    from settled_accept [OF this(1)] m'(3) this(2) True c'(3) show ?thesis
      by (metis conc_drained settled_drained)
  next
    case False
    with a that c'(3) show ?thesis by (simp add: arrived_def)
  qed
  have "\<exists>m. m \<le> length (?P k') \<and> (m = 0 \<or> m - 1 \<in> ranks f ?n k' (insert j R)) \<and>
      entry_channel k' c' = conc_channel b (map ((!) ks) (?P k')) m (pending m (ranks f ?n k' (insert j R))) []" for k'
  proof (cases "k' = k")
    case True
    with m' c'(3) ranks_insert [OF r, of R] show ?thesis by auto
  next
    case False
    then have "ranks f ?n k' (insert j R) = ranks f ?n k' R"
      using kind by (intro ranks_insert_other) simp
    with False a c'(3) show ?thesis unfolding arrived_def by auto
  qed
  moreover have "rec_ok False w c'" by (rule rec_receive_message_ok [OF w rcv]) simp
  moreover have "0 \<in> insert j R \<longleftrightarrow> 0 \<in> R" using j0 by auto
  ultimately show ?thesis
    using a rcv c' settled unfolding arrived_def by (auto simp del: split_paired_Ex)
qed

lemma arrive:
  assumes l: "lifetime_stream ks f" and a: "arrived b ks f R c" and j: "j < length ks" "j \<notin> R"
  shows "\<exists>c'. rec_receive_message (b + of_nat (ks ! j)) (f j) c = Inr c' \<and> arrived b ks f (insert j R) c'"
proof (cases "j = 0")
  case True
  with arrive_spawn [OF l a] j show ?thesis by simp
next
  case False
  then have "within_lifetime (f j)" using l j(1) by (auto simp: lifetime_stream_def)
  then consider "is_auth_message (f j)" | k where "msg_component_kind (f j) = Some k"
    by (cases "f j") auto
  then show ?thesis
    using arrive_auth [OF l a j] arrive_toggle [OF l a j] by cases auto
qed

lemma arrive_all:
  "lifetime_stream ks f \<Longrightarrow> arrived b ks f R c \<Longrightarrow> distinct js \<Longrightarrow> set js \<inter> R = {} \<Longrightarrow>
   set js \<subseteq> {..<length ks} \<Longrightarrow>
   \<exists>c'. rfold (\<lambda>j. rec_receive_message (b + of_nat (ks ! j)) (f j)) js c = Inr c' \<and> arrived b ks f (R \<union> set js) c'"
proof (induction js arbitrary: R c)
  case Nil
  then show ?case by simp
next
  case (Cons j js)
  obtain c1 where c1: "rec_receive_message (b + of_nat (ks ! j)) (f j) c = Inr c1" "arrived b ks f (insert j R) c1"
    using arrive [OF Cons.prems(1,2), of j] Cons.prems(4,5) by auto
  from Cons.IH [OF Cons.prems(1) c1(2)] Cons.prems c1(1) show ?case by auto
qed

lemma arrived_new: "arrived b ks f {} (rec_new h)"
proof -
  have "pending 0 (ranks f n k {}) = []" for n k by (simp add: ranks_def pending_def)
  then show ?thesis
    using rec_ok_new [of False h]
    by (auto simp: arrived_def rec_new_def oi_new_def entry_channel_def
        conc_channel_def rcc_new_def simp del: split_paired_Ex intro!: exI [of _ 0])
qed

lemma arrived_everything:
  assumes "lifetime_stream ks f" "arrived b ks f {..<length ks} c"
  shows "rcc_inserted (entry_channel k c) = odd (length (positions f (length ks) k)) \<and>
    rcc_buffered_messages (entry_channel k c) = []"
proof -
  let ?P = "positions f (length ks)"
  have 0: "0 \<in> {..<length ks}" using assms(1) by (simp add: lifetime_stream_def)
  obtain m where m: "m \<le> length (?P k)"
      "entry_channel k c = conc_channel b (map ((!) ks) (?P k)) m (pending m (ranks f (length ks) k {..<length ks})) []"
    using assms(2) unfolding arrived_def by blast
  have "ranks f (length ks) k {..<length ks} = {..<length (?P k)}"
    using nth_mem [of _ "?P k"] by (auto simp: ranks_def positions_set)
  then have p: "pending m (ranks f (length ks) k {..<length ks}) = [m..<length (?P k)]"
    by (simp add: pending_def lessThan_atLeast0 filter_le_upt)
  have "settled (entry_channel k c)" using assms(2) 0 by (simp add: arrived_def)
  then have "m = length (?P k)" using settled_conc_complete m p by metis
  with m p show ?thesis by (simp add: conc_channel_def)
qed

section \<open>From the sender's world to the stream\<close>

lemma world_run_lifetime_stream:
  assumes ks: "ks \<noteq> []" "sorted_wrt (<) ks" "\<forall>k\<in>set ks. k < 32768" and f0: "f 0 = Spawn ()"
    and wl: "\<forall>i\<in>{1..<length ks}. within_lifetime (f i)"
    and run: "world_run True (False, {}) (map f [0..<length ks]) = Some (a, S)"
  shows "lifetime_stream ks f \<and> (\<forall>k. k \<in> S \<longleftrightarrow> odd (length (positions f (length ks) k)))"
proof -
  have "map f [0..<length ks] = Spawn () # map f [1..<length ks]"
    using ks(1) f0 by (simp add: upt_conv_Cons)
  then have run': "world_run True (True, {}) (map f [1..<length ks]) = Some (a, S)"
    using run by simp
  have alt: "alternates_b False (map (\<lambda>i. \<not> (\<exists>e. f i = RemoveComponent e k)) (positions f (length ks) k)) (k \<in> S)" for k
    using world_run_flags [OF _ run', of k] wl by (simp add: flags_map positions_def)
  have "toggle_flag (f (positions f (length ks) k ! r)) = Inr (even r)" if "r < length (positions f (length ks) k)" for k r
  proof -
    let ?i = "positions f (length ks) k ! r"
    have "?i \<in> set (positions f (length ks) k)" using that by simp
    then have "msg_component_kind (f ?i) = Some k" by (simp add: positions_set)
    moreover have "(\<not> (\<exists>e. f ?i = RemoveComponent e k)) = even r"
      using alternates_b_even [OF alt, of k] that by auto
    ultimately show ?thesis by (cases "f ?i") auto
  qed
  with assms alternates_b_even [OF alt] show ?thesis by (simp add: lifetime_stream_def)
qed

lemma world_run_weaken: "world_run True w ms = Some w' \<Longrightarrow> world_run False w ms = Some w'"
proof (induction ms arbitrary: w)
  case Nil
  then show ?case by simp
next
  case (Cons m ms)
  have "world_step True w m = Some w1 \<Longrightarrow> world_step False w m = Some w1" for w1
    by (cases w; cases m) (auto split: if_splits)
  with Cons show ?case by (auto split: option.splits)
qed

lemma rec_ok_weaken: "rec_ok True w c \<Longrightarrow> rec_ok False w c"
  by (auto simp: rec_ok_def world_ok_def dest: world_run_weaken)

section \<open>Through the engine\<close>

text \<open>A channel of the engine: its events are drained after every message.\<close>

definition arrived_world ::
  "u16 \<Rightarrow> nat list \<Rightarrow> (nat \<Rightarrow> unit entity_message) \<Rightarrow> nat set \<Rightarrow> remote_entity_channel \<times> 'e entity_message list \<Rightarrow> bool" where
  "arrived_world b ks f R s = (arrived b ks f R (fst s) \<and>
     (\<exists>w. world_run True (False, {}) (map stripped (snd s)) = Some w \<and> rec_ok True w (fst s)) \<and>
     rec_incoming_messages (fst s) = [])"

lemma arrived_drained:
  "arrived b ks f R c \<Longrightarrow> rec_ok False w' (c \<lparr> rec_incoming_messages := [] \<rparr>) \<Longrightarrow>
   arrived b ks f R (c \<lparr> rec_incoming_messages := [] \<rparr>)"
  by (auto simp: arrived_def entry_channel_def simp del: split_paired_Ex)

lemma entity_receive_arrives:
  assumes l: "lifetime_stream ks f" and a: "arrived_world b ks f R s" and j: "j < length ks" "j \<notin> R"
    and g: "strip_entity (g j) = Inr (f j)"
  shows "\<exists>s'. entity_receive e (b + of_nat (ks ! j), g j) s = Inr s' \<and> arrived_world b ks f (insert j R) s'"
proof -
  obtain c' where c': "rec_receive_message (b + of_nat (ks ! j)) (f j) (fst s) = Inr c'"
      "arrived b ks f (insert j R) c'"
    using arrive [OF l _ j] a unfolding arrived_world_def by blast
  obtain w where w: "world_run True (False, {}) (map stripped (snd s)) = Some w" "rec_ok True w (fst s)"
    using a unfolding arrived_world_def by blast
  have "f j = Spawn () \<or> within_lifetime (f j)"
    using l j(1) by (cases "j = 0") (auto simp: lifetime_stream_def)
  then have "msg_get_type (f j) \<noteq> EMT_SpawnWithComponents" by (cases "f j") auto
  then have ok: "rec_ok True w c'" using rec_receive_message_ok [OF w(2) c'(1)] by simp
  obtain es where es: "rec_drain_incoming_messages_into e (snd s) c' = Inr (snd s @ es, c' \<lparr> rec_incoming_messages := [] \<rparr>)"
      "map strip_entity es = map Inr (rec_incoming_messages c')"
    using rec_drain_incoming [OF ok, of e "snd s"] by auto
  obtain w' where w': "world_run True w (rec_incoming_messages c') = Some w'"
      "rec_ok True w' (c' \<lparr> rec_incoming_messages := [] \<rparr>)"
    using ok by (auto simp: rec_ok_def world_ok_def)
  have "world_run True (False, {}) (map stripped (snd s @ es)) = Some w'"
    using w(1) w'(1) stripped_map [OF es(2)] by (simp add: world_run_append)
  moreover have "arrived b ks f (insert j R) (c' \<lparr> rec_incoming_messages := [] \<rparr>)"
    using arrived_drained [OF c'(2)] rec_ok_weaken [OF w'(2)] by blast
  ultimately show ?thesis
    using c'(1) g es(1) w'(2) by (auto simp: entity_receive_def arrived_world_def simp del: split_paired_Ex)
qed

lemma entity_receive_all:
  "lifetime_stream ks f \<Longrightarrow> arrived_world b ks f R s \<Longrightarrow> distinct js \<Longrightarrow> set js \<inter> R = {} \<Longrightarrow>
   set js \<subseteq> {..<length ks} \<Longrightarrow> \<forall>j<length ks. strip_entity (g j) = Inr (f j) \<Longrightarrow>
   \<exists>s'. rfold (entity_receive e) (map (\<lambda>j. (b + of_nat (ks ! j), g j)) js) s = Inr s' \<and>
     arrived_world b ks f (R \<union> set js) s'"
proof (induction js arbitrary: R s)
  case Nil
  then show ?case by simp
next
  case (Cons j js)
  obtain s1 where s1: "entity_receive e (b + of_nat (ks ! j), g j) s = Inr s1" "arrived_world b ks f (insert j R) s1"
    using entity_receive_arrives [OF Cons.prems(1,2), of j g e] Cons.prems(4,5,6) by auto
  from Cons.IH [OF Cons.prems(1) s1(2)] Cons.prems s1(1) show ?case by auto
qed

lemma arrived_world_new: "arrived_world b ks f {} (rec_new h, [])"
  using rec_ok_new [of True h] arrived_new [of b ks f h]
  by (auto simp: arrived_world_def rec_new_def)

lemma arrived_extract:
  assumes "lifetime_stream ks f" "arrived_world b ks f {..<length ks} s"
  shows "rec_extract_inserted_component_kinds (fst s) = {k. odd (length (positions f (length ks) k))} \<and>
    rec_state (fst s) = Spawned \<and> rec_buffered_messages (fst s) = [] \<and>
    world_run True (False, {}) (map stripped (snd s)) =
      Some (True, rec_extract_inserted_component_kinds (fst s))"
proof -
  have a: "arrived b ks f {..<length ks} (fst s)" using assms(2) by (simp add: arrived_world_def)
  have 0: "0 \<in> {..<length ks}" using assms(1) by (simp add: lifetime_stream_def)
  obtain w where w: "world_run True (False, {}) (map stripped (snd s)) = Some w" "rec_ok True w (fst s)"
    using assms(2) unfolding arrived_world_def by blast
  have ins: "rec_extract_inserted_component_kinds (fst s) = rec_inserted (rec_component_channels (fst s))"
    by (rule rec_ok_extract [OF w(2)])
  also have "\<dots> = {k. odd (length (positions f (length ks) k))}"
    by (intro set_eqI) (simp add: rec_inserted_entry arrived_everything [OF assms(1) a])
  finally have "rec_extract_inserted_component_kinds (fst s) = {k. odd (length (positions f (length ks) k))}" .
  moreover have st: "rec_state (fst s) = Spawned" "rec_buffered_messages (fst s) = []"
    using a 0 by (auto simp: arrived_def)
  moreover have "w = (True, rec_inserted (rec_component_channels (fst s)))"
    using w(2) st(1) assms(2) by (auto simp: rec_ok_def world_ok_def arrived_world_def)
  ultimately show ?thesis using w(1) ins by simp
qed

section \<open>Properties\<close>



end
