(* ===== verification/Host_Engine.thy ===== *)
theory Host_Engine
  imports Remote_Engine
begin

text \<open>
  The sending side of entity replication: \<^verbatim>\<open>shared/src/world/sync/host_entity_channel.rs\<close> and
  \<^verbatim>\<open>host_engine.rs\<close>. The engine accepts the commands of the game on the entities this host owns,
  checks them and queues them for the peer. Its main property is the hypothesis under which the
  receiving engine converges: the queued commands of an entity are a legal run of its world.
\<close>

section \<open>The channel of a host entity\<close>

record host_entity_channel =
  hec_component_channels :: "component_kind set"
  hec_auth_channel :: auth_channel
  hec_buffered_messages :: "unit entity_message ordered_ids"
  hec_incoming_messages :: "unit entity_message list"
  hec_outgoing_commands :: "entity_command list"

definition hec_new_with_components :: "host_type \<Rightarrow> component_kind set \<Rightarrow> host_entity_channel" where
  "hec_new_with_components host_type kinds =
     \<lparr> hec_component_channels = kinds, hec_auth_channel = ac_new host_type,
       hec_buffered_messages = oi_new, hec_incoming_messages = [], hec_outgoing_commands = [] \<rparr>"

definition hec_new :: "host_type \<Rightarrow> host_entity_channel" where
  "hec_new host_type =
     \<lparr> hec_component_channels = {}, hec_auth_channel = ac_new host_type,
       hec_buffered_messages = oi_new, hec_incoming_messages = [], hec_outgoing_commands = [] \<rparr>"

definition hec_send_insert :: "entity_command \<Rightarrow> host_entity_channel \<Rightarrow> host_entity_channel res" where
  "hec_send_insert command c =
     (case cmd_component_kind command of
        None \<Rightarrow> Inl (Panic ''unwrap on None'')
      | Some kind \<Rightarrow>
          if kind \<in> hec_component_channels c
          then Inl (Panic ''Cannot insert a component that already exists in the entity channel'')
          else Inr (c \<lparr> hec_component_channels := insert kind (hec_component_channels c),
                        hec_outgoing_commands := hec_outgoing_commands c @ [command] \<rparr>))"

definition hec_send_remove :: "entity_command \<Rightarrow> host_entity_channel \<Rightarrow> host_entity_channel res" where
  "hec_send_remove command c =
     (case cmd_component_kind command of
        None \<Rightarrow> Inl (Panic ''unwrap on None'')
      | Some kind \<Rightarrow>
          if kind \<notin> hec_component_channels c
          then Inl (Panic ''Cannot remove a component that does not exist in the entity channel'')
          else Inr (c \<lparr> hec_component_channels := hec_component_channels c - {kind},
                        hec_outgoing_commands := hec_outgoing_commands c @ [command] \<rparr>))"

definition hec_send_auth :: "entity_command \<Rightarrow> host_entity_channel \<Rightarrow> host_entity_channel res" where
  "hec_send_auth command c =
     rbind (ac_validate_command command (hec_auth_channel c)) (\<lambda>a.
     rbind (ac_send_command command a) (\<lambda>a.
       let (out, a) = ac_sender_drain_messages_into (hec_outgoing_commands c) a in
       Inr (c \<lparr> hec_auth_channel := a, hec_outgoing_commands := out \<rparr>)))"

definition hec_send_command :: "entity_command \<Rightarrow> host_entity_channel \<Rightarrow> host_entity_channel res" where
  "hec_send_command command c =
     (case cmd_get_type command of
        EMT_Spawn \<Rightarrow> Inl (Panic ''These should be handled by the Engine, not the EntityChannelSender'')
      | EMT_SpawnWithComponents \<Rightarrow>
          Inl (Panic ''These should be handled by the Engine, not the EntityChannelSender'')
      | EMT_Despawn \<Rightarrow> Inl (Panic ''These should be handled by the Engine, not the EntityChannelSender'')
      | EMT_Noop \<Rightarrow> Inl (Panic ''These should be handled by the Engine, not the EntityChannelSender'')
      | EMT_InsertComponent \<Rightarrow> hec_send_insert command c
      | EMT_RemoveComponent \<Rightarrow> hec_send_remove command c
      | _ \<Rightarrow> hec_send_auth command c)"

definition hec_drain_incoming_messages_into ::
  "host_entity \<Rightarrow> host_entity entity_message list \<Rightarrow> host_entity_channel \<Rightarrow>
   (host_entity entity_message list \<times> host_entity_channel) res" where
  "hec_drain_incoming_messages_into entity outgoing_events c =
     rbind (rfold (\<lambda>rmsg received. rbind (with_entity rmsg entity) (\<lambda>m. Inr (received @ [m])))
               (hec_incoming_messages c) [])
       (\<lambda>received. Inr (outgoing_events @ received, c \<lparr> hec_incoming_messages := [] \<rparr>))"

definition hec_drain_outgoing_messages_into ::
  "entity_command list \<Rightarrow> host_entity_channel \<Rightarrow> entity_command list \<times> host_entity_channel" where
  "hec_drain_outgoing_messages_into outgoing c =
     (outgoing @ hec_outgoing_commands c, c \<lparr> hec_outgoing_commands := [] \<rparr>)"

definition hec_auth_arm :: "host_entity_channel \<Rightarrow> host_entity_channel res" where
  "hec_auth_arm c =
     (case pop_front (hec_buffered_messages c) of
        (None, _) \<Rightarrow> Inl (Panic ''unwrap on None'')
      | (Some (mid, msg), q) \<Rightarrow>
          rbind (ac_receiver_receive_message None mid msg (hec_auth_channel c)) (\<lambda>a.
            let (inc, a) = ac_receiver_drain_messages_into (hec_incoming_messages c) a in
            Inr (c \<lparr> hec_buffered_messages := q, hec_auth_channel := a, hec_incoming_messages := inc \<rparr>)))"

definition hec_turn :: "host_entity_channel \<Rightarrow> host_entity_channel option res" where
  "hec_turn c =
     (case peek_front (hec_buffered_messages c) of
        None \<Rightarrow> Inr None
      | Some (_, msg) \<Rightarrow>
          (case msg_get_type msg of
             EMT_RequestAuthority \<Rightarrow> rbind (hec_auth_arm c) (Inr \<circ> Some)
           | EMT_ReleaseAuthority \<Rightarrow> rbind (hec_auth_arm c) (Inr \<circ> Some)
           | EMT_EnableDelegationResponse \<Rightarrow> rbind (hec_auth_arm c) (Inr \<circ> Some)
           | EMT_MigrateResponse \<Rightarrow> rbind (hec_auth_arm c) (Inr \<circ> Some)
           | EMT_Noop \<Rightarrow> Inr (Some c)
           | _ \<Rightarrow> Inl (Panic ''EntityChannelSender::process_messages() received an unexpected message type'')))"

fun hec_process_loop :: "nat \<Rightarrow> host_entity_channel \<Rightarrow> host_entity_channel res" where
  "hec_process_loop 0 c = Inl Diverges"
| "hec_process_loop (Suc n) c =
     rbind (hec_turn c) (\<lambda>r. case r of None \<Rightarrow> Inr c | Some c' \<Rightarrow> hec_process_loop n c')"

definition hec_process_messages :: "host_entity_channel \<Rightarrow> host_entity_channel res" where
  "hec_process_messages c = hec_process_loop (Suc (length (hec_buffered_messages c))) c"

definition hec_receive_message ::
  "message_index \<Rightarrow> unit entity_message \<Rightarrow> host_entity_channel \<Rightarrow> host_entity_channel res" where
  "hec_receive_message mid msg c =
     hec_process_messages (c \<lparr> hec_buffered_messages := oi_push_back mid msg (hec_buffered_messages c) \<rparr>)"

definition hec_extract_outgoing_commands ::
  "host_entity_channel \<Rightarrow> entity_command list \<times> host_entity_channel" where
  "hec_extract_outgoing_commands c = (hec_outgoing_commands c, c \<lparr> hec_outgoing_commands := [] \<rparr>)"

definition hec_local_enable_delegation :: "host_entity_channel \<Rightarrow> host_entity_channel" where
  "hec_local_enable_delegation c =
     c \<lparr> hec_auth_channel := ac_force_enable_delegation (ac_force_publish (hec_auth_channel c)) \<rparr>"

section \<open>The engine\<close>

record host_engine =
  he_host_type :: host_type
  he_config :: engine_config
  he_entity_channels :: "host_entity \<rightharpoonup> host_entity_channel"
  he_incoming_events :: "host_entity entity_message list"
  he_outgoing_commands :: "entity_command list"

definition he_new :: "host_type \<Rightarrow> host_engine" where
  "he_new host_type = \<lparr> he_host_type = host_type, he_config = default_engine_config,
     he_entity_channels = Map.empty, he_incoming_events = [], he_outgoing_commands = [] \<rparr>"

definition he_take_outgoing_commands :: "host_engine \<Rightarrow> entity_command list \<times> host_engine" where
  "he_take_outgoing_commands g = (he_outgoing_commands g, g \<lparr> he_outgoing_commands := [] \<rparr>)"

definition he_take_incoming_events :: "host_engine \<Rightarrow> host_entity entity_message list \<times> host_engine" where
  "he_take_incoming_events g = (he_incoming_events g, g \<lparr> he_incoming_events := [] \<rparr>)"

definition he_dispatch ::
  "message_index \<Rightarrow> host_entity entity_message \<Rightarrow> host_engine \<Rightarrow> host_engine res" where
  "he_dispatch mid msg g =
     (case msg_entity msg of
        None \<Rightarrow> Inl (Panic ''unwrap on None'')
      | Some entity \<Rightarrow>
          (case he_entity_channels g entity of
             None \<Rightarrow> Inr g
           | Some channel \<Rightarrow>
               rbind (strip_entity msg) (\<lambda>m.
               rbind (hec_receive_message mid m channel) (\<lambda>channel.
               rbind (hec_drain_incoming_messages_into entity (he_incoming_events g) channel) (\<lambda>(evs, channel).
                 Inr (g \<lparr> he_entity_channels := (he_entity_channels g)(entity \<mapsto> channel),
                          he_incoming_events := evs \<rparr>))))))"

definition he_receive_message ::
  "message_index \<Rightarrow> host_entity entity_message \<Rightarrow> host_engine \<Rightarrow> host_engine res" where
  "he_receive_message mid msg g =
     (case msg_get_type msg of
        EMT_Spawn \<Rightarrow> Inl (Panic ''Host should not receive messages of this type'')
      | EMT_SpawnWithComponents \<Rightarrow> Inl (Panic ''Host should not receive messages of this type'')
      | EMT_Despawn \<Rightarrow> Inl (Panic ''Host should not receive messages of this type'')
      | EMT_InsertComponent \<Rightarrow> Inl (Panic ''Host should not receive messages of this type'')
      | EMT_RemoveComponent \<Rightarrow> Inl (Panic ''Host should not receive messages of this type'')
      | EMT_Noop \<Rightarrow> Inr g
      | _ \<Rightarrow> he_dispatch mid msg g)"

text \<open>
  \<^verbatim>\<open>send_command\<close>. The converter is the trait object of the source: it maps a global entity to the
  host entity of this connection.
\<close>

definition he_send_to_channel :: "host_entity \<Rightarrow> entity_command \<Rightarrow> host_engine \<Rightarrow> host_engine res" where
  "he_send_to_channel entity command g =
     (case he_entity_channels g entity of
        None \<Rightarrow> Inl (Panic ''Cannot accept command for an entity that does not exist in the engine'')
      | Some channel \<Rightarrow>
          rbind (hec_send_command command channel) (\<lambda>channel.
            let (out, channel) = hec_drain_outgoing_messages_into (he_outgoing_commands g) channel in
            Inr (g \<lparr> he_entity_channels := (he_entity_channels g)(entity \<mapsto> channel),
                     he_outgoing_commands := out \<rparr>)))"

definition he_send_command ::
  "(global_entity \<Rightarrow> host_entity option) \<Rightarrow> entity_command \<Rightarrow> host_engine \<Rightarrow> host_engine res" where
  "he_send_command converter command g =
     (case converter (cmd_entity command) of
        None \<Rightarrow> Inl (Panic ''unwrap on EntityDoesNotExistError'')
      | Some entity \<Rightarrow>
          (case command of
             C_Spawn _ \<Rightarrow>
               if he_entity_channels g entity \<noteq> None
               then Inl (Panic ''Cannot spawn an entity that already exists in the engine'')
               else Inr (g \<lparr> he_entity_channels := (he_entity_channels g)(entity \<mapsto> hec_new (he_host_type g)),
                             he_outgoing_commands := he_outgoing_commands g @ [command] \<rparr>)
           | C_SpawnWithComponents _ kinds \<Rightarrow>
               if he_entity_channels g entity \<noteq> None
               then Inl (Panic ''Cannot spawn an entity that already exists in the engine'')
               else Inr (g \<lparr> he_entity_channels := (he_entity_channels g)(entity \<mapsto>
                               hec_new_with_components (he_host_type g) (set kinds)),
                             he_outgoing_commands := he_outgoing_commands g @ [command] \<rparr>)
           | C_Despawn _ \<Rightarrow>
               if he_entity_channels g entity = None
               then Inl (Panic ''Cannot despawn an entity that does not exist in the engine'')
               else Inr (g \<lparr> he_entity_channels := (he_entity_channels g)(entity := None),
                             he_outgoing_commands := he_outgoing_commands g @ [command] \<rparr>)
           | _ \<Rightarrow> he_send_to_channel entity command g))"

definition he_remove_entity_channel ::
  "host_entity \<Rightarrow> host_engine \<Rightarrow> (host_entity_channel \<times> host_engine) res" where
  "he_remove_entity_channel entity g =
     (case he_entity_channels g entity of
        None \<Rightarrow> Inl (Panic ''Cannot remove entity channel that doesn't exist'')
      | Some c \<Rightarrow> Inr (c, g \<lparr> he_entity_channels := (he_entity_channels g)(entity := None) \<rparr>))"

definition he_extract_entity_commands ::
  "host_entity \<Rightarrow> host_engine \<Rightarrow> entity_command list \<times> host_engine" where
  "he_extract_entity_commands entity g =
     (case he_entity_channels g entity of
        Some channel \<Rightarrow>
          let (cmds, channel) = hec_extract_outgoing_commands channel in
          (cmds, g \<lparr> he_entity_channels := (he_entity_channels g)(entity \<mapsto> channel) \<rparr>)
      | None \<Rightarrow> ([], g))"

definition he_insert_entity_channel ::
  "host_entity \<Rightarrow> host_entity_channel \<Rightarrow> host_engine \<Rightarrow> host_engine res" where
  "he_insert_entity_channel entity channel g =
     (if he_entity_channels g entity \<noteq> None then Inl (Panic ''Cannot insert entity channel that already exists'')
      else Inr (g \<lparr> he_entity_channels := (he_entity_channels g)(entity \<mapsto> channel) \<rparr>))"

section \<open>The commands of one entity\<close>

text \<open>The world of one entity as the commands describe it: alive or not, and its components.\<close>

fun command_step :: "bool \<times> component_kind set \<Rightarrow> entity_command \<Rightarrow> (bool \<times> component_kind set) option" where
  "command_step (alive, ks) (C_Spawn _) = (if alive then None else Some (True, {}))"
| "command_step (alive, ks) (C_SpawnWithComponents _ kinds) = (if alive then None else Some (True, set kinds))"
| "command_step (alive, ks) (C_Despawn _) = (if alive then Some (False, {}) else None)"
| "command_step (alive, ks) (C_InsertComponent _ k) =
     (if alive \<and> k \<notin> ks then Some (True, insert k ks) else None)"
| "command_step (alive, ks) (C_RemoveComponent _ k) =
     (if alive \<and> k \<in> ks then Some (True, ks - {k}) else None)"
| "command_step (alive, ks) c = (if alive then Some (True, ks) else None)"

fun command_run :: "bool \<times> component_kind set \<Rightarrow> entity_command list \<Rightarrow> (bool \<times> component_kind set) option" where
  "command_run w [] = Some w"
| "command_run w (c # cs) = (case command_step w c of None \<Rightarrow> None | Some w' \<Rightarrow> command_run w' cs)"

lemma command_run_append:
  "command_run w (cs @ ds) = (case command_run w cs of None \<Rightarrow> None | Some w' \<Rightarrow> command_run w' ds)"
  by (induction cs arbitrary: w) (auto split: option.splits)

definition commands_of ::
  "(global_entity \<Rightarrow> host_entity option) \<Rightarrow> host_entity \<Rightarrow> entity_command list \<Rightarrow> entity_command list" where
  "commands_of converter e cs = filter (\<lambda>c. converter (cmd_entity c) = Some e) cs"

definition channel_world :: "host_entity_channel option \<Rightarrow> bool \<times> component_kind set" where
  "channel_world ch = (case ch of None \<Rightarrow> (False, {}) | Some c \<Rightarrow> (True, hec_component_channels c))"

lemma channel_world_simps [simp]:
  "channel_world None = (False, {})" "channel_world (Some c) = (True, hec_component_channels c)"
  by (simp_all add: channel_world_def)

text \<open>What a command accepted by a channel adds to the channel's queue.\<close>

lemma ac_validate_keeps_sender:
  "ac_validate_command command a = Inr a' \<Longrightarrow> ac_sender a' = ac_sender a"
  by (cases command) (auto simp: ac_validate_command_def validate_set_authority_def
      split: if_splits option.splits)

lemma hec_send_command_queues:
  assumes "hec_send_command command c = Inr c'" "acs_outgoing_commands (ac_sender (hec_auth_channel c)) = []"
  shows "\<exists>command'. hec_outgoing_commands c' = hec_outgoing_commands c @ [command'] \<and>
    cmd_entity command' = cmd_entity command \<and>
    command_step (True, hec_component_channels c) command' = Some (True, hec_component_channels c') \<and>
    acs_outgoing_commands (ac_sender (hec_auth_channel c')) = []"
proof -
  consider k e where "command = C_InsertComponent e k" | k e where "command = C_RemoveComponent e k"
    | "hec_send_auth command c = Inr c'"
    using assms(1) by (cases command) (auto simp: hec_send_command_def)
  then show ?thesis
  proof cases
    case 3
    then obtain a command' where a: "ac_validate_command command (hec_auth_channel c) = Inr a"
        "set_subcommand_id (acs_next_subcommand_id (ac_sender a)) command = Inr command'"
      and c': "hec_outgoing_commands c' = hec_outgoing_commands c @ acs_outgoing_commands (ac_sender a) @ [command']"
        "hec_component_channels c' = hec_component_channels c"
        "acs_outgoing_commands (ac_sender (hec_auth_channel c')) = []"
      by (auto simp: hec_send_auth_def ac_send_command_def acs_send_command_def rbind_eq_Inr Let_def
          ac_sender_drain_messages_into_def acs_drain_messages_into_def)
    have "command_step (True, hec_component_channels c) command' = Some (True, hec_component_channels c)"
      using a(2) by (cases command) auto
    with c' set_subcommand_id_keeps [OF a(2)] ac_validate_keeps_sender [OF a(1)] assms(2) show ?thesis by simp
  qed (use assms in \<open>auto simp: hec_send_command_def hec_send_insert_def hec_send_remove_def split: if_splits\<close>)
qed

definition host_idle :: "host_engine \<Rightarrow> bool" where
  "host_idle g = (\<forall>e c. he_entity_channels g e = Some c \<longrightarrow> hec_outgoing_commands c = [] \<and>
     acs_outgoing_commands (ac_sender (hec_auth_channel c)) = [])"

text \<open>One command: the queue grows by that command, numbered if it is an authority command.\<close>

lemma he_send_command_queues:
  assumes "he_send_command converter command g = Inr g'" "host_idle g"
  shows "\<exists>e command' w. converter (cmd_entity command) = Some e \<and>
    he_outgoing_commands g' = he_outgoing_commands g @ [command'] \<and> cmd_entity command' = cmd_entity command \<and>
    command_step (channel_world (he_entity_channels g e)) command' = Some (channel_world (he_entity_channels g' e)) \<and>
    (\<forall>e'. e' \<noteq> e \<longrightarrow> he_entity_channels g' e' = he_entity_channels g e') \<and> host_idle g'"
proof -
  obtain e where e: "converter (cmd_entity command) = Some e"
    using assms(1) by (auto simp: he_send_command_def split: option.splits)
  consider (spawn) "\<exists>x. command = C_Spawn x" | (coalesced) "\<exists>x ks. command = C_SpawnWithComponents x ks"
    | (despawn) "\<exists>x. command = C_Despawn x" | (channel) "he_send_to_channel e command g = Inr g'"
    using assms(1) e by (cases command) (auto simp: he_send_command_def)
  then show ?thesis
  proof cases
    case channel
    then obtain c c' where c: "he_entity_channels g e = Some c" "hec_send_command command c = Inr c'"
        "g' = g \<lparr> he_entity_channels := (he_entity_channels g)(e \<mapsto> c' \<lparr> hec_outgoing_commands := [] \<rparr>),
                 he_outgoing_commands := he_outgoing_commands g @ hec_outgoing_commands c' \<rparr>"
      by (auto simp: he_send_to_channel_def rbind_eq_Inr hec_drain_outgoing_messages_into_def split: option.splits)
    have idle: "hec_outgoing_commands c = []" "acs_outgoing_commands (ac_sender (hec_auth_channel c)) = []"
      using assms(2) c(1) by (auto simp: host_idle_def)
    from hec_send_command_queues [OF c(2) idle(2)] idle(1) c e assms(2) show ?thesis
      by (auto simp: host_idle_def)
  qed (use assms e in \<open>auto simp: he_send_command_def host_idle_def hec_new_def hec_new_with_components_def
        ac_new_def acs_new_def split: if_splits\<close>)
qed

definition host_ok :: "(global_entity \<Rightarrow> host_entity option) \<Rightarrow> host_engine \<Rightarrow> bool" where
  "host_ok converter g = (host_idle g \<and>
     (\<forall>e. command_run (False, {}) (commands_of converter e (he_outgoing_commands g)) =
       Some (channel_world (he_entity_channels g e))))"

lemma host_ok_new: "host_ok converter (he_new h)"
  by (simp add: host_ok_def host_idle_def he_new_def commands_of_def)

lemma host_ok_send:
  assumes "host_ok converter g" "he_send_command converter command g = Inr g'"
  shows "host_ok converter g'"
proof -
  obtain e command' where q: "converter (cmd_entity command) = Some e"
      "he_outgoing_commands g' = he_outgoing_commands g @ [command']" "cmd_entity command' = cmd_entity command"
      "command_step (channel_world (he_entity_channels g e)) command' = Some (channel_world (he_entity_channels g' e))"
      "\<forall>e'. e' \<noteq> e \<longrightarrow> he_entity_channels g' e' = he_entity_channels g e'" "host_idle g'"
    using he_send_command_queues [OF assms(2)] assms(1) by (auto simp: host_ok_def)
  have "command_run (False, {}) (commands_of converter e' (he_outgoing_commands g')) =
      Some (channel_world (he_entity_channels g' e'))" for e'
    using assms(1) q by (cases "e' = e") (auto simp: host_ok_def commands_of_def command_run_append)
  with q(6) show ?thesis by (simp add: host_ok_def)
qed

lemma host_run_ok:
  "rfold (he_send_command converter) cmds (he_new h) = Inr g \<Longrightarrow> host_ok converter g"
  by (rule rfold_inv [where P = "host_ok converter", OF _ host_ok_new]) (auto intro: host_ok_send)

section \<open>Properties\<close>

text \<open>
  C8. The host engine sends only legal histories: whatever commands the game issues, as long as the
  engine accepts them, the commands it queues for an entity spawn and despawn it in turn, touch it
  only while it is alive, insert a component only when it is absent and remove it only when it is
  present; and they end in the world the engine itself records for the entity.
\<close>

theorem host_engine_sends_legal_history:
  assumes "rfold (he_send_command converter) cmds (he_new h) = Inr g"
  shows "command_run (False, {}) (filter (\<lambda>c. converter (cmd_entity c) = Some e) (he_outgoing_commands g)) =
    Some (case he_entity_channels g e of None \<Rightarrow> (False, {}) | Some c \<Rightarrow> (True, hec_component_channels c))"
  using host_run_ok [OF assms] by (simp add: host_ok_def commands_of_def channel_world_def)

theorem host_engine_sends_legal_history_witness:
  "\<exists>g. rfold (he_send_command (\<lambda>e. Some (HostEntity 3 False)))
      [C_Spawn 1, C_InsertComponent 1 7, C_RemoveComponent 1 7, C_InsertComponent 1 8] (he_new Server) = Inr g \<and>
    command_run (False, {}) (filter (\<lambda>c. Some (HostEntity 3 False) = Some (HostEntity 3 False)) (he_outgoing_commands g)) =
      Some (True, {8})"
proof -
  obtain g where g: "rfold (he_send_command (\<lambda>e. Some (HostEntity 3 False)))
      [C_Spawn 1, C_InsertComponent 1 7, C_RemoveComponent 1 7, C_InsertComponent 1 8] (he_new Server) = Inr g"
      "\<exists>c. he_entity_channels g (HostEntity 3 False) = Some c \<and> hec_component_channels c = {8}"
    by (simp add: he_send_command_def he_new_def he_send_to_channel_def hec_send_command_def hec_new_def
        hec_send_insert_def hec_send_remove_def hec_drain_outgoing_messages_into_def)
  with host_engine_sends_legal_history [OF g(1), of "HostEntity 3 False"] show ?thesis by auto
qed

end
