(* ===== verification/Reliable_Receiver.thy ===== *)
theory Reliable_Receiver
  imports Wrapping_Number
begin

text \<open>
  \<^verbatim>\<open>shared/src/messages/channels/receivers/reliable_receiver.rs\<close>: the receiver of a reliable channel
  that drops duplicates with a sliding window of message indices. The lemmas show that over runs of
  any length, wraps of the 16-bit index included, every message is passed on exactly once.
\<close>

section \<open>The receiver\<close>

record 'm reliable_receiver =
  rr_oldest_received_message_index :: u16
  rr_record :: "(u16 \<times> bool) list"
  rr_incoming_messages :: "(u16 \<times> 'm) list"

definition rr_new :: "'m reliable_receiver" where
  "rr_new = \<lparr> rr_oldest_received_message_index = 0, rr_record = [], rr_incoming_messages = [] \<rparr>"

lemma word_step_down:
  fixes d :: "'a :: len word"
  assumes "d \<noteq> 0"
  shows "unat (d - 1) < unat d"
  using assms by (metis diff_less gr_zeroI unat_gt_0 unat_minus_one zero_less_one)

text \<open>
  The loop of \<^verbatim>\<open>buffer_message\<close> from \<^verbatim>\<open>current_index\<close> on: \<open>None\<close> when the message has been received
  before, else the record with the message marked. It ends because past the record the next index
  runs through all 16-bit numbers.
\<close>

function rr_buffer_loop :: "u16 \<Rightarrow> u16 \<Rightarrow> nat \<Rightarrow> (u16 \<times> bool) list \<Rightarrow> (u16 \<times> bool) list option" where
  "rr_buffer_loop oldest message_index current_index record =
     (if current_index < length record then
        (let (old_message_index, old_message) = record ! current_index in
         if old_message_index = message_index then
           (if \<not> old_message then Some (record[current_index := (old_message_index, True)]) else None)
         else rr_buffer_loop oldest message_index (Suc current_index) record)
      else
        (let next_message_index = oldest + of_nat current_index in
         if next_message_index = message_index then Some (record @ [(next_message_index, True)])
         else rr_buffer_loop oldest message_index (Suc current_index)
                (record @ [(next_message_index, False)])))"
  by auto
termination
proof (relation "measure (\<lambda>(oldest, message_index, current_index, record).
    if current_index < length record then 65536 + (length record - current_index)
    else unat (message_index - (oldest + of_nat current_index)))")
  fix oldest message_index :: u16 and c :: nat and rcd :: "(u16 \<times> bool) list" and x xa y
  assume c: "\<not> c < length rcd" and x: "x = oldest + of_nat c" "x \<noteq> message_index"
  let ?d = "message_index - (oldest + of_nat c)"
  have "message_index - (oldest + of_nat (Suc c)) = ?d - 1" by simp
  moreover have "unat (?d - 1) < unat ?d" using x by (intro word_step_down) auto
  ultimately have "unat (message_index - (oldest + of_nat (Suc c))) < unat ?d" by (simp only:)
  with c show "((oldest, message_index, Suc c, rcd @ [(x, False)]), oldest, message_index, c, rcd)
      \<in> measure (\<lambda>(oldest, message_index, current_index, record).
    if current_index < length record then 65536 + (length record - current_index)
    else unat (message_index - (oldest + of_nat current_index)))"
    by (simp del: of_nat_Suc)
qed (auto intro!: order_less_le_trans [OF unat_bound_u16])

declare rr_buffer_loop.simps [simp del]

text \<open>The loop of \<^verbatim>\<open>clear_old_messages\<close>.\<close>

fun rr_clear_loop :: "u16 \<Rightarrow> (u16 \<times> bool) list \<Rightarrow> u16 \<times> (u16 \<times> bool) list" where
  "rr_clear_loop oldest [] = (oldest, [])"
| "rr_clear_loop oldest ((i, received) # record) =
     (if received then rr_clear_loop (oldest + 1) record else (oldest, (i, received) # record))"

definition rr_clear_old_messages :: "'m reliable_receiver \<Rightarrow> 'm reliable_receiver" where
  "rr_clear_old_messages r =
     (let (oldest, record) = rr_clear_loop (rr_oldest_received_message_index r) (rr_record r)
      in r \<lparr> rr_oldest_received_message_index := oldest, rr_record := record \<rparr>)"

definition rr_buffer_message :: "u16 \<Rightarrow> 'm \<Rightarrow> 'm reliable_receiver \<Rightarrow> 'm reliable_receiver" where
  "rr_buffer_message message_index message r =
     (if sequence_less_than message_index (rr_oldest_received_message_index r) then r
      else case rr_buffer_loop (rr_oldest_received_message_index r) message_index 0 (rr_record r) of
        None \<Rightarrow> r
      | Some record \<Rightarrow> rr_clear_old_messages (r \<lparr> rr_record := record,
          rr_incoming_messages := rr_incoming_messages r @ [(message_index, message)] \<rparr>))"

definition rr_receive_messages :: "'m reliable_receiver \<Rightarrow> (u16 \<times> 'm) list \<times> 'm reliable_receiver" where
  "rr_receive_messages r = (rr_incoming_messages r, r \<lparr> rr_incoming_messages := [] \<rparr>)"

section \<open>The window\<close>

text \<open>
  Messages are numbered from 0 without wrapping; message \<open>i\<close> has the index \<open>of_nat i\<close>. When the
  messages \<open>R\<close> have arrived, all below \<open>n\<close> among them and \<open>n\<close> not, the record describes the messages
  from \<open>n\<close> to below \<open>n + len\<close>.
\<close>

definition rr_window :: "nat \<Rightarrow> nat \<Rightarrow> nat set \<Rightarrow> (u16 \<times> bool) list" where
  "rr_window n len R = map (\<lambda>i. (of_nat i, i \<in> R)) [n..<n + len]"

definition rr_conc :: "nat \<Rightarrow> nat \<Rightarrow> nat set \<Rightarrow> (u16 \<times> 'm) list \<Rightarrow> 'm reliable_receiver" where
  "rr_conc n len R inc =
     \<lparr> rr_oldest_received_message_index = of_nat n, rr_record = rr_window n len R, rr_incoming_messages = inc \<rparr>"

lemma length_rr_window [simp]: "length (rr_window n len R) = len"
  by (simp add: rr_window_def)

lemma nth_rr_window [simp]: "c < len \<Longrightarrow> rr_window n len R ! c = (of_nat (n + c), n + c \<in> R)"
  by (simp add: rr_window_def)

lemma rr_window_update: "c < len \<Longrightarrow> (rr_window n len R)[c := (of_nat (n + c), True)] = rr_window n len (insert (n + c) R)"
  by (rule nth_equalityI) (auto simp: nth_list_update)

lemma rr_window_snoc: "rr_window n len R @ [(of_nat (n + len), n + len \<in> R)] = rr_window n (Suc len) R"
  by (simp add: rr_window_def)

text \<open>Walking over slots of other messages.\<close>

lemma rr_buffer_loop_skip:
  assumes "p < n + 65536" "n + c \<le> p" "c \<le> len" "len \<le> 65536" "p - n < len" "p \<notin> R \<or> p \<in> R"
  shows "rr_buffer_loop (of_nat n) (of_nat p) c (rr_window n len R) =
    (if p \<in> R then None else Some (rr_window n len (insert p R)))"
  using assms
proof (induction "p - (n + c)" arbitrary: c)
  case 0
  then have "n + c = p" "c < len" by auto
  with 0 show ?case by (subst rr_buffer_loop.simps) (auto simp: rr_window_update simp flip: of_nat_add)
next
  case (Suc d)
  then have c: "c < len" "n + c \<noteq> p" "(of_nat (n + c) :: u16) \<noteq> of_nat p"
    by (auto simp: of_nat_u16_eq_iff simp del: of_nat_add)
  have "rr_buffer_loop (of_nat n) (of_nat p) c (rr_window n len R) =
      rr_buffer_loop (of_nat n) (of_nat p) (Suc c) (rr_window n len R)"
    using c by (subst rr_buffer_loop.simps) (simp del: of_nat_add)
  also have "\<dots> = (if p \<in> R then None else Some (rr_window n len (insert p R)))"
    using Suc c by (intro Suc.hyps) auto
  finally show ?case .
qed

lemma rr_buffer_loop_extend:
  assumes "n + len \<le> p" "p < n + 65536" "R \<subseteq> {..<n + len}"
  shows "rr_buffer_loop (of_nat n) (of_nat p) len (rr_window n len R) =
    Some (rr_window n (Suc (p - n)) (insert p R))"
  using assms
proof (induction "p - (n + len)" arbitrary: len)
  case 0
  then have p: "n + len = p" "p \<notin> R" by auto
  have "rr_window n len (insert p R) = rr_window n len R"
    using p by (auto simp: rr_window_def)
  moreover have "p - n = len" using p by auto
  moreover have "rr_buffer_loop (of_nat n) (of_nat p) len (rr_window n len R) =
      Some (rr_window n len R @ [(of_nat p, True)])"
    using p(1) by (subst rr_buffer_loop.simps) auto
  ultimately show ?case using rr_window_snoc [of n len "insert p R"] p(1) by simp
next
  case (Suc d)
  then have ne: "(of_nat n + of_nat len :: u16) \<noteq> of_nat p" and notin: "n + len \<notin> R"
    by (auto simp: of_nat_u16_eq_iff simp flip: of_nat_add)
  have "rr_buffer_loop (of_nat n) (of_nat p) len (rr_window n len R) =
      rr_buffer_loop (of_nat n) (of_nat p) (Suc len) (rr_window n (Suc len) R)"
    using ne notin rr_window_snoc [of n len R] by (subst rr_buffer_loop.simps) simp
  also have "\<dots> = Some (rr_window n (Suc (p - n)) (insert p R))"
    using Suc by (intro Suc.hyps) auto
  finally show ?case .
qed

text \<open>Walking over the whole record.\<close>

lemma rr_buffer_loop_pass:
  assumes "n + len \<le> p" "p < n + 65536" "c \<le> len"
  shows "rr_buffer_loop (of_nat n) (of_nat p) c (rr_window n len R) =
    rr_buffer_loop (of_nat n) (of_nat p) len (rr_window n len R)"
  using assms
proof (induction "len - c" arbitrary: c)
  case 0
  then show ?case by simp
next
  case (Suc d)
  then have c: "c < len" "(of_nat (n + c) :: u16) \<noteq> of_nat p"
    by (auto simp: of_nat_u16_eq_iff simp del: of_nat_add)
  have "rr_buffer_loop (of_nat n) (of_nat p) c (rr_window n len R) =
      rr_buffer_loop (of_nat n) (of_nat p) (Suc c) (rr_window n len R)"
    using c by (subst rr_buffer_loop.simps) (simp del: of_nat_add)
  also have "\<dots> = rr_buffer_loop (of_nat n) (of_nat p) len (rr_window n len R)"
    using Suc c by (intro Suc.hyps) auto
  finally show ?case .
qed

lemma rr_clear_loop_window:
  "\<exists>n' len'. rr_clear_loop (of_nat n) (rr_window n len R) = (of_nat n', rr_window n' len' R) \<and>
     n \<le> n' \<and> {n..<n'} \<subseteq> R \<and> (len' = 0 \<or> n' \<notin> R) \<and> n' + len' = n + len"
proof (induction len arbitrary: n)
  case 0
  then show ?case by (intro exI [of _ n] exI [of _ 0]) (simp add: rr_window_def)
next
  case (Suc len)
  have w: "rr_window n (Suc len) R = (of_nat n, n \<in> R) # rr_window (Suc n) len R"
    using upt_conv_Cons [of n "n + Suc len"] by (simp add: rr_window_def del: upt_Suc)
  show ?case
  proof (cases "n \<in> R")
    case True
    obtain n' len' where *: "rr_clear_loop (of_nat (Suc n)) (rr_window (Suc n) len R) = (of_nat n', rr_window n' len' R)"
        "Suc n \<le> n'" "{Suc n..<n'} \<subseteq> R" "len' = 0 \<or> n' \<notin> R" "n' + len' = Suc n + len"
      using Suc.IH [of "Suc n"] by blast
    have "{n..<n'} = insert n {Suc n..<n'}" using *(2) by auto
    with True * w show ?thesis by (intro exI [of _ n'] exI [of _ len']) (auto simp: add.commute)
  next
    case False
    with w show ?thesis by (intro exI [of _ n] exI [of _ "Suc len"]) simp
  qed
qed

section \<open>One arrival\<close>

text \<open>
  \<open>rr_state n R r\<close>: the receiver has received the messages \<open>R\<close> and \<open>n\<close> is the first that is missing.
\<close>

definition rr_state :: "nat \<Rightarrow> nat set \<Rightarrow> 'm reliable_receiver \<Rightarrow> bool" where
  "rr_state n R r = (\<exists>len. {..<n} \<subseteq> R \<and> n \<notin> R \<and> R \<subseteq> {..<n + len} \<and> len \<le> 32768 \<and>
     rr_oldest_received_message_index r = of_nat n \<and> rr_record r = rr_window n len R)"

lemma rr_state_new: "rr_state 0 {} rr_new"
  by (auto simp: rr_state_def rr_new_def rr_window_def)

lemma rr_state_unique: "rr_state n R r \<Longrightarrow> rr_state n' R r' \<Longrightarrow> n = n'"
  unfolding rr_state_def by (metis lessThan_iff linorder_neqE_nat subsetD)

lemma of_nat_u16_newer:
  assumes "p < n + 32768" "n < p + 32768"
  shows "sequence_less_than (of_nat p) (of_nat n) \<longleftrightarrow> p < n"
  using sequence_less_than_seq_at [OF assms, of 0] by simp

lemma rr_buffer_loop_window:
  assumes "n \<le> p" "p < n + 32768" "R \<subseteq> {..<n + len}" "len \<le> 32768"
  shows "rr_buffer_loop (of_nat n) (of_nat p) 0 (rr_window n len R) =
    (if p \<in> R then None else Some (rr_window n (max len (Suc (p - n))) (insert p R)))"
proof (cases "p < n + len")
  case True
  then have "max len (Suc (p - n)) = len" using assms(1) by auto
  with True assms rr_buffer_loop_skip [of p n 0 len R] show ?thesis by auto
next
  case False
  then have "max len (Suc (p - n)) = Suc (p - n)" "p \<notin> R" using assms by auto
  with False assms rr_buffer_loop_pass [of n len p 0 R] rr_buffer_loop_extend [of n len p R]
  show ?thesis by auto
qed

lemma rr_buffer_message_state:
  assumes st: "rr_state n R r" and win: "p < n + 32768" "n < p + 32768"
  shows "\<exists>n'. rr_state n' (insert p R) (rr_buffer_message (of_nat p) m r) \<and>
    rr_incoming_messages (rr_buffer_message (of_nat p) m r) =
      rr_incoming_messages r @ (if p \<in> R then [] else [(of_nat p, m)])"
proof -
  obtain len where len: "{..<n} \<subseteq> R" "n \<notin> R" "R \<subseteq> {..<n + len}" "len \<le> 32768"
      "rr_oldest_received_message_index r = of_nat n" "rr_record r = rr_window n len R"
    using st by (auto simp: rr_state_def)
  show ?thesis
  proof (cases "p \<in> R")
    case True
    then have "rr_buffer_message (of_nat p) m r = r"
      using len win rr_buffer_loop_window [of n p R len]
      by (auto simp: rr_buffer_message_def of_nat_u16_newer not_less)
    with True st show ?thesis by (auto simp: insert_absorb)
  next
    case False
    then have np: "n \<le> p" using len(1) by (meson lessThan_iff linorder_not_le subsetD)
    let ?len = "max len (Suc (p - n))"
    obtain n' len' where c: "rr_clear_loop (of_nat n) (rr_window n ?len (insert p R)) =
        (of_nat n', rr_window n' len' (insert p R))" "n \<le> n'" "{n..<n'} \<subseteq> insert p R"
        "len' = 0 \<or> n' \<notin> insert p R" "n' + len' = n + ?len"
      using rr_clear_loop_window by blast
    have "rr_buffer_message (of_nat p) m r = r \<lparr> rr_oldest_received_message_index := of_nat n',
        rr_record := rr_window n' len' (insert p R),
        rr_incoming_messages := rr_incoming_messages r @ [(of_nat p, m)] \<rparr>"
      using False len win np rr_buffer_loop_window [of n p R len] c(1)
      by (simp add: rr_buffer_message_def of_nat_u16_newer rr_clear_old_messages_def)
    moreover have sub: "insert p R \<subseteq> {..<n' + len'}" using len(3) c(5) np by auto
    moreover have "n' \<notin> insert p R" using c(4) sub by auto
    moreover have "{..<n'} \<subseteq> insert p R"
    proof -
      have "{..<n'} = {..<n} \<union> {n..<n'}" using c(2) by auto
      with len(1) c(3) show ?thesis by auto
    qed
    moreover have "len' \<le> 32768" using c(2,5) len(4) win(1) np by auto
    ultimately show ?thesis using False by (intro exI [of _ n']) (auto simp: rr_state_def)
  qed
qed

section \<open>Runs\<close>

text \<open>
  An arrival is a message number. It is in the window when it is less than half the 16-bit range
  away from the first missing message, in either direction.
\<close>

fun in_window :: "nat set \<Rightarrow> nat list \<Rightarrow> bool" where
  "in_window R [] = True"
| "in_window R (p # ps) =
     ((\<forall>n. {..<n} \<subseteq> R \<and> n \<notin> R \<longrightarrow> p < n + 32768 \<and> n < p + 32768) \<and> in_window (insert p R) ps)"

text \<open>The arrivals that have not arrived before, in order of arrival.\<close>

fun firsts :: "nat set \<Rightarrow> nat list \<Rightarrow> nat list" where
  "firsts R [] = []"
| "firsts R (p # ps) = (if p \<in> R then firsts R ps else p # firsts (insert p R) ps)"

lemma firsts_distinct: "distinct (firsts R ps) \<and> set (firsts R ps) = set ps - R"
  by (induction R ps rule: firsts.induct) auto

lemma rr_run:
  "rr_state n R r \<Longrightarrow> in_window R ps \<Longrightarrow>
   \<exists>n'. rr_state n' (R \<union> set ps) (fold (\<lambda>p. rr_buffer_message (of_nat p) (f p)) ps r) \<and>
     rr_incoming_messages (fold (\<lambda>p. rr_buffer_message (of_nat p) (f p)) ps r) =
       rr_incoming_messages r @ map (\<lambda>p. (of_nat p, f p)) (firsts R ps)"
proof (induction ps arbitrary: n R r)
  case Nil
  then show ?case by auto
next
  case (Cons p ps)
  have "{..<n} \<subseteq> R \<and> n \<notin> R" using Cons.prems(1) by (auto simp: rr_state_def)
  then have win: "p < n + 32768" "n < p + 32768" using Cons.prems(2) by auto
  obtain n1 where n1: "rr_state n1 (insert p R) (rr_buffer_message (of_nat p) (f p) r)"
      "rr_incoming_messages (rr_buffer_message (of_nat p) (f p) r) =
        rr_incoming_messages r @ (if p \<in> R then [] else [(of_nat p, f p)])"
    using rr_buffer_message_state [OF Cons.prems(1) win] by blast
  from Cons.IH [OF n1(1)] Cons.prems(2) n1(2) show ?case
    by (auto simp: insert_absorb)
qed

lemma in_window_small:
  assumes N: "N \<le> 32767"
  shows "\<forall>p\<in>set ps. p < N \<Longrightarrow> R \<subseteq> {..<N} \<Longrightarrow> in_window R ps"
proof (induction ps arbitrary: R)
  case Nil
  then show ?case by simp
next
  case (Cons p ps)
  have "p < N" using Cons.prems(1) by simp
  have "p < n + 32768 \<and> n < p + 32768" if "{..<n} \<subseteq> R" for n
  proof -
    have "n \<le> N" using that Cons.prems(2) by (metis lessThan_subset_iff order_trans)
    with N \<open>p < N\<close> show ?thesis by linarith
  qed
  moreover have "in_window (insert p R) ps"
    using Cons.prems by (intro Cons.IH) auto
  ultimately show ?case by simp
qed

section \<open>Properties\<close>

text \<open>
  C5. Exactly-once delivery of a reliable channel: however often and in whatever order the messages
  of a sender arrive, as long as each arrival is within half the 16-bit range of the first missing
  message, the receiver passes on every message that has arrived once, at its first arrival and with
  its own index. The run may be of any length: the 16-bit message index wraps any number of times.
\<close>

theorem reliable_receiver_exactly_once:
  assumes "in_window {} ps"
  shows "rr_incoming_messages (fold (\<lambda>p. rr_buffer_message (of_nat p) (f p)) ps rr_new) =
      map (\<lambda>p. (of_nat p, f p)) (firsts {} ps) \<and>
    distinct (firsts {} ps) \<and> set (firsts {} ps) = set ps"
  using rr_run [OF rr_state_new assms, of f] firsts_distinct [of "{}" ps] by (auto simp: rr_new_def)

theorem reliable_receiver_exactly_once_witness:
  "rr_incoming_messages (fold (\<lambda>p. rr_buffer_message (of_nat p) (p * p)) [1, 0, 1, 2, 0] rr_new) =
     [(1, 1), (0, 0), (2, 4)]"
proof -
  have "in_window {} [1, 0, 1, 2, 0]" by (rule in_window_small [of 3]) auto
  from reliable_receiver_exactly_once [OF this, of "\<lambda>p. p * p"] show ?thesis by simp
qed

end
