(* ===== verification/Receiver_Arrangers.thy ===== *)
theory Receiver_Arrangers
  imports Reliable_Receiver "HOL-Library.Multiset"
begin

text \<open>
  The arrangers of the reliable receivers, \<^verbatim>\<open>shared/src/messages/channels/receivers/\<close>:
  \<^verbatim>\<open>ordered_reliable_receiver.rs\<close>, \<^verbatim>\<open>sequenced_reliable_receiver.rs\<close>, \<^verbatim>\<open>unordered_reliable_receiver.rs\<close>,
  and the trait \<^verbatim>\<open>ReceiverArranger\<close> of \<^verbatim>\<open>reliable_message_receiver.rs\<close>, whose contract is the locale
  below. A message covers the indices from the first to the last of its fragments.
\<close>

section \<open>Ordered\<close>

datatype 'm message_slot = NotReceived | Received 'm | PreviousFragment

fun is_not_received :: "'m message_slot \<Rightarrow> bool" where
  "is_not_received NotReceived = True"
| "is_not_received _ = False"

record 'm ordered_arranger =
  oa_buffer :: "(u16 \<times> 'm message_slot) list"
  oa_messages_received :: u16

definition oa_new :: "'m ordered_arranger" where
  "oa_new = \<lparr> oa_buffer = [], oa_messages_received = 0 \<rparr>"

text \<open>The inner loop that marks the slots of the other fragments of a message.\<close>

function oa_mark :: "u16 \<Rightarrow> u16 \<Rightarrow> nat \<Rightarrow> (u16 \<times> 'm message_slot) list \<Rightarrow> (u16 \<times> 'm message_slot) list res" where
  "oa_mark end_message_index current_message_index current_index buffer =
     (if current_message_index = end_message_index then Inr buffer
      else if Suc current_index < length buffer then
        (let (old_message_index, old_message) = buffer ! Suc current_index in
         if is_not_received old_message
         then oa_mark end_message_index old_message_index (Suc current_index)
                (buffer[Suc current_index := (old_message_index, PreviousFragment)])
         else Inl (Panic ''Buffer should not have received message in slot''))
      else Inl (Panic ''Buffer should be instantiated to slot''))"
  by auto
termination by (relation "measure (\<lambda>(_, _, c, b). length b - c)") auto

text \<open>The loop that appends the slots of the other fragments of a message.\<close>

function oa_append :: "u16 \<Rightarrow> u16 \<Rightarrow> (u16 \<times> 'm message_slot) list \<Rightarrow> (u16 \<times> 'm message_slot) list" where
  "oa_append end_message_index next_message_index buffer =
     (if next_message_index = end_message_index then buffer
      else oa_append end_message_index (next_message_index + 1)
             (buffer @ [(next_message_index + 1, PreviousFragment)]))"
  by auto
termination
proof (relation "measure (\<lambda>(e, n, _). unat (e - n))")
  fix e n :: u16 and b :: "(u16 \<times> 'm message_slot) list"
  assume "n \<noteq> e"
  then have "unat (e - n - 1) < unat (e - n)" by (intro word_step_down) auto
  then show "((e, n + 1, b @ [(n + 1, PreviousFragment)]), e, n, b) \<in> measure (\<lambda>(e, n, _). unat (e - n))"
    by (simp add: diff_diff_eq)
qed simp

declare oa_mark.simps [simp del] oa_append.simps [simp del]

text \<open>The first loop of \<^verbatim>\<open>process\<close>, from \<^verbatim>\<open>current_index\<close> on.\<close>

function oa_place :: "u16 \<Rightarrow> u16 \<Rightarrow> u16 \<Rightarrow> 'm \<Rightarrow> nat \<Rightarrow> (u16 \<times> 'm message_slot) list \<Rightarrow> (u16 \<times> 'm message_slot) list res" where
  "oa_place messages_received start_message_index end_message_index message current_index buffer =
     (if current_index < length buffer then
        (let (old_message_index, old_message) = buffer ! current_index in
         if old_message_index = start_message_index then
           (if is_not_received old_message
            then oa_mark end_message_index start_message_index current_index
                   (buffer[current_index := (old_message_index, Received message)])
            else Inl (Panic ''Buffer should not have received message in slot''))
         else oa_place messages_received start_message_index end_message_index message
                (Suc current_index) buffer)
      else
        (let next_message_index = messages_received + of_nat current_index in
         if next_message_index = start_message_index
         then Inr (oa_append end_message_index next_message_index
                     (buffer @ [(next_message_index, Received message)]))
         else oa_place messages_received start_message_index end_message_index message
                (Suc current_index) (buffer @ [(next_message_index, NotReceived)])))"
  by auto
termination
proof (relation "measure (\<lambda>(received, start, _, _, c, b).
    if c < length b then 65536 + (length b - c) else unat (start - (received + of_nat c)))")
  fix received start e :: u16 and m :: 'm and c :: nat and b :: "(u16 \<times> 'm message_slot) list" and x
  assume c: "\<not> c < length b" and x: "x = received + of_nat c" "x \<noteq> start"
  let ?d = "start - (received + of_nat c)"
  have "start - (received + of_nat (Suc c)) = ?d - 1" by simp
  moreover have "unat (?d - 1) < unat ?d" using x by (intro word_step_down) auto
  ultimately have "unat (start - (received + of_nat (Suc c))) < unat ?d" by (simp only:)
  with c show "((received, start, e, m, Suc c, b @ [(x, NotReceived)]), received, start, e, m, c, b)
      \<in> measure (\<lambda>(received, start, _, _, c, b).
        if c < length b then 65536 + (length b - c) else unat (start - (received + of_nat c)))"
    by (simp del: of_nat_Suc)
qed (auto intro!: order_less_le_trans [OF unat_bound_u16])

declare oa_place.simps [simp del]

text \<open>The second loop of \<^verbatim>\<open>process\<close>, which pops the messages out in order.\<close>

fun oa_drop_fragments :: "u16 \<Rightarrow> (u16 \<times> 'm message_slot) list \<Rightarrow> u16 \<times> (u16 \<times> 'm message_slot) list" where
  "oa_drop_fragments received ((i, PreviousFragment) # buffer) = oa_drop_fragments (received + 1) buffer"
| "oa_drop_fragments received buffer = (received, buffer)"

lemma oa_drop_fragments_length: "length (snd (oa_drop_fragments received buffer)) \<le> length buffer"
  by (induction received buffer rule: oa_drop_fragments.induct) auto

function oa_pop :: "u16 \<Rightarrow> (u16 \<times> 'm message_slot) list \<Rightarrow> 'm list \<Rightarrow> 'm list \<times> u16 \<times> (u16 \<times> 'm message_slot) list" where
  "oa_pop received buffer output =
     (case buffer of
        (_, Received message) # rest \<Rightarrow>
          (let (received', rest') = oa_drop_fragments (received + 1) rest
           in oa_pop received' rest' (output @ [message]))
      | _ \<Rightarrow> (output, received, buffer))"
  by auto
termination
  by (relation "measure (\<lambda>(_, b, _). length b)")
    (auto, metis le_imp_less_Suc oa_drop_fragments_length snd_conv)

declare oa_pop.simps [simp del]

definition oa_process ::
  "u16 \<Rightarrow> u16 \<Rightarrow> 'm \<Rightarrow> 'm ordered_arranger \<Rightarrow> ('m list \<times> 'm ordered_arranger) res" where
  "oa_process start_message_index end_message_index message a =
     rbind (oa_place (oa_messages_received a) start_message_index end_message_index message 0 (oa_buffer a))
       (\<lambda>buffer.
         let (output, received, buffer) = oa_pop (oa_messages_received a) buffer [] in
         Inr (output, \<lparr> oa_buffer = buffer, oa_messages_received = received \<rparr>))"

section \<open>Sequenced\<close>

record sequenced_arranger =
  sa_newest_received_message_index :: u16

definition sa_new :: sequenced_arranger where
  "sa_new = \<lparr> sa_newest_received_message_index = 0 \<rparr>"

definition sa_process ::
  "u16 \<Rightarrow> u16 \<Rightarrow> 'm \<Rightarrow> sequenced_arranger \<Rightarrow> ('m list \<times> sequenced_arranger) res" where
  "sa_process start_message_index end_message_index message a =
     (if \<not> sequence_less_than start_message_index (sa_newest_received_message_index a)
      then Inr ([message], a \<lparr> sa_newest_received_message_index := end_message_index \<rparr>)
      else Inr ([], a))"

section \<open>Unordered\<close>

definition ua_process :: "u16 \<Rightarrow> u16 \<Rightarrow> 'm \<Rightarrow> unit \<Rightarrow> ('m list \<times> unit) res" where
  "ua_process start_message_index end_message_index message a = Inr ([message], a)"

section \<open>The loops of the ordered arranger\<close>

abbreviation missing :: "nat \<Rightarrow> nat \<Rightarrow> (u16 \<times> 'm message_slot) list" where
  "missing s t \<equiv> map (\<lambda>i. (of_nat i, NotReceived)) [s..<t]"

abbreviation fragments :: "nat \<Rightarrow> nat \<Rightarrow> (u16 \<times> 'm message_slot) list" where
  "fragments s t \<equiv> map (\<lambda>i. (of_nat i, PreviousFragment)) [s..<t]"

lemma of_nat_last_eq:
  "s < t \<Longrightarrow> t \<le> s + 65536 \<Longrightarrow> (of_nat s :: u16) = of_nat (t - 1) \<longleftrightarrow> t = Suc s"
  by (subst of_nat_u16_eq_iff) auto

lemma oa_mark_block:
  "s < t \<Longrightarrow> t \<le> s + 65536 \<Longrightarrow>
   oa_mark (of_nat (t - 1)) (of_nat s) (length pre) (pre @ x # missing (Suc s) t @ post) =
     Inr (pre @ x # fragments (Suc s) t @ post)"
proof (induction "t - s" arbitrary: s pre x)
  case 0
  then show ?case by simp
next
  case (Suc d)
  show ?case
  proof (cases "t = Suc s")
    case True
    then show ?thesis by (subst oa_mark.simps) simp
  next
    case False
    then have lt: "Suc s < t" using Suc.prems(1) by simp
    have up: "[Suc s..<t] = Suc s # [Suc (Suc s)..<t]" using lt by (rule upt_conv_Cons)
    have "(of_nat s :: u16) \<noteq> of_nat (t - 1)"
      using of_nat_last_eq [OF Suc.prems] False by simp
    then have "oa_mark (of_nat (t - 1)) (of_nat s) (length pre) (pre @ x # missing (Suc s) t @ post) =
        oa_mark (of_nat (t - 1)) (of_nat (Suc s)) (length (pre @ [x]))
          ((pre @ [x]) @ (of_nat (Suc s), PreviousFragment) # missing (Suc (Suc s)) t @ post)"
      by (subst oa_mark.simps) (simp add: up nth_append list_update_append)
    also have "\<dots> = Inr ((pre @ [x]) @ (of_nat (Suc s), PreviousFragment) # fragments (Suc (Suc s)) t @ post)"
      using Suc lt by (intro Suc.hyps) auto
    finally show ?thesis by (simp add: up)
  qed
qed

lemma oa_append_block:
  "s < t \<Longrightarrow> t \<le> s + 65536 \<Longrightarrow> oa_append (of_nat (t - 1)) (of_nat s) b = b @ fragments (Suc s) t"
proof (induction "t - s" arbitrary: s b)
  case 0
  then show ?case by simp
next
  case (Suc d)
  show ?case
  proof (cases "t = Suc s")
    case True
    then show ?thesis by (subst oa_append.simps) simp
  next
    case False
    then have lt: "Suc s < t" using Suc.prems(1) by simp
    have up: "[Suc s..<t] = Suc s # [Suc (Suc s)..<t]" using lt by (rule upt_conv_Cons)
    have "(of_nat s :: u16) \<noteq> of_nat (t - 1)"
      using of_nat_last_eq [OF Suc.prems] False by simp
    then have "oa_append (of_nat (t - 1)) (of_nat s) b =
        oa_append (of_nat (t - 1)) (of_nat (Suc s)) (b @ [(of_nat (Suc s), PreviousFragment)])"
      by (subst oa_append.simps) (simp add: add.commute)
    also have "\<dots> = (b @ [(of_nat (Suc s), PreviousFragment)]) @ fragments (Suc (Suc s)) t"
      using Suc lt by (intro Suc.hyps) auto
    finally show ?thesis by (simp add: up)
  qed
qed

lemma oa_place_skip:
  "\<forall>p\<in>set xs. fst p \<noteq> start \<Longrightarrow>
   oa_place rcv start e m (length pre) (pre @ xs @ rest) =
   oa_place rcv start e m (length (pre @ xs)) (pre @ xs @ rest)"
proof (induction xs arbitrary: pre)
  case Nil
  then show ?case by simp
next
  case (Cons x xs)
  have "oa_place rcv start e m (length pre) (pre @ (x # xs) @ rest) =
      oa_place rcv start e m (Suc (length pre)) (pre @ (x # xs) @ rest)"
    using Cons.prems by (subst oa_place.simps) (auto simp: nth_append split: prod.split)
  also have "\<dots> = oa_place rcv start e m (length (pre @ x # xs)) (pre @ (x # xs) @ rest)"
    using Cons.IH [of "pre @ [x]"] Cons.prems by simp
  finally show ?case .
qed

lemma oa_place_hit:
  assumes "s < t" "t \<le> s + 65536"
  shows "oa_place rcv (of_nat s) (of_nat (t - 1)) m (length pre) (pre @ missing s t @ post) =
    Inr (pre @ (of_nat s, Received m) # fragments (Suc s) t @ post)"
proof -
  have up: "[s..<t] = s # [Suc s..<t]" using assms(1) by (rule upt_conv_Cons)
  show ?thesis
    using oa_mark_block [OF assms, of pre "(of_nat s, Received m)" post]
    by (subst oa_place.simps) (simp add: up nth_append list_update_append)
qed

lemma oa_place_fill:
  assumes "s < t" "t \<le> q + 65536" "q \<le> s" "rcv + of_nat (length b) = of_nat q"
  shows "oa_place rcv (of_nat s) (of_nat (t - 1)) m (length b) b =
    Inr (b @ missing q s @ (of_nat s, Received m) # fragments (Suc s) t)"
  using assms
proof (induction "s - q" arbitrary: q b)
  case 0
  then show ?case
    using oa_append_block [of s t "b @ [(of_nat s, Received m)]"] by (subst oa_place.simps) simp
next
  case (Suc d)
  then have lt: "q < s" by simp
  then have up: "[q..<s] = q # [Suc q..<s]" by (rule upt_conv_Cons)
  have ne: "(of_nat q :: u16) \<noteq> of_nat s" using lt Suc.prems by (subst of_nat_u16_eq_iff) auto
  have "rcv + of_nat (length (b @ [(of_nat q, NotReceived)])) = of_nat (Suc q)"
    using Suc.prems(4) by (simp add: algebra_simps)
  then have "oa_place rcv (of_nat s) (of_nat (t - 1)) m (length (b @ [(of_nat q, NotReceived)])) (b @ [(of_nat q, NotReceived)]) =
      Inr ((b @ [(of_nat q, NotReceived)]) @ missing (Suc q) s @ (of_nat s, Received m) # fragments (Suc s) t)"
    using Suc lt by (intro Suc.hyps) auto
  then show ?case
    using ne Suc.prems(4) by (subst oa_place.simps) (simp add: up)
qed

section \<open>Blocks of a stream of messages\<close>

text \<open>
  A stream of messages: message \<open>k\<close> has the content \<open>M k\<close> and covers \<open>L k\<close> indices, the first of
  them being \<open>start L k\<close>, counted without wrapping. When the messages \<open>K\<close> have been received, the
  buffer holds the blocks of the messages from \<open>n\<close> to below \<open>n'\<close>.
\<close>

definition start :: "(nat \<Rightarrow> nat) \<Rightarrow> nat \<Rightarrow> nat" where
  "start L k = sum L {..<k}"

definition block :: "(nat \<Rightarrow> nat) \<Rightarrow> (nat \<Rightarrow> 'm) \<Rightarrow> nat set \<Rightarrow> nat \<Rightarrow> (u16 \<times> 'm message_slot) list" where
  "block L M K k = (if k \<in> K then (of_nat (start L k), Received (M k)) # fragments (Suc (start L k)) (start L (Suc k))
     else missing (start L k) (start L (Suc k)))"

definition blocks :: "(nat \<Rightarrow> nat) \<Rightarrow> (nat \<Rightarrow> 'm) \<Rightarrow> nat set \<Rightarrow> nat \<Rightarrow> nat \<Rightarrow> (u16 \<times> 'm message_slot) list" where
  "blocks L M K n n' = concat (map (block L M K) [n..<n'])"

lemma start_Suc: "start L (Suc k) = start L k + L k"
  by (simp add: start_def)

lemma start_mono: "k \<le> k' \<Longrightarrow> start L k \<le> start L k'"
  by (auto simp: start_def intro: sum_mono2)

lemma start_less: "\<forall>k. 0 < L k \<Longrightarrow> k < k' \<Longrightarrow> start L k < start L k'"
proof -
  assume "\<forall>k. 0 < L k" "k < k'"
  then have "start L (Suc k) \<le> start L k'" "0 < L k" by (simp_all add: start_mono)
  then show ?thesis by (simp add: start_Suc)
qed

lemma block_ids:
  assumes "\<forall>k. 0 < L k"
  shows "map fst (block L M K k) = map of_nat [start L k..<start L (Suc k)]"
proof -
  have "start L k < start L (Suc k)" using start_less [OF assms] by blast
  then have "[start L k..<start L (Suc k)] = start L k # [Suc (start L k)..<start L (Suc k)]"
    by (rule upt_conv_Cons)
  then show ?thesis by (simp add: block_def comp_def del: upt_Suc)
qed

lemma blocks_ids:
  assumes "\<forall>k. 0 < L k" "n \<le> n'"
  shows "map fst (blocks L M K n n') = map of_nat [start L n..<start L n']"
  using assms(2)
proof (induction n' rule: dec_induct)
  case base
  then show ?case by (simp add: blocks_def)
next
  case (step m)
  have "[start L n..<start L (Suc m)] = [start L n..<start L m] @ [start L m..<start L (Suc m)]"
    using start_mono [OF step.hyps(1), of L] start_mono [of m "Suc m" L] by (intro upt_split) auto
  with step show ?case by (simp add: blocks_def block_ids [OF assms(1)])
qed

lemma length_blocks:
  assumes "\<forall>k. 0 < L k" "n \<le> n'"
  shows "length (blocks L M K n n') = start L n' - start L n"
  using arg_cong [OF blocks_ids [OF assms, of M K], of length] by simp

lemma blocks_split:
  "n \<le> k \<Longrightarrow> k < n' \<Longrightarrow> blocks L M K n n' = blocks L M K n k @ block L M K k @ blocks L M K (Suc k) n'"
proof -
  assume "n \<le> k" "k < n'"
  then have "[n..<n'] = [n..<k] @ k # [Suc k..<n']"
    using upt_split [of n k n'] upt_conv_Cons [of k n'] by simp
  then show ?thesis by (simp add: blocks_def)
qed

lemma blocks_cong: "(\<And>k. n \<le> k \<Longrightarrow> k < n' \<Longrightarrow> (k \<in> K) = (k \<in> K')) \<Longrightarrow> blocks L M K n n' = blocks L M K' n n'"
  by (auto simp: blocks_def block_def intro!: arg_cong [where f = concat])

lemma blocks_missing:
  assumes "\<forall>k. 0 < L k" "n \<le> n'" "\<And>k. n \<le> k \<Longrightarrow> k < n' \<Longrightarrow> k \<notin> K"
  shows "blocks L M K n n' = missing (start L n) (start L n')"
  using assms(2,3)
proof (induction n' rule: dec_induct)
  case base
  then show ?case by (simp add: blocks_def)
next
  case (step m)
  have "[start L n..<start L (Suc m)] = [start L n..<start L m] @ [start L m..<start L (Suc m)]"
    using start_mono [OF step.hyps(1), of L] start_mono [of m "Suc m" L] by (intro upt_split) auto
  moreover have "blocks L M K n m = missing (start L n) (start L m)" "m \<notin> K"
    using step by auto
  ultimately show ?case using step.hyps(1) by (simp add: blocks_def block_def)
qed

text \<open>Placing a message that has not been received gives the blocks with it received.\<close>

lemma oa_place_blocks:
  assumes L: "\<forall>k. 0 < L k" and n: "n \<le> k" "n \<le> n'" and K: "k \<notin> K" "\<And>j. n' \<le> j \<Longrightarrow> j \<notin> K"
    and win: "start L (Suc k) \<le> start L n + 65536" "start L n' \<le> start L n + 65536"
  shows "oa_place (of_nat (start L n)) (of_nat (start L k)) (of_nat (start L (Suc k) - 1)) (M k) 0 (blocks L M K n n') =
    Inr (blocks L M (insert k K) n (max n' (Suc k)))"
proof -
  let ?s = "start L k" and ?t = "start L (Suc k)"
  have st: "?s < ?t" "?t \<le> ?s + 65536" "start L n \<le> ?s"
    using start_less [OF L, of k "Suc k"] start_mono [OF n(1), of L] win(1) by auto
  have ne: "fst p \<noteq> of_nat ?s" if "p \<in> set (blocks L M K n j)" "n \<le> j" "j \<le> k" "j \<le> n'" for p j
  proof -
    have "fst p \<in> of_nat ` {start L n..<start L j}"
      using that blocks_ids [OF L that(2), of M K] by (metis image_set list.set_map set_upt imageI)
    then obtain i where "fst p = of_nat i" "start L n \<le> i" "i < start L j" by auto
    moreover have "start L j \<le> ?s" by (rule start_mono [OF that(3)])
    ultimately show ?thesis using win(1) st by (subst \<open>fst p = of_nat i\<close>, subst of_nat_u16_eq_iff) auto
  qed
  show ?thesis
  proof (cases "k < n'")
    case True
    let ?pre = "blocks L M K n k" and ?post = "blocks L M K (Suc k) n'"
    have b: "blocks L M K n n' = ?pre @ missing ?s ?t @ ?post"
      using blocks_split [OF n(1) True, of L M K] K(1) by (simp add: block_def)
    have "oa_place (of_nat (start L n)) (of_nat ?s) (of_nat (?t - 1)) (M k) 0 (blocks L M K n n') =
        oa_place (of_nat (start L n)) (of_nat ?s) (of_nat (?t - 1)) (M k) (length ?pre) (?pre @ missing ?s ?t @ ?post)"
      using oa_place_skip [of ?pre "of_nat ?s" "of_nat (start L n)" "of_nat (?t - 1)" "M k" "[]" "missing ?s ?t @ ?post"]
        ne [OF _ n(1)] True by (simp add: b)
    also have "\<dots> = Inr (?pre @ (of_nat ?s, Received (M k)) # fragments (Suc ?s) ?t @ ?post)"
      by (rule oa_place_hit [OF st(1,2)])
    also have "?pre @ (of_nat ?s, Received (M k)) # fragments (Suc ?s) ?t @ ?post = blocks L M (insert k K) n n'"
      using blocks_split [OF n(1) True, of L M "insert k K"] blocks_cong [of n k K "insert k K" L M]
        blocks_cong [of "Suc k" n' K "insert k K" L M] by (simp add: block_def)
    finally show ?thesis using True by (simp add: max_absorb1)
  next
    case False
    let ?b = "blocks L M K n n'"
    have len: "(of_nat (start L n) :: u16) + of_nat (length ?b) = of_nat (start L n')"
      using length_blocks [OF L n(2), of M K] start_mono [OF n(2), of L] by (simp flip: of_nat_add)
    have "oa_place (of_nat (start L n)) (of_nat ?s) (of_nat (?t - 1)) (M k) 0 ?b =
        oa_place (of_nat (start L n)) (of_nat ?s) (of_nat (?t - 1)) (M k) (length ?b) ?b"
      using oa_place_skip [of ?b "of_nat ?s" "of_nat (start L n)" "of_nat (?t - 1)" "M k" "[]" "[]"]
        ne [OF _ n(2)] False by simp
    also have "\<dots> = Inr (?b @ missing (start L n') ?s @ (of_nat ?s, Received (M k)) # fragments (Suc ?s) ?t)"
      using st win(1) start_mono [OF n(2), of L] start_mono [of n' k L] False len
      by (intro oa_place_fill) auto
    also have "?b @ missing (start L n') ?s @ (of_nat ?s, Received (M k)) # fragments (Suc ?s) ?t =
        blocks L M (insert k K) n (Suc k)"
    proof -
      have "missing (start L n') ?s = blocks L M K n' k"
        using False K(2) by (intro blocks_missing [OF L, symmetric]) auto
      moreover have "?b @ blocks L M K n' k = blocks L M K n k"
        using False n(2) by (simp add: blocks_def upt_split [of n n' k])
      moreover have "blocks L M K n k @ (of_nat ?s, Received (M k)) # fragments (Suc ?s) ?t =
          blocks L M (insert k K) n (Suc k)"
        using n(1) blocks_cong [of n k K "insert k K" L M] by (simp add: blocks_def block_def)
      ultimately show ?thesis by (metis append.assoc)
    qed
    finally show ?thesis using False by (simp add: max_absorb2)
  qed
qed

lemma oa_drop_fragments_all:
  assumes "s \<le> t" "\<And>i r. rest = (i, PreviousFragment) # r \<Longrightarrow> False"
  shows "oa_drop_fragments (of_nat s) (fragments s t @ rest) = (of_nat t, rest)"
  using assms(1)
proof (induction "t - s" arbitrary: s)
  case 0
  then have "oa_drop_fragments (of_nat s) rest = (of_nat s, rest)"
    using assms(2) by (cases "(of_nat s :: u16, rest)" rule: oa_drop_fragments.cases) auto
  with 0 show ?case by simp
next
  case (Suc d)
  then have "[s..<t] = s # [Suc s..<t]" by (intro upt_conv_Cons) simp
  moreover have "oa_drop_fragments (of_nat (Suc s)) (fragments (Suc s) t @ rest) = (of_nat t, rest)"
    using Suc by (intro Suc.hyps) auto
  ultimately show ?case by (simp add: add.commute)
qed

lemma blocks_no_fragment_head:
  assumes "\<forall>k. 0 < L k" "blocks L M K n n' = (i, PreviousFragment) # r"
  shows False
proof (cases "n < n'")
  case True
  then have b: "blocks L M K n n' = block L M K n @ blocks L M K (Suc n) n'"
    using blocks_split [of n n n' L M K] by (simp add: blocks_def)
  have "start L n < start L (Suc n)" using start_less [OF assms(1)] by blast
  then have up: "[start L n..<start L (Suc n)] = start L n # [Suc (start L n)..<start L (Suc n)]"
    by (rule upt_conv_Cons)
  show ?thesis using assms(2) b by (auto simp: block_def up split: if_splits)
next
  case False
  with assms(2) show ?thesis by (simp add: blocks_def)
qed

text \<open>Popping releases the messages received without a gap.\<close>

lemma oa_pop_blocks:
  assumes L: "\<forall>k. 0 < L k"
  shows "n \<le> n' \<Longrightarrow> \<exists>n1. n \<le> n1 \<and> n1 \<le> n' \<and> {n..<n1} \<subseteq> K \<and> (n1 = n' \<or> n1 \<notin> K) \<and>
    oa_pop (of_nat (start L n)) (blocks L M K n n') out =
      (out @ map M [n..<n1], of_nat (start L n1), blocks L M K n1 n')"
proof (induction "n' - n" arbitrary: n out)
  case 0
  then show ?case by (intro exI [of _ n]) (auto simp: blocks_def oa_pop.simps)
next
  case (Suc d)
  then have lt: "n < n'" and d: "d = n' - Suc n" by simp_all
  then have b: "blocks L M K n n' = block L M K n @ blocks L M K (Suc n) n'"
    using blocks_split [of n n n' L M K] by (simp add: blocks_def)
  have st: "start L n < start L (Suc n)" using start_less [OF L] by blast
  then have up: "[start L n..<start L (Suc n)] = start L n # [Suc (start L n)..<start L (Suc n)]"
    by (rule upt_conv_Cons)
  show ?case
  proof (cases "n \<in> K")
    case True
    have "oa_drop_fragments (of_nat (Suc (start L n)))
        (fragments (Suc (start L n)) (start L (Suc n)) @ blocks L M K (Suc n) n') =
        (of_nat (start L (Suc n)), blocks L M K (Suc n) n')"
      using st blocks_no_fragment_head [OF L] by (intro oa_drop_fragments_all) auto
    then have "oa_pop (of_nat (start L n)) (blocks L M K n n') out =
        oa_pop (of_nat (start L (Suc n))) (blocks L M K (Suc n) n') (out @ [M n])"
      using True by (subst oa_pop.simps) (simp add: b block_def add.commute)
    moreover obtain n1 where "Suc n \<le> n1" "n1 \<le> n'" "{Suc n..<n1} \<subseteq> K" "n1 = n' \<or> n1 \<notin> K"
        "oa_pop (of_nat (start L (Suc n))) (blocks L M K (Suc n) n') (out @ [M n]) =
          ((out @ [M n]) @ map M [Suc n..<n1], of_nat (start L n1), blocks L M K n1 n')"
      using Suc.hyps(1) [OF d, of "out @ [M n]"] lt by auto
    moreover from this(1) have "{n..<n1} = insert n {Suc n..<n1}" "[n..<n1] = n # [Suc n..<n1]"
      by (auto simp: upt_conv_Cons)
    ultimately show ?thesis using True by (intro exI [of _ n1]) auto
  next
    case False
    then have "oa_pop (of_nat (start L n)) (blocks L M K n n') out =
        (out, of_nat (start L n), blocks L M K n n')"
      by (subst oa_pop.simps) (simp add: b block_def up)
    with False lt show ?thesis by (intro exI [of _ n]) auto
  qed
qed

section \<open>Runs of the ordered arranger\<close>

definition oa_state :: "(nat \<Rightarrow> nat) \<Rightarrow> (nat \<Rightarrow> 'm) \<Rightarrow> nat \<Rightarrow> nat set \<Rightarrow> 'm ordered_arranger \<Rightarrow> bool" where
  "oa_state L M n K a = (\<exists>n'. n \<le> n' \<and> {..<n} \<subseteq> K \<and> n \<notin> K \<and> K \<subseteq> {..<n'} \<and>
     start L n' \<le> start L n + 65536 \<and>
     a = \<lparr> oa_buffer = blocks L M K n n', oa_messages_received = of_nat (start L n) \<rparr>)"

lemma oa_state_new: "oa_state L M 0 {} oa_new"
  unfolding oa_state_def by (intro exI [of _ 0]) (simp add: oa_new_def blocks_def start_def)

lemma oa_process_state:
  assumes L: "\<forall>k. 0 < L k" and st: "oa_state L M n K a" and k: "k \<notin> K" "start L (Suc k) \<le> start L n + 65536"
  shows "\<exists>n1 a'. oa_state L M n1 (insert k K) a' \<and> n \<le> n1 \<and>
    oa_process (of_nat (start L k)) (of_nat (start L (Suc k) - 1)) (M k) a = Inr (map M [n..<n1], a')"
proof -
  obtain n' where n': "n \<le> n'" "{..<n} \<subseteq> K" "n \<notin> K" "K \<subseteq> {..<n'}" "start L n' \<le> start L n + 65536"
      "a = \<lparr> oa_buffer = blocks L M K n n', oa_messages_received = of_nat (start L n) \<rparr>"
    using st by (auto simp: oa_state_def)
  have nk: "n \<le> k" using n'(2) k(1) by (meson lessThan_iff linorder_not_le subsetD)
  let ?n' = "max n' (Suc k)"
  have place: "oa_place (of_nat (start L n)) (of_nat (start L k)) (of_nat (start L (Suc k) - 1)) (M k) 0
      (blocks L M K n n') = Inr (blocks L M (insert k K) n ?n')"
    using n' nk k by (intro oa_place_blocks [OF L]) auto
  have "n \<le> ?n'" using nk by simp
  then obtain n1 where n1: "n \<le> n1" "n1 \<le> ?n'" "{n..<n1} \<subseteq> insert k K" "n1 = ?n' \<or> n1 \<notin> insert k K"
      "oa_pop (of_nat (start L n)) (blocks L M (insert k K) n ?n') [] =
        (map M [n..<n1], of_nat (start L n1), blocks L M (insert k K) n1 ?n')"
    using oa_pop_blocks [OF L, of n ?n' "insert k K" M "[]"] unfolding append_Nil by blast
  have sub: "insert k K \<subseteq> {..<?n'}" using n'(4) by auto
  have "{..<n1} = {..<n} \<union> {n..<n1}" using n1(1) by auto
  then have "{..<n1} \<subseteq> insert k K" using n'(2) n1(3) by auto
  moreover have "n1 \<notin> insert k K" using n1(4) sub by auto
  moreover have "start L ?n' \<le> start L n1 + 65536"
    using n'(5) k(2) start_mono [OF n1(1), of L] by (auto simp: max_def)
  ultimately have "oa_state L M n1 (insert k K)
      \<lparr> oa_buffer = blocks L M (insert k K) n1 ?n', oa_messages_received = of_nat (start L n1) \<rparr>"
    using n1(2) sub by (auto simp: oa_state_def)
  moreover have "oa_process (of_nat (start L k)) (of_nat (start L (Suc k) - 1)) (M k) a =
      Inr (map M [n..<n1], \<lparr> oa_buffer = blocks L M (insert k K) n1 ?n', oa_messages_received = of_nat (start L n1) \<rparr>)"
    using place n1(5) by (simp add: oa_process_def n'(6))
  ultimately show ?thesis using n1(1) by blast
qed

text \<open>A run of an arranger: the messages in the order in which they are complete.\<close>

definition arrange ::
  "(u16 \<Rightarrow> u16 \<Rightarrow> 'm \<Rightarrow> 's \<Rightarrow> ('m list \<times> 's) res) \<Rightarrow> (u16 \<times> u16 \<times> 'm) list \<Rightarrow> 's \<Rightarrow> ('m list \<times> 's) res" where
  "arrange process ms s = rfold (\<lambda>(i, j, m) (out, s). rbind (process i j m s)
     (\<lambda>(out', s'). Inr (out @ out', s'))) ms ([], s)"

lemma arrange_from:
  "rfold (\<lambda>(i, j, m) (out, s). rbind (process i j m s) (\<lambda>(out', s'). Inr (out @ out', s'))) ms (out, s) =
   rbind (arrange process ms s) (\<lambda>(out', s'). Inr (out @ out', s'))"
proof (induction ms arbitrary: out s)
  case Nil
  then show ?case by (simp add: arrange_def)
next
  case (Cons p ms)
  obtain i j m where p: "p = (i, j, m)" by (cases p)
  show ?case
  proof (cases "process i j m s")
    case (Inr r)
    then show ?thesis
      using Cons.IH [of "out @ fst r" "snd r"] Cons.IH [of "fst r" "snd r"]
      by (cases r; cases "arrange process ms (snd r)") (auto simp: arrange_def p)
  qed (simp add: arrange_def p)
qed

lemma arrange_simps:
  "arrange process [] s = Inr ([], s)"
  "arrange process ((i, j, m) # ms) s = rbind (process i j m s) (\<lambda>(out, s').
     rbind (arrange process ms s') (\<lambda>(out', s''). Inr (out @ out', s'')))"
proof -
  show "arrange process [] s = Inr ([], s)" by (simp add: arrange_def)
  show "arrange process ((i, j, m) # ms) s = rbind (process i j m s) (\<lambda>(out, s').
     rbind (arrange process ms s') (\<lambda>(out', s''). Inr (out @ out', s'')))"
  proof (cases "process i j m s")
    case (Inr r)
    then show ?thesis using arrange_from [of process ms "fst r" "snd r"]
      by (cases r) (simp add: arrange_def)
  qed (simp add: arrange_def)
qed

text \<open>The messages numbered \<open>ks\<close> of a stream, with the indices they cover.\<close>

definition stream_items :: "(nat \<Rightarrow> nat) \<Rightarrow> (nat \<Rightarrow> 'm) \<Rightarrow> nat list \<Rightarrow> (u16 \<times> u16 \<times> 'm) list" where
  "stream_items L M ks = map (\<lambda>k. (of_nat (start L k), of_nat (start L (Suc k) - 1), M k)) ks"

text \<open>
  Every message is complete when its last index is less than the whole 16-bit range ahead of the
  first message that is still missing.
\<close>

fun arrives_in_range :: "(nat \<Rightarrow> nat) \<Rightarrow> nat set \<Rightarrow> nat list \<Rightarrow> bool" where
  "arrives_in_range L K [] = True"
| "arrives_in_range L K (k # ks) =
     ((\<forall>n. {..<n} \<subseteq> K \<and> n \<notin> K \<longrightarrow> start L (Suc k) \<le> start L n + 65536) \<and> arrives_in_range L (insert k K) ks)"

lemma oa_run:
  assumes L: "\<forall>k. 0 < L k"
  shows "oa_state L M n K a \<Longrightarrow> distinct ks \<Longrightarrow> set ks \<inter> K = {} \<Longrightarrow> arrives_in_range L K ks \<Longrightarrow>
    \<exists>n1 a'. oa_state L M n1 (K \<union> set ks) a' \<and> n \<le> n1 \<and>
      arrange oa_process (stream_items L M ks) a = Inr (map M [n..<n1], a')"
proof (induction ks arbitrary: n K a)
  case Nil
  then show ?case by (auto simp: arrange_simps stream_items_def)
next
  case (Cons k ks)
  have "{..<n} \<subseteq> K \<and> n \<notin> K" using Cons.prems(1) by (auto simp: oa_state_def)
  then have "start L (Suc k) \<le> start L n + 65536" using Cons.prems(4) by simp
  then obtain n1 a1 where 1: "oa_state L M n1 (insert k K) a1" "n \<le> n1"
      "oa_process (of_nat (start L k)) (of_nat (start L (Suc k) - 1)) (M k) a = Inr (map M [n..<n1], a1)"
    using oa_process_state [OF L Cons.prems(1), of k] Cons.prems(3) by auto
  obtain n2 a2 where 2: "oa_state L M n2 (insert k K \<union> set ks) a2" "n1 \<le> n2"
      "arrange oa_process (stream_items L M ks) a1 = Inr (map M [n1..<n2], a2)"
    using Cons.IH [OF 1(1)] Cons.prems by auto
  have "map M [n..<n1] @ map M [n1..<n2] = map M [n..<n2]"
    using upt_split [OF 1(2) 2(2)] by simp
  with 1 2 show ?case
    by (intro exI [of _ n2] exI [of _ a2]) (auto simp: stream_items_def arrange_simps)
qed

section \<open>The contract of the arrangers\<close>

text \<open>
  What \<^verbatim>\<open>ReliableMessageReceiver\<close> relies on: an arranger neither invents nor duplicates messages. \<open>held\<close>
  are the messages it keeps back.
\<close>

locale receiver_arranger =
  fixes process :: "u16 \<Rightarrow> u16 \<Rightarrow> 'm \<Rightarrow> 's \<Rightarrow> ('m list \<times> 's) res"
    and held :: "'s \<Rightarrow> 'm multiset"
  assumes process_conserves: "process i j m s = Inr (out, s') \<Longrightarrow> mset out + held s' \<subseteq># add_mset m (held s)"
begin

lemma arrange_conserves:
  "arrange process ms s = Inr (out, s') \<Longrightarrow>
   mset out + held s' \<subseteq># mset (map (\<lambda>p. snd (snd p)) ms) + held s"
proof (induction ms arbitrary: s out)
  case Nil
  then show ?case by (simp add: arrange_simps)
next
  case (Cons p ms)
  obtain i j m where p: "p = (i, j, m)" by (cases p)
  obtain out1 s1 out2 where *: "process i j m s = Inr (out1, s1)" "arrange process ms s1 = Inr (out2, s')"
      "out = out1 @ out2"
    using Cons.prems by (auto simp: p arrange_simps rbind_eq_Inr)
  have "mset out + held s' \<subseteq># mset out1 + (mset (map (\<lambda>p. snd (snd p)) ms) + held s1)"
    using Cons.IH [OF *(2)] *(3) by simp
  also have "\<dots> = mset (map (\<lambda>p. snd (snd p)) ms) + (mset out1 + held s1)" by (simp only: ac_simps)
  also have "\<dots> \<subseteq># mset (map (\<lambda>p. snd (snd p)) ms) + add_mset m (held s)"
    by (rule subset_mset.add_left_mono [OF process_conserves [OF *(1)]])
  finally show ?case by (simp add: p)
qed

end

text \<open>The messages an ordered arranger holds back.\<close>

fun slot_message :: "'m message_slot \<Rightarrow> 'm list" where
  "slot_message (Received m) = [m]"
| "slot_message _ = []"

fun slots_held :: "(u16 \<times> 'm message_slot) list \<Rightarrow> 'm multiset" where
  "slots_held [] = {#}"
| "slots_held ((i, s) # b) = mset (slot_message s) + slots_held b"

definition oa_held :: "'m ordered_arranger \<Rightarrow> 'm multiset" where
  "oa_held a = slots_held (oa_buffer a)"

lemma slots_held_append [simp]: "slots_held (b @ b') = slots_held b + slots_held b'"
  by (induction b rule: slots_held.induct) (auto simp: ac_simps)

lemma mset_slots_update:
  assumes "c < length b" "b ! c = (i, s)" "slot_message s = []"
  shows "slots_held (b[c := (j, s')]) = mset (slot_message s') + slots_held b"
proof -
  have b: "b = take c b @ (i, s) # drop (Suc c) b" using assms by (metis id_take_nth_drop)
  have "b[c := (j, s')] = take c b @ (j, s') # drop (Suc c) b" using assms(1) by (simp add: upd_conv_take_nth_drop)
  moreover have "slots_held b = slots_held (take c b) + slots_held (drop (Suc c) b)"
    using assms(3) by (subst b) simp
  ultimately show ?thesis by (simp add: ac_simps)
qed

lemma is_not_received_iff: "is_not_received s \<longleftrightarrow> s = NotReceived"
  by (cases s) auto

lemma oa_mark_mset:
  "oa_mark e i c b = Inr b' \<Longrightarrow>
   slots_held b' = slots_held b"
proof (induction e i c b arbitrary: b' rule: oa_mark.induct)
  case (1 e i c b)
  show ?case
  proof (cases "i = e")
    case True
    with 1(2) show ?thesis by (simp add: oa_mark.simps)
  next
    case False
    with 1(2) obtain j where len: "Suc c < length b" and nth: "b ! Suc c = (j, NotReceived)"
        and r: "oa_mark e j (Suc c) (b[Suc c := (j, PreviousFragment)]) = Inr b'"
      by (subst (asm) oa_mark.simps)
        (auto simp: is_not_received_iff split: if_splits prod.splits)
    have "slots_held b' =
        slots_held (b[Suc c := (j, PreviousFragment)])"
      using 1(1) [OF False len refl nth [symmetric]] r by simp
    with mset_slots_update [OF len nth] show ?thesis by simp
  qed
qed

lemma oa_append_mset:
  "slots_held (oa_append e i b) = slots_held b"
  by (induction e i b rule: oa_append.induct) (subst oa_append.simps, simp)

lemma oa_place_mset:
  "oa_place r i j m c b = Inr b' \<Longrightarrow>
   slots_held b' = add_mset m (slots_held b)"
proof (induction r i j m c b arbitrary: b' rule: oa_place.induct)
  case (1 r i j m c b)
  show ?case
  proof (cases "c < length b")
    case True
    obtain x y where nth: "b ! c = (x, y)" by (cases "b ! c")
    show ?thesis
    proof (cases "x = i")
      case x: True
      with 1(3) True nth have y: "y = NotReceived" and
        r: "oa_mark j i c (b[c := (x, Received m)]) = Inr b'"
        by (subst (asm) oa_place.simps, auto simp: is_not_received_iff split: if_splits)+
      from oa_mark_mset [OF r] mset_slots_update [OF True nth, of x "Received m"] y show ?thesis by simp
    next
      case False
      with 1(3) True nth have "oa_place r i j m (Suc c) b = Inr b'"
        by (subst (asm) oa_place.simps) simp
      with 1(1) [OF True refl nth [symmetric] False] show ?thesis by simp
    qed
  next
    case c: False
    show ?thesis
    proof (cases "r + of_nat c = i")
      case True
      with 1(3) c have "b' = oa_append j i (b @ [(i, Received m)])"
        by (subst (asm) oa_place.simps) simp
      then show ?thesis by (simp add: oa_append_mset)
    next
      case False
      with 1(3) c have "oa_place r i j m (Suc c) (b @ [(r + of_nat c, NotReceived)]) = Inr b'"
        by (subst (asm) oa_place.simps) simp
      with 1(2) [OF c refl False] show ?thesis by simp
    qed
  qed
qed

lemma oa_drop_fragments_mset:
  "slots_held (snd (oa_drop_fragments r b)) = slots_held b"
  by (induction r b rule: oa_drop_fragments.induct) auto

lemma oa_pop_mset:
  "oa_pop r b out = (out', r', b') \<Longrightarrow>
   mset out' + slots_held b' = mset out + slots_held b"
proof (induction r b out rule: oa_pop.induct)
  case (1 r b out)
  show ?case
  proof (cases "\<exists>i m rest. b = (i, Received m) # rest")
    case True
    then obtain i m rest where b: "b = (i, Received m) # rest" by blast
    obtain r1 rest1 where d: "oa_drop_fragments (r + 1) rest = (r1, rest1)" by fastforce
    have "oa_pop r1 rest1 (out @ [m]) = (out', r', b')"
      using 1(2) by (subst (asm) oa_pop.simps) (simp add: b d)
    with 1(1) [OF b refl refl d [symmetric] refl] oa_drop_fragments_mset [of "r + 1" rest] show ?thesis
      by (simp add: b d)
  next
    case False
    then have "oa_pop r b out = (out, r, b)"
      by (subst oa_pop.simps) (auto split: list.split prod.split message_slot.split)
    with 1(2) show ?thesis by simp
  qed
qed

lemma oa_process_conserves:
  assumes "oa_process i j m a = Inr (out, a')"
  shows "mset out + oa_held a' = add_mset m (oa_held a)"
proof -
  obtain b where b: "oa_place (oa_messages_received a) i j m 0 (oa_buffer a) = Inr b"
    using assms by (auto simp: oa_process_def rbind_eq_Inr)
  obtain out1 r1 b1 where p: "oa_pop (oa_messages_received a) b [] = (out1, r1, b1)" by (cases "oa_pop (oa_messages_received a) b []")
  show ?thesis
    using assms oa_place_mset [OF b] oa_pop_mset [OF p] by (auto simp: oa_process_def oa_held_def b p)
qed

interpretation ordered: receiver_arranger oa_process oa_held
  by unfold_locales (simp add: oa_process_conserves)

interpretation sequenced: receiver_arranger sa_process "\<lambda>_. {#}"
  by unfold_locales (auto simp: sa_process_def split: if_splits)

interpretation unordered: receiver_arranger ua_process "\<lambda>_. {#}"
  by unfold_locales (auto simp: ua_process_def)

section \<open>Runs of the sequenced arranger\<close>

definition supersedes :: "nat option \<Rightarrow> nat \<Rightarrow> bool" where
  "supersedes newest k = (case newest of None \<Rightarrow> True | Some j \<Rightarrow> j < k)"

definition newest_end :: "(nat \<Rightarrow> nat) \<Rightarrow> nat option \<Rightarrow> nat" where
  "newest_end L newest = (case newest of None \<Rightarrow> 0 | Some j \<Rightarrow> start L (Suc j) - 1)"

text \<open>The messages that are newer than all before them, in order of arrival.\<close>

fun maxima :: "nat option \<Rightarrow> nat list \<Rightarrow> nat list" where
  "maxima newest [] = []"
| "maxima newest (k # ks) = (if supersedes newest k then k # maxima (Some k) ks else maxima newest ks)"

text \<open>Every arrival is less than half the 16-bit range away from the newest message.\<close>

fun near_newest :: "(nat \<Rightarrow> nat) \<Rightarrow> nat option \<Rightarrow> nat list \<Rightarrow> bool" where
  "near_newest L newest [] = True"
| "near_newest L newest (k # ks) =
     (start L k < newest_end L newest + 32768 \<and> newest_end L newest < start L k + 32768 \<and>
      near_newest L (if supersedes newest k then Some k else newest) ks)"

lemma maxima_sorted: "sorted_wrt (<) (maxima newest ks) \<and> (\<forall>k\<in>set (maxima newest ks). supersedes newest k)"
proof (induction newest ks rule: maxima.induct)
  case (2 newest k ks)
  then show ?case by (cases newest) (auto simp: supersedes_def intro: less_trans)
qed simp

lemma newest_end_le:
  assumes "\<forall>k. 0 < L k" "newest \<noteq> Some k"
  shows "newest_end L newest \<le> start L k \<longleftrightarrow> supersedes newest k"
proof (cases newest)
  case (Some j)
  show ?thesis
  proof (cases "j < k")
    case True
    with start_mono [of "Suc j" k L] Some show ?thesis by (auto simp: newest_end_def supersedes_def)
  next
    case False
    then have "k < j" using assms Some by simp
    moreover have "start L j < start L (Suc j)" by (rule start_less [OF assms(1)]) simp
    ultimately show ?thesis using start_less [OF assms(1) \<open>k < j\<close>] Some
      by (auto simp: newest_end_def supersedes_def)
  qed
qed (simp add: newest_end_def supersedes_def)

lemma sa_run:
  assumes L: "\<forall>k. 0 < L k"
  shows "distinct ks \<Longrightarrow> (case newest of None \<Rightarrow> True | Some j \<Rightarrow> j \<notin> set ks) \<Longrightarrow> near_newest L newest ks \<Longrightarrow>
    sa_newest_received_message_index a = of_nat (newest_end L newest) \<Longrightarrow>
    \<exists>a'. arrange sa_process (stream_items L M ks) a = Inr (map M (maxima newest ks), a')"
proof (induction ks arbitrary: newest a)
  case Nil
  then show ?case by (simp add: arrange_simps stream_items_def)
next
  case (Cons k ks)
  have "newest \<noteq> Some k" using Cons.prems(2) by auto
  moreover have "sequence_less_than (of_nat (start L k)) (of_nat (newest_end L newest)) \<longleftrightarrow>
      start L k < newest_end L newest"
    using Cons.prems(3) by (intro of_nat_u16_newer) auto
  ultimately have less: "sequence_less_than (of_nat (start L k)) (sa_newest_received_message_index a) \<longleftrightarrow>
      \<not> supersedes newest k"
    using newest_end_le [OF L] Cons.prems(4) by (metis not_less)
  let ?a = "if supersedes newest k then a \<lparr> sa_newest_received_message_index := of_nat (start L (Suc k) - 1) \<rparr> else a"
  let ?n = "if supersedes newest k then Some k else newest"
  have "\<exists>a'. arrange sa_process (stream_items L M ks) ?a = Inr (map M (maxima ?n ks), a')"
    using Cons.prems by (intro Cons.IH) (auto simp: newest_end_def split: option.splits)
  moreover have "sa_process (of_nat (start L k)) (of_nat (start L (Suc k) - 1)) (M k) a =
      Inr (if supersedes newest k then [M k] else [], ?a)"
    using less by (simp add: sa_process_def)
  ultimately show ?case
    by (cases "supersedes newest k") (auto simp: arrange_simps stream_items_def)
qed

section \<open>Properties\<close>

text \<open>
  C6. Ordered delivery: the messages of a sender, each covering one index or, when it is fragmented,
  a run of consecutive indices, are complete in any order, each once. The ordered arranger never
  panics and has then passed on, in sending order, exactly the messages before the first one that is
  still missing. Indices wrap any number of times; every message is complete before the sender is a
  whole 16-bit range ahead of the first missing one.
\<close>

theorem ordered_arranger_in_sending_order:
  assumes "\<forall>k. 0 < L k" "distinct ks" "arrives_in_range L {} ks"
  shows "\<exists>n a. arrange oa_process (stream_items L M ks) oa_new = Inr (map M [0..<n], a) \<and>
    {..<n} \<subseteq> set ks \<and> n \<notin> set ks"
  using oa_run [OF assms(1) oa_state_new assms(2) _ assms(3), of M] by (auto simp: oa_state_def)

theorem ordered_arranger_in_sending_order_witness:
  "\<exists>a. arrange oa_process (stream_items (\<lambda>_. 2) (\<lambda>k. k * k) [1, 3, 0]) oa_new = Inr ([0, 1 :: nat], a)"
proof -
  have "arrives_in_range (\<lambda>_. 2) {} [1, 3, 0]" by (simp add: start_def)
  then obtain n a where *: "arrange oa_process (stream_items (\<lambda>_. 2) (\<lambda>k. k * k) [1, 3, 0]) oa_new =
      Inr (map (\<lambda>k. k * k) [0..<n], a)" "{..<n} \<subseteq> set [1, 3, 0 :: nat]" "n \<notin> set [1, 3, 0]"
    using ordered_arranger_in_sending_order [of "\<lambda>_. 2" "[1, 3, 0]" "\<lambda>k. k * k"] by auto
  have "\<not> 2 < n" using *(2) by auto
  then have "n = 2" using *(3) by auto
  with *(1) show ?thesis by (simp add: upt_rec)
qed

text \<open>
  C32. Sequenced delivery: the sequenced arranger passes on exactly the messages that are newer than
  every message before them, so what it passes on is strictly increasing in sending order, fragmented
  messages and index wraps included, as long as every arrival is within half the 16-bit range of the
  newest message.
\<close>

theorem sequenced_arranger_newest_only:
  assumes "\<forall>k. 0 < L k" "distinct ks" "near_newest L None ks"
  shows "(\<exists>a. arrange sa_process (stream_items L M ks) sa_new = Inr (map M (maxima None ks), a)) \<and>
    sorted_wrt (<) (maxima None ks)"
  using sa_run [OF assms(1,2) _ assms(3), of sa_new M] maxima_sorted [of None ks]
  by (simp add: sa_new_def newest_end_def)

theorem sequenced_arranger_newest_only_witness:
  "\<exists>a. arrange sa_process (stream_items (\<lambda>_. 2) (\<lambda>k. k * k) [1, 0, 3, 2]) sa_new = Inr ([1, 9], a)"
  using sequenced_arranger_newest_only [of "\<lambda>_. 2" "[1, 0, 3, 2]" "\<lambda>k. k * k"]
  by (simp add: start_def newest_end_def supersedes_def)

text \<open>
  No arranger duplicates or invents a message: what the ordered, the sequenced and the unordered
  arranger pass on of a run, together with what the ordered one still holds, is part of what was
  handed to them.
\<close>

theorem arrangers_at_most_once:
  "(arrange oa_process ms oa_new = Inr (out1, a1) \<longrightarrow>
      mset out1 + oa_held a1 \<subseteq># mset (map (\<lambda>p. snd (snd p)) ms)) \<and>
   (arrange sa_process ms sa_new = Inr (out2, a2) \<longrightarrow> mset out2 \<subseteq># mset (map (\<lambda>p. snd (snd p)) ms)) \<and>
   (arrange ua_process ms () = Inr (out3, a3) \<longrightarrow> mset out3 \<subseteq># mset (map (\<lambda>p. snd (snd p)) ms))"
  using ordered.arrange_conserves [of ms oa_new out1 a1] sequenced.arrange_conserves [of ms sa_new out2 a2]
    unordered.arrange_conserves [of ms "()" out3 a3]
  by (auto simp: oa_held_def oa_new_def)

theorem arrangers_at_most_once_witness:
  "\<exists>out a. arrange oa_process [(0, 0, True)] oa_new = Inr (out, a) \<and> mset out + oa_held a \<subseteq># {#True#}"
proof -
  have "arrange oa_process [(0, 0, True)] oa_new = Inr ([True], \<lparr> oa_buffer = [], oa_messages_received = 1 \<rparr>)"
    by (simp add: arrange_simps oa_process_def oa_new_def oa_place.simps oa_append.simps oa_pop.simps)
  then show ?thesis using arrangers_at_most_once [of "[(0, 0, True)]"] by auto
qed

end
