(* ===== verification/Sequence_Buffer.thy ===== *)
theory Sequence_Buffer
  imports Wrapping_Number
begin

text \<open>
  \<^verbatim>\<open>shared/src/connection/sequence_buffer.rs\<close>: the ring buffer of the sequence numbers received last.
  The lemmas give an unwrapped meaning to its content: no entry ever stands for a number that was
  not inserted, and an entry of the last \<open>len\<close> numbers is kept as long as these do not cross the wrap
  of the 16-bit numbers.
\<close>

section \<open>The buffer\<close>

record 'a sequence_buffer =
  sb_sequence_num :: u16
  sb_entry_sequences :: "u16 option list"
  sb_entries :: "'a option list"

definition sb_with_capacity :: "nat \<Rightarrow> 'a sequence_buffer" where
  "sb_with_capacity n =
     \<lparr> sb_sequence_num = 0, sb_entry_sequences = replicate n None, sb_entries = replicate n None \<rparr>"

definition sb_index :: "u16 \<Rightarrow> 'a sequence_buffer \<Rightarrow> nat" where
  "sb_index sequence b = unat sequence mod length (sb_entry_sequences b)"

definition sb_exists :: "u16 \<Rightarrow> 'a sequence_buffer \<Rightarrow> bool" where
  "sb_exists sequence_num b =
     (case sb_entry_sequences b ! sb_index sequence_num b of Some s \<Rightarrow> s = sequence_num | None \<Rightarrow> False)"

definition sb_remove :: "u16 \<Rightarrow> 'a sequence_buffer \<Rightarrow> 'a option \<times> 'a sequence_buffer" where
  "sb_remove sequence_num b =
     (if sb_exists sequence_num b then
        (let i = sb_index sequence_num b in
         (sb_entries b ! i,
          b \<lparr> sb_entries := (sb_entries b)[i := None], sb_entry_sequences := (sb_entry_sequences b)[i := None] \<rparr>))
      else (None, b))"

text \<open>The sequences are \<^verbatim>\<open>u32\<close> here; the cast back drops the wrap.\<close>

definition sb_remove_entries :: "nat \<Rightarrow> 'a sequence_buffer \<Rightarrow> 'a sequence_buffer" where
  "sb_remove_entries finish_sequence b =
     (let start_sequence = unat (sb_sequence_num b);
          finish_sequence = (if finish_sequence < start_sequence then finish_sequence + 65536 else finish_sequence)
      in if finish_sequence - start_sequence < length (sb_entry_sequences b) then
           fold (\<lambda>sequence b. snd (sb_remove (of_nat sequence) b)) [start_sequence..<finish_sequence + 1] b
         else
           b \<lparr> sb_entries := map (\<lambda>_. None) (sb_entries b),
               sb_entry_sequences := map (\<lambda>_. None) (sb_entry_sequences b) \<rparr>)"

definition sb_advance_sequence :: "u16 \<Rightarrow> 'a sequence_buffer \<Rightarrow> 'a sequence_buffer" where
  "sb_advance_sequence sequence_num b =
     (if sequence_greater_than (sequence_num + 1) (sb_sequence_num b)
      then (sb_remove_entries (unat sequence_num) b) \<lparr> sb_sequence_num := sequence_num + 1 \<rparr>
      else b)"

definition sb_insert :: "u16 \<Rightarrow> 'a \<Rightarrow> 'a sequence_buffer \<Rightarrow> bool \<times> 'a sequence_buffer" where
  "sb_insert sequence_num entry b =
     (if sequence_less_than sequence_num (sb_sequence_num b - of_nat (length (sb_entry_sequences b))) then (False, b)
      else
        (let b = sb_advance_sequence sequence_num b; i = sb_index sequence_num b
         in (True, b \<lparr> sb_entry_sequences := (sb_entry_sequences b)[i := Some sequence_num],
                       sb_entries := (sb_entries b)[i := Some entry] \<rparr>)))"

section \<open>The content\<close>

text \<open>
  \<open>sb_ok L N R b\<close>: the buffer has \<open>L\<close> slots, \<open>N\<close> is one past the newest number inserted, and every
  entry stands for an inserted number of \<open>R\<close> that is less than a whole range old.
\<close>

definition sb_ok :: "nat \<Rightarrow> nat \<Rightarrow> nat set \<Rightarrow> 'a sequence_buffer \<Rightarrow> bool" where
  "sb_ok L N R b \<longleftrightarrow> length (sb_entry_sequences b) = L \<and> sb_sequence_num b = of_nat N \<and>
     (\<forall>j<L. \<forall>s. sb_entry_sequences b ! j = Some s \<longrightarrow>
        (\<exists>p\<in>R. s = of_nat p \<and> p < N \<and> N \<le> p + 65536 \<and> j = unat s mod L))"

lemma sb_ok_new: "sb_ok L 0 {} (sb_with_capacity L)"
  by (simp add: sb_ok_def sb_with_capacity_def)

lemma sb_remove_fields [simp]:
  "length (sb_entry_sequences (snd (sb_remove s b))) = length (sb_entry_sequences b)"
  "sb_sequence_num (snd (sb_remove s b)) = sb_sequence_num b"
  by (simp_all add: sb_remove_def Let_def)

lemma sb_remove_nth:
  assumes "0 < length (sb_entry_sequences b)"
  shows "sb_entry_sequences (snd (sb_remove s b)) ! j = Some t \<Longrightarrow> j < length (sb_entry_sequences b) \<Longrightarrow>
    sb_entry_sequences b ! j = Some t \<and> (j = unat t mod length (sb_entry_sequences b) \<longrightarrow> t \<noteq> s)"
  using assms
  by (auto simp: sb_remove_def sb_exists_def sb_index_def Let_def nth_list_update split: if_splits option.splits)

abbreviation remove_all :: "nat list \<Rightarrow> 'a sequence_buffer \<Rightarrow> 'a sequence_buffer" where
  "remove_all xs b \<equiv> fold (\<lambda>s b. snd (sb_remove (of_nat s) b)) xs b"

lemma fold_remove:
  assumes "0 < length (sb_entry_sequences b)"
  shows "length (sb_entry_sequences (remove_all xs b)) = length (sb_entry_sequences b) \<and>
    (\<forall>j<length (sb_entry_sequences b). \<forall>t. sb_entry_sequences (remove_all xs b) ! j = Some t \<longrightarrow>
      sb_entry_sequences b ! j = Some t \<and>
      (j = unat t mod length (sb_entry_sequences b) \<longrightarrow> t \<notin> of_nat ` set xs))"
  using assms
proof (induction xs arbitrary: b)
  case (Cons x xs)
  let ?b = "snd (sb_remove (of_nat x) b)"
  have "0 < length (sb_entry_sequences ?b)" using Cons.prems by simp
  from Cons.IH [OF this] sb_remove_nth [OF Cons.prems, of "of_nat x"] show ?case by (auto)
qed simp

lemma of_nat_u16_mod: "(of_nat n :: u16) = of_nat (n mod 65536)"
  by (simp add: word_unat_eq_iff unat_of_nat)

text \<open>Advancing from \<open>N\<close> to one past \<open>p\<close> drops every entry that gets a whole range old.\<close>

lemma sb_remove_entries_unwrapped:
  assumes "sb_sequence_num b = of_nat N" "N \<le> p" "p < N + 65536"
  shows "sb_remove_entries (unat (of_nat p :: u16)) b =
    (if p - N < length (sb_entry_sequences b) then remove_all [N mod 65536..<Suc (N mod 65536 + (p - N))] b
     else b \<lparr> sb_entries := map (\<lambda>_. None) (sb_entries b),
              sb_entry_sequences := map (\<lambda>_. None) (sb_entry_sequences b) \<rparr>)"
proof -
  define S F where "S = N mod 65536" and "F = p mod 65536"
  have "F = (S + (p - N)) mod 65536"
    unfolding S_def F_def using assms(2) by (metis le_add_diff_inverse mod_add_left_eq)
  moreover have "S < 65536" "p - N < 65536" using assms(3) by (auto simp: S_def)
  ultimately have g: "(if F < S then F + 65536 else F) = S + (p - N)" by (auto simp: mod_if split: if_splits)
  have u: "unat (sb_sequence_num b) = S" "unat (of_nat p :: u16) = F"
    using assms(1) by (simp_all add: unat_of_nat S_def F_def)
  show ?thesis unfolding sb_remove_entries_def u Let_def g by (simp add: S_def)
qed

lemma sb_ok_remove_all:
  assumes ok: "sb_ok L N R b" and L: "0 < L" and p: "N \<le> p" "p < N + 65536"
    and j: "j < L" "sb_entry_sequences (remove_all [N mod 65536..<Suc (N mod 65536 + (p - N))] b) ! j = Some t"
  shows "\<exists>q\<in>R. t = of_nat q \<and> q < Suc p \<and> Suc p \<le> q + 65536 \<and> j = unat t mod L"
proof -
  let ?xs = "[N mod 65536..<Suc (N mod 65536 + (p - N))]"
  have len: "length (sb_entry_sequences b) = L" using ok by (auto simp: sb_ok_def)
  have old: "sb_entry_sequences b ! j = Some t" "j = unat t mod L \<longrightarrow> t \<notin> of_nat ` set ?xs"
    using fold_remove [of b ?xs] j len L by auto
  obtain q where q: "q \<in> R" "t = of_nat q" "q < N" "N \<le> q + 65536" "j = unat t mod L"
    using ok j(1) old(1) by (auto simp: sb_ok_def)
  have "Suc p \<le> q + 65536"
  proof (rule ccontr)
    assume "\<not> Suc p \<le> q + 65536"
    then have "N mod 65536 + (q + 65536 - N) \<in> set ?xs" using q(4) by auto
    moreover have "(N mod 65536 + (q + 65536 - N)) mod 65536 = q mod 65536"
      by (subst mod_add_left_eq) (use q(4) in simp)
    then have "of_nat (N mod 65536 + (q + 65536 - N)) = t" using q(2) of_nat_u16_mod by metis
    ultimately show False using old(2) q(5) by blast
  qed
  with q p show ?thesis by auto
qed

lemma sb_remove_entries_ok:
  assumes ok: "sb_ok L N R b" and L: "0 < L" and p: "N \<le> p" "p < N + 65536"
  shows "sb_ok L (Suc p) R ((sb_remove_entries (unat (of_nat p :: u16)) b) \<lparr> sb_sequence_num := of_nat p + 1 \<rparr>)"
proof -
  have b: "length (sb_entry_sequences b) = L" "sb_sequence_num b = of_nat N" using ok by (auto simp: sb_ok_def)
  show ?thesis
  proof (cases "p - N < L")
    case True
    let ?b = "remove_all [N mod 65536..<Suc (N mod 65536 + (p - N))] b"
    have "length (sb_entry_sequences ?b) = L" using fold_remove [of b] b L by simp
    with sb_ok_remove_all [OF assms] True b show ?thesis
      by (simp add: sb_ok_def sb_remove_entries_unwrapped [OF b(2) p])
  next
    case False
    with b show ?thesis by (simp add: sb_ok_def sb_remove_entries_unwrapped [OF b(2) p])
  qed
qed

text \<open>
  The comparisons of an arrival that is within half the range of the newest number.
\<close>

lemma sb_compare:
  assumes "p + L < N + 32768" "N < p + 32768" "0 < L"
  shows "sequence_less_than (of_nat p) (of_nat N - of_nat L) \<longleftrightarrow> p + L < N"
    and "sequence_greater_than (of_nat p + 1) (of_nat N) \<longleftrightarrow> N \<le> p"
proof -
  have 1: "sequence_less_than (- of_nat L + of_nat (p + L)) (- of_nat L + of_nat N) \<longleftrightarrow> p + L < N"
    using assms by (intro sequence_less_than_seq_at) auto
  then show "sequence_less_than (of_nat p) (of_nat N - of_nat L) \<longleftrightarrow> p + L < N" by simp
  show "sequence_greater_than (of_nat p + 1) (of_nat N) \<longleftrightarrow> N \<le> p"
    using sequence_greater_than_seq_at [of "Suc p" N 0] assms by (auto simp: add.commute)
qed

lemma sb_put_ok:
  assumes "sb_ok L N R b" "0 < L" "p < N" "N \<le> p + 65536"
  shows "sb_ok L N (insert p R) (b \<lparr> sb_entry_sequences := (sb_entry_sequences b)[sb_index (of_nat p) b := Some (of_nat p)],
    sb_entries := e \<rparr>)"
  using assms by (auto simp: sb_ok_def sb_index_def nth_list_update)

lemma sb_ok_insert: "sb_ok L N R b \<Longrightarrow> sb_ok L N (insert p R) b"
  by (fastforce simp: sb_ok_def)

lemma sb_insert_ok:
  assumes ok: "sb_ok L N R b" and L: "0 < L" and near: "p + L < N + 32768" "N < p + 32768"
  shows "sb_ok L (max N (Suc p)) (insert p R) (snd (sb_insert (of_nat p) x b))"
proof -
  have b: "length (sb_entry_sequences b) = L" "sb_sequence_num b = of_nat N" using ok by (auto simp: sb_ok_def)
  note cmp = sb_compare [OF near L]
  show ?thesis
  proof (cases "p + L < N")
    case True
    then have "max N (Suc p) = N" by simp
    with True cmp b ok show ?thesis by (simp add: sb_insert_def sb_ok_insert)
  next
    case False
    show ?thesis
    proof (cases "N \<le> p")
      case True
      have "sb_ok L (Suc p) R (sb_advance_sequence (of_nat p) b)"
        using sb_remove_entries_ok [OF ok L True] near cmp b True by (simp add: sb_advance_sequence_def)
      moreover have "max N (Suc p) = Suc p" using True by simp
      ultimately show ?thesis using sb_put_ok [of L "Suc p" R _ p] L False cmp b by (simp add: sb_insert_def Let_def)
    next
      case n: False
      have "sb_advance_sequence (of_nat p) b = b" using cmp b n by (simp add: sb_advance_sequence_def)
      moreover have "max N (Suc p) = N" using n by simp
      ultimately show ?thesis using sb_put_ok [OF ok L, of p] False cmp b n near by (simp add: sb_insert_def Let_def)
    qed
  qed
qed

lemma sb_exists_in:
  assumes "sb_ok L N R b" "0 < L" "sb_exists s b"
  shows "\<exists>p\<in>R. s = of_nat p \<and> p < N \<and> N \<le> p + 65536"
proof -
  have "unat s mod L < L" using assms(2) by simp
  with assms show ?thesis by (force simp: sb_ok_def sb_exists_def sb_index_def split: option.splits)
qed

section \<open>Completeness away from the wrap\<close>

text \<open>
  The inserted numbers that the buffer must still hold: not \<open>L\<close> old, in the same run of 65536 numbers as
  the newest, and not among the first \<open>L\<close> of that run unless it is the first run.
\<close>

definition must_hold :: "nat \<Rightarrow> nat \<Rightarrow> nat \<Rightarrow> bool" where
  "must_hold L N p \<longleftrightarrow> p < N \<and> N \<le> p + L \<and> N \<le> (p div 65536 + 1) * 65536 \<and> (p < 65536 \<or> L \<le> p mod 65536)"

definition sb_complete :: "nat \<Rightarrow> nat \<Rightarrow> nat set \<Rightarrow> 'a sequence_buffer \<Rightarrow> bool" where
  "sb_complete L N R b \<longleftrightarrow> (\<forall>p\<in>R. must_hold L N p \<longrightarrow> sb_entry_sequences b ! (unat (of_nat p :: u16) mod L) = Some (of_nat p))"

lemma sb_complete_new: "sb_complete L 0 {} b"
  by (simp add: sb_complete_def)

lemma must_hold_mono: "must_hold L N' p \<Longrightarrow> p < N \<Longrightarrow> N \<le> N' \<Longrightarrow> must_hold L N p"
  by (auto simp: must_hold_def)

lemma must_hold_other_slot:
  assumes m: "must_hold L N p" and q: "q < N" "N \<le> q + L" "q \<noteq> p" and L: "L \<le> 32768"
  shows "unat (of_nat q :: u16) mod L \<noteq> unat (of_nat p :: u16) mod L"
proof -
  define k where "k = p div 65536"
  have p: "p = 65536 * k + p mod 65536" by (simp add: k_def)
  have pN: "N \<le> 65536 * k + 65536" using m by (simp add: must_hold_def k_def)
  have "65536 * k \<le> q"
  proof (cases "k = 0")
    case False
    then have "L \<le> p mod 65536" using m p by (auto simp: must_hold_def k_def)
    then show ?thesis using p m q by (simp add: must_hold_def)
  qed simp
  then obtain r where r: "q = 65536 * k + r" by (metis le_add_diff_inverse)
  obtain s where s: "p = 65536 * k + s" "s < 65536" using p by (metis mod_less_divisor zero_less_numeral)
  have rs: "q = 65536 * k + r" "p = 65536 * k + s" "r < 65536" "s < 65536" using r s q(1) pN by auto
  have u: "unat (of_nat q :: u16) = r" "unat (of_nat p :: u16) = s"
    using rs by (simp_all add: unat_of_nat del: of_nat_add of_nat_mult)
  have d: "r < s + L" "s < r + L" "r \<noteq> s" using rs m q by (auto simp: must_hold_def)
  have "r mod L \<noteq> s mod L"
  proof
    assume "r mod L = s mod L"
    then have "L dvd s - r" "L dvd r - s"
      by (metis diff_is_0_eq' dvd_0_right linear mod_eq_dvd_iff_nat)+
    with d show False by (cases "r \<le> s") (auto dest!: dvd_imp_le)
  qed
  with u show ?thesis by simp
qed

lemma remove_all_keeps:
  assumes "0 < L" "t \<notin> of_nat ` set xs" "length (sb_entry_sequences b) = L" "j < L" "sb_entry_sequences b ! j = Some t"
  shows "sb_entry_sequences (remove_all xs b) ! j = Some t"
  using assms(2-)
proof (induction xs arbitrary: b)
  case (Cons x xs)
  have "sb_entry_sequences (snd (sb_remove (of_nat x) b)) ! j = Some t"
    using Cons.prems assms(1)
    by (auto simp: sb_remove_def sb_exists_def sb_index_def Let_def nth_list_update split: option.splits)
  with Cons show ?case by simp
qed simp

lemma sb_complete_advance:
  assumes ok: "sb_ok L N R b" and c: "sb_complete L N R b" and L: "0 < L" "L \<le> 32768" and R: "R \<subseteq> {..<N}"
    and p: "N \<le> p" "p < N + 32768"
  shows "sb_complete L (Suc p) R ((sb_remove_entries (unat (of_nat p :: u16)) b) \<lparr> sb_sequence_num := x \<rparr>)"
  unfolding sb_complete_def
proof (intro ballI impI)
  fix q assume q: "q \<in> R" "must_hold L (Suc p) q"
  have b: "length (sb_entry_sequences b) = L" "sb_sequence_num b = of_nat N" using ok by (auto simp: sb_ok_def)
  have qN: "q < N" using q(1) R by auto
  have near: "p - N < L" using q(2) qN by (auto simp: must_hold_def)
  have "must_hold L N q" using must_hold_mono [OF q(2) qN] p(1) by simp
  then have old: "sb_entry_sequences b ! (unat (of_nat q :: u16) mod L) = Some (of_nat q)"
    using c q(1) by (simp add: sb_complete_def)
  have "(of_nat q :: u16) \<notin> of_nat ` set [N mod 65536..<Suc (N mod 65536 + (p - N))]"
  proof
    assume "(of_nat q :: u16) \<in> of_nat ` set [N mod 65536..<Suc (N mod 65536 + (p - N))]"
    then obtain i where i: "N mod 65536 \<le> i" "i \<le> N mod 65536 + (p - N)" "(of_nat q :: u16) = of_nat i"
      by (auto simp only: image_iff set_upt atLeastLessThan_iff less_Suc_eq_le)
    define d where "d = i - N mod 65536"
    have d: "d \<le> p - N" "(of_nat q :: u16) = of_nat (N mod 65536 + d)"
      using i by (simp_all only: d_def le_add_diff_inverse le_diff_conv add.commute)
    have "(of_nat (N mod 65536 + d) :: u16) = of_nat (N + d)"
      by (simp only: of_nat_u16_mod [of "N mod 65536 + d"] of_nat_u16_mod [of "N + d"] mod_add_left_eq)
    with d have "(of_nat q :: u16) = of_nat (N + d)" by simp
    moreover have "N + d < q + 65536" "q < N + d" using q(2) d(1) p qN L(2) by (auto simp: must_hold_def)
    ultimately show False by (auto simp: of_nat_u16_eq_iff simp del: of_nat_add)
  qed
  moreover have "p < N + 65536" using p(2) by simp
  ultimately show "sb_entry_sequences ((sb_remove_entries (unat (of_nat p :: u16)) b) \<lparr> sb_sequence_num := x \<rparr>) !
      (unat (of_nat q :: u16) mod L) = Some (of_nat q)"
    using remove_all_keeps [OF L(1) _ b(1) _ old] L(1) near b sb_remove_entries_unwrapped [OF b(2) p(1)]
    by (simp del: upt_Suc)
qed

lemma sb_complete_put:
  assumes c: "sb_complete L N R b" and L: "0 < L" "L \<le> 32768" "length (sb_entry_sequences b) = L" and p: "p < N" "N \<le> p + L"
  shows "sb_complete L N (insert p R)
    (b \<lparr> sb_entry_sequences := (sb_entry_sequences b)[sb_index (of_nat p) b := Some (of_nat p)], sb_entries := e \<rparr>)"
  unfolding sb_complete_def
proof (intro ballI impI)
  fix q assume q: "q \<in> insert p R" "must_hold L N q"
  show "sb_entry_sequences (b \<lparr> sb_entry_sequences := (sb_entry_sequences b)[sb_index (of_nat p) b := Some (of_nat p)],
      sb_entries := e \<rparr>) ! (unat (of_nat q :: u16) mod L) = Some (of_nat q)"
  proof (cases "q = p")
    case False
    with must_hold_other_slot [OF q(2) p(1,2) _ L(2)] q c L show ?thesis
      by (auto simp: sb_index_def sb_complete_def)
  qed (use L in \<open>simp add: sb_index_def\<close>)
qed

lemma sb_insert_complete:
  assumes ok: "sb_ok L N R b" and c: "sb_complete L N R b" and L: "0 < L" "L \<le> 32768" and R: "R \<subseteq> {..<N}"
    and near: "p + L < N + 32768" "N < p + 32768"
  shows "sb_complete L (max N (Suc p)) (insert p R) (snd (sb_insert (of_nat p) x b))"
proof -
  have b: "length (sb_entry_sequences b) = L" "sb_sequence_num b = of_nat N" using ok by (auto simp: sb_ok_def)
  note cmp = sb_compare [OF near L(1)]
  show ?thesis
  proof (cases "p + L < N")
    case True
    then have "max N (Suc p) = N" "\<not> must_hold L N p" by (auto simp: must_hold_def)
    with True cmp b c show ?thesis by (auto simp: sb_insert_def sb_complete_def)
  next
    case False
    show ?thesis
    proof (cases "N \<le> p")
      case True
      have "sb_ok L (Suc p) R (sb_advance_sequence (of_nat p) b)"
        using sb_remove_entries_ok [OF ok L(1) True] near cmp b True by (simp add: sb_advance_sequence_def)
      moreover have "sb_complete L (Suc p) R (sb_advance_sequence (of_nat p) b)"
        using sb_complete_advance [OF ok c L R True] near cmp b True by (simp add: sb_advance_sequence_def)
      moreover have "max N (Suc p) = Suc p" using True by simp
      ultimately show ?thesis
        using sb_complete_put [of L "Suc p" R "sb_advance_sequence (of_nat p) b" p] L False cmp b
        by (simp add: sb_insert_def Let_def sb_ok_def)
    next
      case n: False
      have "sb_advance_sequence (of_nat p) b = b" using cmp b n by (simp add: sb_advance_sequence_def)
      moreover have "max N (Suc p) = N" using n by simp
      ultimately show ?thesis using sb_complete_put [OF c L b(1), of p] False cmp b n
        by (simp add: sb_insert_def Let_def)
    qed
  qed
qed

lemma sb_complete_exists:
  assumes "sb_ok L N R b" "sb_complete L N R b" "0 < L" "p \<in> R" "must_hold L N p"
  shows "sb_exists (of_nat p) b"
  using assms by (simp add: sb_ok_def sb_complete_def sb_exists_def sb_index_def)

end
