(* ===== verification/Loss_Monitor.thy ===== *)
theory Loss_Monitor
  imports Naia_Prelude
begin

text \<open>
  \<^verbatim>\<open>shared/src/connection/loss_monitor.rs\<close>: the rolling tally of the last 64 packet outcomes.
  The ring and its running counters are shown to implement the plain specification: the outcomes of
  all packets so far, of which the last 64 count. The quotient of the two counters, an \<^verbatim>\<open>f32\<close>, is not
  modelled.
\<close>

section \<open>The monitor\<close>

definition WINDOW :: nat where
  "WINDOW = 64"

record loss_monitor =
  lm_outcomes :: "bool list"
  lm_write_pos :: nat
  lm_total :: nat
  lm_acked_count :: nat

definition lm_new :: loss_monitor where
  "lm_new = \<lparr> lm_outcomes = replicate WINDOW False, lm_write_pos = 0, lm_total = 0, lm_acked_count = 0 \<rparr>"

text \<open>The subtraction of the eviction panics below zero.\<close>

definition lm_evict :: "loss_monitor \<Rightarrow> loss_monitor res" where
  "lm_evict m =
     (if lm_total m = WINDOW then
        (if lm_outcomes m ! lm_write_pos m then
           (if lm_acked_count m = 0 then Inl (Panic ''attempt to subtract with overflow'')
            else Inr (m \<lparr> lm_acked_count := lm_acked_count m - 1 \<rparr>))
         else Inr m)
      else Inr (m \<lparr> lm_total := lm_total m + 1 \<rparr>))"

definition lm_record :: "bool \<Rightarrow> loss_monitor \<Rightarrow> loss_monitor res" where
  "lm_record acked m =
     rbind (lm_evict m) (\<lambda>m.
       let m = m \<lparr> lm_outcomes := (lm_outcomes m)[lm_write_pos m := acked] \<rparr>;
           m = (if acked then m \<lparr> lm_acked_count := lm_acked_count m + 1 \<rparr> else m)
       in Inr (m \<lparr> lm_write_pos := (lm_write_pos m + 1) mod WINDOW \<rparr>))"

definition lm_record_acked :: "loss_monitor \<Rightarrow> loss_monitor res" where
  "lm_record_acked m = lm_record True m"

definition lm_record_lost :: "loss_monitor \<Rightarrow> loss_monitor res" where
  "lm_record_lost m = lm_record False m"

section \<open>The specification\<close>

definition recent :: "bool list \<Rightarrow> bool list" where
  "recent h = drop (length h - WINDOW) h"

text \<open>The monitor \<open>m\<close> after the outcomes \<open>h\<close>, oldest first.\<close>

definition lm_ok :: "bool list \<Rightarrow> loss_monitor \<Rightarrow> bool" where
  "lm_ok h m \<longleftrightarrow> length (lm_outcomes m) = WINDOW \<and> lm_write_pos m = length h mod WINDOW \<and>
     lm_total m = length (recent h) \<and> lm_acked_count m = length (filter (\<lambda>a. a) (recent h)) \<and>
     (\<forall>i<length h. length h \<le> i + WINDOW \<longrightarrow> lm_outcomes m ! (i mod WINDOW) = h ! i)"

lemma lm_ok_new: "lm_ok [] lm_new"
  by (simp add: lm_ok_def lm_new_def recent_def WINDOW_def)

lemma recent_short: "length h < WINDOW \<Longrightarrow> recent (h @ [a]) = recent h @ [a]"
  by (simp add: recent_def)

lemma recent_full:
  assumes "WINDOW \<le> length h"
  shows "recent h = h ! (length h - WINDOW) # tl (recent h)" "recent (h @ [a]) = tl (recent h) @ [a]"
proof -
  have "length h - WINDOW < length h" using assms by (simp add: WINDOW_def)
  then show "recent h = h ! (length h - WINDOW) # tl (recent h)"
    unfolding recent_def by (metis Cons_nth_drop_Suc list.sel(3))
  have "length h + 1 - WINDOW = Suc (length h - WINDOW)" using assms by simp
  then show "recent (h @ [a]) = tl (recent h) @ [a]"
    using assms by (simp add: recent_def drop_Suc tl_drop WINDOW_def)
qed

lemma recent_length: "length (recent h) = min WINDOW (length h)"
  by (auto simp: recent_def)

lemma ring_slot:
  assumes "i < n" "n < i + WINDOW"
  shows "i mod WINDOW \<noteq> n mod WINDOW"
proof
  assume "i mod WINDOW = n mod WINDOW"
  then have "WINDOW dvd n - i" using assms(1) by (metis less_imp_le mod_eq_dvd_iff_nat)
  with assms show False by (auto dest!: dvd_imp_le)
qed

text \<open>Recording never panics and follows the specification.\<close>

lemma lm_record_ok:
  assumes ok: "lm_ok h m"
  shows "\<exists>m'. lm_record a m = Inr m' \<and> lm_ok (h @ [a]) m'"
proof -
  let ?n = "length h"
  have m: "length (lm_outcomes m) = WINDOW" "lm_write_pos m = ?n mod WINDOW" "lm_total m = length (recent h)"
      "lm_acked_count m = length (filter (\<lambda>a. a) (recent h))"
    using ok by (auto simp: lm_ok_def)
  have slot: "?n mod WINDOW < WINDOW" by (simp add: WINDOW_def)
  have ring: "(lm_outcomes m)[?n mod WINDOW := a] ! (i mod WINDOW) = (h @ [a]) ! i"
    if "i < Suc ?n" "Suc ?n \<le> i + WINDOW" for i
  proof (cases "i = ?n")
    case False
    with that ring_slot [of i ?n] ok show ?thesis by (simp add: lm_ok_def nth_append)
  qed (use m slot in simp)
  have pos: "(?n mod WINDOW + 1) mod WINDOW = length (h @ [a]) mod WINDOW" by (simp add: mod_Suc_eq)
  show ?thesis
  proof (cases "?n < WINDOW")
    case True
    then have "lm_total m \<noteq> WINDOW" using m(3) by (simp add: recent_length)
    with m True ring pos show ?thesis
      by (auto simp: lm_record_def lm_evict_def Let_def lm_ok_def recent_short)
  next
    case False
    obtain x t where r: "recent h = x # t" "x = h ! (?n - WINDOW)" "recent (h @ [a]) = t @ [a]"
      using recent_full(1) [of h] recent_full(2) [of h a] False by (metis not_less)
    have x: "lm_outcomes m ! (?n mod WINDOW) = x"
      using ok False r(2) by (simp add: lm_ok_def WINDOW_def le_mod_geq)
    have t: "lm_total m = WINDOW" "length t + 1 = WINDOW"
      using m(3) False r(1) recent_length [of h] by simp_all
    have "lm_acked_count m = (if x then 1 else 0) + length (filter (\<lambda>a. a) t)" using m(4) r(1) by simp
    then have e: "lm_evict m = Inr (m \<lparr> lm_acked_count := length (filter (\<lambda>a. a) t) \<rparr>)"
      using t x m(2) by (simp add: lm_evict_def)
    show ?thesis unfolding lm_record_def e rbind_simps Let_def
      using m(1,2) ring pos t r(3) by (cases a) (simp_all add: lm_ok_def)
  qed
qed

lemma lm_records_ok: "\<exists>m. rfold lm_record h lm_new = Inr m \<and> lm_ok h m"
proof (induction h rule: rev_induct)
  case (snoc a h)
  then obtain m where "rfold lm_record h lm_new = Inr m" "lm_ok h m" by blast
  with lm_record_ok [of h m a] show ?case by (auto simp: rfold_append)
qed (simp add: lm_ok_new)

section \<open>Property\<close>

text \<open>
  C28. Refinement: after any sequence of packet outcomes, none of which makes the monitor panic,
  the two counters from which the loss is computed are the number of the last 64 outcomes and the
  number of the acknowledged ones among them.
\<close>

theorem loss_monitor_counts_last_64:
  "\<exists>m. rfold lm_record outcomes lm_new = Inr m \<and>
     lm_total m = min 64 (length outcomes) \<and>
     lm_acked_count m = length (filter (\<lambda>a. a) (drop (length outcomes - 64) outcomes))"
  using lm_records_ok [of outcomes] by (auto simp: lm_ok_def recent_length recent_def WINDOW_def)

end
