(* ===== verification/Bit_Writer.thy ===== *)
theory Bit_Writer
  imports Naia_Prelude
begin

text \<open>
  \<^verbatim>\<open>shared/serde/src/bit_writer.rs\<close> and \<^verbatim>\<open>bit_counter.rs\<close>: a writer collects bits in a 32-bit scratch register
  and flushes whole words into a fixed buffer; a counter only counts.
  Both implement the trait \<^verbatim>\<open>BitWrite\<close>, whose contract is the locale \<open>bit_write_impl\<close>: an operation that
  adds the bits \<open>bs\<close> does so where they fit and panics where they do not.
  A \<^verbatim>\<open>u32\<close> count is a natural number; the additions that can overflow check for it.
\<close>

unbundle bit_operations_syntax

section \<open>The writer\<close>

definition MTU_SIZE_BYTES :: nat where
  "MTU_SIZE_BYTES = 576 - 60 - 8 - 50 - 28"

definition MTU_SIZE_BITS :: nat where
  "MTU_SIZE_BITS = MTU_SIZE_BYTES * 8"

record bit_writer =
  bw_scratch :: u32
  bw_scratch_bits :: nat
  bw_buffer :: "u8 list"
  bw_byte_count :: nat
  bw_current_bits :: nat
  bw_max_bits :: nat

definition bw_with_capacity :: "nat \<Rightarrow> bit_writer" where
  "bw_with_capacity bit_capacity =
     \<lparr> bw_scratch = 0, bw_scratch_bits = 0, bw_buffer = replicate MTU_SIZE_BYTES 0,
       bw_byte_count = 0, bw_current_bits = 0, bw_max_bits = bit_capacity \<rparr>"

definition bw_new :: bit_writer where
  "bw_new = \<lparr> bw_scratch = 0, bw_scratch_bits = 0, bw_buffer = replicate MTU_SIZE_BYTES 0,
       bw_byte_count = 0, bw_current_bits = 0, bw_max_bits = MTU_SIZE_BITS \<rparr>"

definition bw_with_max_capacity :: bit_writer where
  "bw_with_max_capacity = bw_with_capacity (2 ^ 32 - 1)"

text \<open>The bytes of a word, least significant first.\<close>

definition to_le_bytes :: "'a :: len word \<Rightarrow> u8 list" where
  "to_le_bytes w = map (\<lambda>i. ucast (drop_bit (8 * i) w)) [0..<LENGTH('a) div 8]"

text \<open>\<^verbatim>\<open>buffer[from..from + bytes.len()].copy_from_slice(bytes)\<close>.\<close>

definition copy_into :: "nat \<Rightarrow> u8 list \<Rightarrow> u8 list \<Rightarrow> u8 list res" where
  "copy_into from bytes buffer =
     (if from + length bytes \<le> length buffer
      then Inr (take from buffer @ bytes @ drop (from + length bytes) buffer)
      else Inl (Panic ''range end index out of range''))"

definition bw_flush_word :: "bit_writer \<Rightarrow> bit_writer res" where
  "bw_flush_word w =
     rbind (copy_into (bw_byte_count w) (to_le_bytes (bw_scratch w)) (bw_buffer w))
       (\<lambda>buffer. Inr (w \<lparr> bw_buffer := buffer, bw_byte_count := bw_byte_count w + 4,
          bw_scratch := 0, bw_scratch_bits := 0 \<rparr>))"

definition bw_finalize :: "bit_writer \<Rightarrow> bit_writer res" where
  "bw_finalize w =
     (if bw_scratch_bits w > 0 then
        (let remaining_bytes = (bw_scratch_bits w + 7) div 8 in
         rbind (copy_into (bw_byte_count w) (take remaining_bytes (to_le_bytes (bw_scratch w))) (bw_buffer w))
           (\<lambda>buffer. Inr (w \<lparr> bw_buffer := buffer,
              bw_byte_count := bw_byte_count w + remaining_bytes, bw_max_bits := 0 \<rparr>)))
      else Inr (w \<lparr> bw_max_bits := 0 \<rparr>))"

definition bw_to_bytes :: "bit_writer \<Rightarrow> u8 list res" where
  "bw_to_bytes w = rbind (bw_finalize w) (\<lambda>w. Inr (take (bw_byte_count w) (bw_buffer w)))"

text \<open>An outgoing packet is the buffer with the number of bytes used of it.\<close>

type_synonym outgoing_packet = "nat \<times> u8 list"

definition bw_to_packet :: "bit_writer \<Rightarrow> outgoing_packet res" where
  "bw_to_packet w = rbind (bw_finalize w) (\<lambda>w. Inr (bw_byte_count w, bw_buffer w))"

definition packet_slice :: "outgoing_packet \<Rightarrow> u8 list" where
  "packet_slice p = take (fst p) (snd p)"

definition bw_reserve_bits :: "nat \<Rightarrow> bit_writer \<Rightarrow> bit_writer res" where
  "bw_reserve_bits bits w =
     (if bits \<le> bw_max_bits w then Inr (w \<lparr> bw_max_bits := bw_max_bits w - bits \<rparr>)
      else Inl (Panic ''attempt to subtract with overflow''))"

definition u32_add :: "nat \<Rightarrow> nat \<Rightarrow> nat res" where
  "u32_add a b = (if a + b < 2 ^ 32 then Inr (a + b) else Inl (Panic ''attempt to add with overflow''))"

definition bw_release_bits :: "nat \<Rightarrow> bit_writer \<Rightarrow> bit_writer res" where
  "bw_release_bits bits w =
     rbind (u32_add (bw_max_bits w) bits) (\<lambda>max_bits. Inr (w \<lparr> bw_max_bits := max_bits \<rparr>))"

definition bw_bits_free :: "bit_writer \<Rightarrow> nat res" where
  "bw_bits_free w =
     (if bw_current_bits w \<le> bw_max_bits w then Inr (bw_max_bits w - bw_current_bits w)
      else Inl (Panic ''attempt to subtract with overflow''))"

definition bw_write_bit :: "bool \<Rightarrow> bit_writer \<Rightarrow> bit_writer res" where
  "bw_write_bit bit_value w =
     (if bw_current_bits w \<ge> bw_max_bits w then Inl (Panic ''Write overflow!'')
      else
        (let w = w \<lparr> bw_scratch := bw_scratch w OR push_bit (bw_scratch_bits w) (of_bool bit_value),
                     bw_scratch_bits := bw_scratch_bits w + 1,
                     bw_current_bits := bw_current_bits w + 1 \<rparr>
         in if bw_scratch_bits w = 32 then bw_flush_word w else Inr w))"

definition bw_write_byte :: "u8 \<Rightarrow> bit_writer \<Rightarrow> bit_writer res" where
  "bw_write_byte byte w =
     rbind (u32_add (bw_current_bits w) 8) (\<lambda>total.
       if total > bw_max_bits w then Inl (Panic ''Write overflow!'')
       else
         (let w = w \<lparr> bw_current_bits := total \<rparr>;
              available = 32 - bw_scratch_bits w
          in if available \<ge> 8 then
               (let w = w \<lparr> bw_scratch := bw_scratch w OR push_bit (bw_scratch_bits w) (ucast byte),
                            bw_scratch_bits := bw_scratch_bits w + 8 \<rparr>
                in if bw_scratch_bits w = 32 then bw_flush_word w else Inr w)
             else
               (let lo = ucast byte AND (push_bit available 1 - 1) in
                rbind (bw_flush_word (w \<lparr> bw_scratch := bw_scratch w OR push_bit (bw_scratch_bits w) lo \<rparr>))
                  (\<lambda>w. Inr (w \<lparr> bw_scratch := drop_bit available (ucast byte),
                                bw_scratch_bits := 8 - available \<rparr>)))))"

section \<open>The counter\<close>

record bit_counter =
  bc_start_bits :: nat
  bc_current_bits :: nat
  bc_max_bits :: nat

definition bc_new :: "nat \<Rightarrow> nat \<Rightarrow> nat \<Rightarrow> bit_counter" where
  "bc_new start_bits current_bits max_bits =
     \<lparr> bc_start_bits = start_bits, bc_current_bits = current_bits, bc_max_bits = max_bits \<rparr>"

definition bc_overflowed :: "bit_counter \<Rightarrow> bool" where
  "bc_overflowed c = (bc_current_bits c > bc_max_bits c)"

definition bc_bits_needed :: "bit_counter \<Rightarrow> nat res" where
  "bc_bits_needed c =
     (if bc_start_bits c \<le> bc_current_bits c then Inr (bc_current_bits c - bc_start_bits c)
      else Inl (Panic ''attempt to subtract with overflow''))"

definition bc_count_bits :: "nat \<Rightarrow> bit_counter \<Rightarrow> bit_counter res" where
  "bc_count_bits bits c =
     rbind (u32_add (bc_current_bits c) bits) (\<lambda>n. Inr (c \<lparr> bc_current_bits := n \<rparr>))"

definition bc_write_bit :: "bool \<Rightarrow> bit_counter \<Rightarrow> bit_counter res" where
  "bc_write_bit bit_value c =
     rbind (u32_add (bc_current_bits c) 1) (\<lambda>n. Inr (c \<lparr> bc_current_bits := n \<rparr>))"

definition bc_write_byte :: "u8 \<Rightarrow> bit_counter \<Rightarrow> bit_counter res" where
  "bc_write_byte byte c =
     rbind (u32_add (bc_current_bits c) 8) (\<lambda>n. Inr (c \<lparr> bc_current_bits := n \<rparr>))"

definition bw_counter :: "bit_writer \<Rightarrow> bit_counter" where
  "bw_counter w = bc_new (bw_current_bits w) (bw_current_bits w) (bw_max_bits w)"

section \<open>Words as lists of bits\<close>

definition wbits :: "nat \<Rightarrow> 'a :: len word \<Rightarrow> bool list" where
  "wbits n w = map (bit w) [0..<n]"

abbreviation byte_bits :: "u8 \<Rightarrow> bool list" where
  "byte_bits \<equiv> wbits 8"

definition bytes_bits :: "u8 list \<Rightarrow> bool list" where
  "bytes_bits bs = concat (map byte_bits bs)"

lemma length_wbits [simp]: "length (wbits n w) = n"
  by (simp add: wbits_def)

lemma wbits_0 [simp]: "wbits 0 w = []"
  by (simp add: wbits_def)

lemma nth_wbits [simp]: "i < n \<Longrightarrow> wbits n w ! i = bit w i"
  by (simp add: wbits_def)

lemma wbits_Suc: "wbits (Suc n) w = bit w 0 # wbits n (drop_bit 1 w)"
  by (rule nth_equalityI) (auto simp: nth_Cons bit_drop_bit_eq split: nat.split)

lemma wbits_add: "wbits (m + n) w = wbits m w @ wbits n (drop_bit m w)"
  by (rule nth_equalityI) (auto simp: nth_append bit_drop_bit_eq)

lemma take_wbits: "m \<le> n \<Longrightarrow> take m (wbits n w) = wbits m w"
  by (simp add: wbits_def take_map)

lemma wbits_ucast: "n \<le> LENGTH('a) \<Longrightarrow> n \<le> LENGTH('b) \<Longrightarrow> wbits n (ucast (w :: 'a :: len word) :: 'b :: len word) = wbits n w"
  by (rule nth_equalityI) (auto simp: bit_ucast_iff)

lemma wbits_eq_iff: "wbits LENGTH('a) (v :: 'a :: len word) = wbits LENGTH('a) w \<longleftrightarrow> v = w"
proof
  assume "wbits LENGTH('a) v = wbits LENGTH('a) w"
  then have "bit v i = bit w i" if "i < LENGTH('a)" for i using that by (metis nth_wbits)
  then show "v = w" by (intro bit_word_eqI) simp
qed simp

lemma bytes_bits_simps [simp]:
  "bytes_bits [] = []" "bytes_bits (b # bs) = byte_bits b @ bytes_bits bs"
  "bytes_bits (bs @ cs) = bytes_bits bs @ bytes_bits cs"
  by (simp_all add: bytes_bits_def)

lemma length_bytes_bits [simp]: "length (bytes_bits bs) = 8 * length bs"
  by (induction bs) auto

lemma length_to_le_bytes [simp]: "length (to_le_bytes (w :: 'a :: len word)) = LENGTH('a) div 8"
  by (simp add: to_le_bytes_def)

lemma bytes_bits_to_le_aux:
  fixes w :: "'a :: len word"
  assumes "8 * n \<le> LENGTH('a)"
  shows "bytes_bits (map (\<lambda>i. ucast (drop_bit (8 * i) w)) [0..<n]) = wbits (8 * n) w"
  using assms
proof (induction n)
  case (Suc n)
  have "byte_bits (ucast (drop_bit (8 * n) w)) = wbits 8 (drop_bit (8 * n) w)"
    by (rule nth_equalityI) (use Suc.prems in \<open>auto simp: bit_ucast_iff bit_drop_bit_eq\<close>)
  moreover have "wbits (8 * Suc n) w = wbits (8 * n) w @ wbits 8 (drop_bit (8 * n) w)"
    using wbits_add [of "8 * n" 8 w] by (simp add: algebra_simps)
  ultimately show ?case using Suc by simp
qed (simp add: wbits_def)

lemma bytes_bits_to_le_bytes:
  fixes w :: "'a :: len word"
  assumes "8 dvd LENGTH('a)"
  shows "bytes_bits (to_le_bytes w) = wbits LENGTH('a) w"
  using bytes_bits_to_le_aux [of "LENGTH('a) div 8" w] assms by (simp add: to_le_bytes_def)

lemma take_to_le_bytes:
  fixes w :: u32
  assumes "n \<le> 4"
  shows "bytes_bits (take n (to_le_bytes w)) = wbits (8 * n) w"
  using bytes_bits_to_le_aux [of n w] assms by (simp add: to_le_bytes_def take_map)

text \<open>Placing a field above the \<open>n\<close> bits a register holds.\<close>

definition clear_above :: "nat \<Rightarrow> 'a :: len word \<Rightarrow> bool" where
  "clear_above n w = (\<forall>i \<ge> n. \<not> bit w i)"

lemma wbits_or_push:
  fixes v w :: "'a :: len word"
  assumes "clear_above n v" "n + m \<le> LENGTH('a)"
  shows "wbits (n + m) (v OR push_bit n w) = wbits n v @ wbits m w"
  by (rule nth_equalityI)
    (use assms in \<open>auto simp: nth_append bit_or_iff bit_push_bit_iff clear_above_def\<close>)

lemma clear_above_or_push:
  "clear_above n v \<Longrightarrow> clear_above m w \<Longrightarrow> clear_above (n + m) (v OR push_bit n w)"
  by (auto simp: clear_above_def bit_or_iff bit_push_bit_iff)

lemma clear_above_0 [simp]: "clear_above n 0"
  by (simp add: clear_above_def)

lemma clear_above_of_bool: "clear_above (Suc 0) (of_bool b)"
  by (auto simp: clear_above_def bit_of_bool_iff)

lemma clear_above_ucast: "clear_above 8 (ucast (b :: u8) :: u32)"
proof -
  have "\<not> bit b i" if "8 \<le> i" for i using bit_imp_le_length [of b i] that by auto
  then show ?thesis by (simp add: clear_above_def bit_ucast_iff)
qed

lemma clear_above_drop: "clear_above n w \<Longrightarrow> clear_above (n - m) (drop_bit m w)"
  by (auto simp: clear_above_def bit_drop_bit_eq)

lemma wbits_of_bool: "wbits (Suc 0) (of_bool b :: 'a :: len word) = [b]"
  by (simp add: wbits_def bit_of_bool_iff)

lemma wbits_pad:
  assumes "clear_above n w" "n \<le> m"
  shows "wbits m w = wbits n w @ replicate (m - n) False"
  by (rule nth_equalityI) (use assms in \<open>auto simp: nth_append clear_above_def\<close>)

section \<open>The writer refines a list of bits\<close>

text \<open>
  The invariant of a writer, and the bits it can hold: what its \<^verbatim>\<open>max_bits\<close> allows, but no more than fit the buffer
  with the last word still in the register. A writer whose capacity is at most the buffer is \<open>bw_ok\<close>.
\<close>

definition bw_core :: "bit_writer \<Rightarrow> bool" where
  "bw_core w \<longleftrightarrow> length (bw_buffer w) = MTU_SIZE_BYTES \<and> bw_scratch_bits w < 32 \<and>
     clear_above (bw_scratch_bits w) (bw_scratch w) \<and>
     bw_current_bits w = 8 * bw_byte_count w + bw_scratch_bits w \<and>
     bw_byte_count w \<le> MTU_SIZE_BYTES \<and> 4 dvd bw_byte_count w"

definition bw_capacity :: "bit_writer \<Rightarrow> nat" where
  "bw_capacity w = min (bw_max_bits w) (MTU_SIZE_BYTES div 4 * 32 + 31)"

definition bw_ok :: "bit_writer \<Rightarrow> bool" where
  "bw_ok w \<longleftrightarrow> bw_core w \<and> bw_current_bits w \<le> MTU_SIZE_BITS \<and> bw_max_bits w \<le> MTU_SIZE_BITS"

definition bw_bits :: "bit_writer \<Rightarrow> bool list" where
  "bw_bits w = bytes_bits (take (bw_byte_count w) (bw_buffer w)) @ wbits (bw_scratch_bits w) (bw_scratch w)"

lemma mtu_simps: "MTU_SIZE_BYTES = 430" "MTU_SIZE_BITS = 3440"
  by (simp_all add: MTU_SIZE_BYTES_def MTU_SIZE_BITS_def)

lemma bw_ok_new: "bw_ok bw_new" "bw_bits bw_new = []"
  by (simp_all add: bw_ok_def bw_core_def bw_bits_def bw_new_def)

lemma bw_ok_with_capacity: "n \<le> MTU_SIZE_BITS \<Longrightarrow> bw_ok (bw_with_capacity n)" "bw_bits (bw_with_capacity n) = []"
  by (simp_all add: bw_ok_def bw_core_def bw_bits_def bw_with_capacity_def)

lemma length_core_bits: "bw_core w \<Longrightarrow> length (bw_bits w) = bw_current_bits w"
  by (auto simp: bw_core_def bw_bits_def mtu_simps min_def)

lemma length_bw_bits: "bw_ok w \<Longrightarrow> length (bw_bits w) = bw_current_bits w"
  by (simp add: bw_ok_def length_core_bits)

lemma bw_ok_capacity: "bw_ok w \<Longrightarrow> bw_capacity w = bw_max_bits w"
  by (simp add: bw_ok_def bw_capacity_def mtu_simps)

lemma bw_core_bound: "bw_core w \<Longrightarrow> bw_current_bits w \<le> MTU_SIZE_BYTES div 4 * 32 + 31"
proof -
  assume "bw_core w"
  then obtain k where "bw_byte_count w = 4 * k" "4 * k \<le> 430" "bw_current_bits w = 8 * bw_byte_count w + bw_scratch_bits w"
      "bw_scratch_bits w < 32"
    by (auto simp: bw_core_def mtu_simps dvd_def)
  moreover from this(2) have "k \<le> 107" by presburger
  ultimately show ?thesis by (simp add: mtu_simps)
qed

text \<open>A flush fits as long as the capacity is not exceeded.\<close>

lemma bw_core_flush: "bw_core w \<Longrightarrow> 8 * bw_byte_count w + 32 \<le> bw_capacity w \<Longrightarrow> bw_byte_count w + 4 \<le> MTU_SIZE_BYTES"
proof -
  assume "bw_core w" "8 * bw_byte_count w + 32 \<le> bw_capacity w"
  then obtain k where "bw_byte_count w = 4 * k" "8 * (4 * k) + 32 \<le> 3455"
    by (auto simp: bw_core_def bw_capacity_def mtu_simps dvd_def)
  then show ?thesis by (simp add: mtu_simps)
qed

lemma bw_flush_word_full:
  assumes "length (bw_buffer w) = MTU_SIZE_BYTES" "bw_byte_count w + 4 \<le> MTU_SIZE_BYTES"
  shows "\<exists>buffer. bw_flush_word w = Inr (w \<lparr> bw_buffer := buffer, bw_byte_count := bw_byte_count w + 4,
       bw_scratch := 0, bw_scratch_bits := 0 \<rparr>) \<and> length buffer = MTU_SIZE_BYTES \<and>
     bytes_bits (take (bw_byte_count w + 4) buffer) =
       bytes_bits (take (bw_byte_count w) (bw_buffer w)) @ wbits 32 (bw_scratch w)"
  using assms bytes_bits_to_le_bytes [of "bw_scratch w"]
  by (intro exI [of _ "take (bw_byte_count w) (bw_buffer w) @ to_le_bytes (bw_scratch w) @
      drop (bw_byte_count w + 4) (bw_buffer w)"])
    (simp add: bw_flush_word_def copy_into_def)

lemma bw_write_bit_core:
  assumes ok: "bw_core w" and room: "bw_current_bits w < bw_capacity w"
  shows "\<exists>w'. bw_write_bit b w = Inr w' \<and> bw_core w' \<and> bw_bits w' = bw_bits w @ [b] \<and>
    bw_max_bits w' = bw_max_bits w"
proof -
  let ?n = "bw_scratch_bits w"
  have max: "bw_capacity w \<le> bw_max_bits w" by (simp add: bw_capacity_def)
  let ?w = "w \<lparr> bw_scratch := bw_scratch w OR push_bit ?n (of_bool b), bw_scratch_bits := ?n + 1,
              bw_current_bits := bw_current_bits w + 1 \<rparr>"
  have n: "?n < 32" and clear: "clear_above ?n (bw_scratch w)" using ok by (auto simp: bw_core_def)
  have wb: "wbits (?n + 1) (bw_scratch ?w) = wbits ?n (bw_scratch w) @ [b]"
    using wbits_or_push [OF clear, of 1 "of_bool b"] n by (simp add: wbits_of_bool)
  have cl: "clear_above (?n + 1) (bw_scratch ?w)"
    using clear_above_or_push [OF clear clear_above_of_bool, of b] by simp
  show ?thesis
  proof (cases "?n = 31")
    case False
    then show ?thesis
      using ok room max wb cl n by (auto simp: bw_write_bit_def bw_core_def bw_bits_def)
  next
    case True
    have fit: "bw_byte_count w + 4 \<le> MTU_SIZE_BYTES"
      using ok room True by (intro bw_core_flush) (auto simp: bw_core_def)
    obtain buffer where buf: "bw_flush_word ?w = Inr (?w \<lparr> bw_buffer := buffer,
          bw_byte_count := bw_byte_count w + 4, bw_scratch := 0, bw_scratch_bits := 0 \<rparr>)"
        "length buffer = MTU_SIZE_BYTES" "bytes_bits (take (bw_byte_count w + 4) buffer) =
          bytes_bits (take (bw_byte_count w) (bw_buffer w)) @ wbits 32 (bw_scratch ?w)"
      using bw_flush_word_full [of ?w] ok fit by (auto simp: bw_core_def)
    have "wbits 32 (bw_scratch ?w) = wbits ?n (bw_scratch w) @ [b]" using wb True by simp
    with buf fit ok room max True show ?thesis
      by (auto simp: bw_write_bit_def bw_core_def bw_bits_def mtu_simps dvd_add)
  qed
qed

lemma ucast_mask_byte:
  assumes "n \<le> 8"
  shows "wbits n (ucast (b :: u8) AND (push_bit n 1 - 1) :: u32) = wbits n b"
    and "clear_above n (ucast (b :: u8) AND (push_bit n 1 - 1) :: u32)"
proof -
  have m: "(push_bit n 1 - 1 :: u32) = mask n" by (simp add: mask_eq_exp_minus_1 push_bit_eq_mult)
  show "wbits n (ucast b AND (push_bit n 1 - 1) :: u32) = wbits n b"
    unfolding m by (rule nth_equalityI) (use assms in \<open>auto simp: bit_and_iff bit_mask_iff bit_ucast_iff\<close>)
  show "clear_above n (ucast b AND (push_bit n 1 - 1) :: u32)"
    unfolding m by (auto simp: clear_above_def bit_and_iff bit_mask_iff)
qed

lemma bw_write_byte_core:
  assumes ok: "bw_core w" and room: "bw_current_bits w + 8 \<le> bw_capacity w"
  shows "\<exists>w'. bw_write_byte b w = Inr w' \<and> bw_core w' \<and> bw_bits w' = bw_bits w @ byte_bits b \<and>
    bw_max_bits w' = bw_max_bits w"
proof -
  let ?n = "bw_scratch_bits w"
  have max: "bw_capacity w \<le> bw_max_bits w" by (simp add: bw_capacity_def)
  have n: "?n < 32" and clear: "clear_above ?n (bw_scratch w)" using ok by (auto simp: bw_core_def)
  have add: "u32_add (bw_current_bits w) 8 = Inr (bw_current_bits w + 8)"
    using bw_core_bound [OF ok] by (simp add: u32_add_def mtu_simps)
  have bb: "wbits 8 (ucast b :: u32) = byte_bits b" by (simp add: wbits_ucast)
  consider (inside) "?n + 8 < 32" | (full) "?n + 8 = 32" | (spans) "32 < ?n + 8" by linarith
  then show ?thesis
  proof cases
    case inside
    then have "wbits (?n + 8) (bw_scratch w OR push_bit ?n (ucast b)) = wbits ?n (bw_scratch w) @ byte_bits b"
      using wbits_or_push [OF clear, of 8 "ucast b"] bb by simp
    moreover have "clear_above (?n + 8) (bw_scratch w OR push_bit ?n (ucast b))"
      by (rule clear_above_or_push [OF clear clear_above_ucast])
    ultimately show ?thesis
      using ok room max inside add by (auto simp: bw_write_byte_def bw_core_def bw_bits_def Let_def)
  next
    case full
    let ?w = "w \<lparr> bw_current_bits := bw_current_bits w + 8,
        bw_scratch := bw_scratch w OR push_bit ?n (ucast b), bw_scratch_bits := ?n + 8 \<rparr>"
    have wb: "wbits 32 (bw_scratch ?w) = wbits ?n (bw_scratch w) @ byte_bits b"
      using wbits_or_push [OF clear, of 8 "ucast b"] bb full by simp
    have fit: "bw_byte_count w + 4 \<le> MTU_SIZE_BYTES"
      using ok room full by (intro bw_core_flush) (auto simp: bw_core_def)
    obtain buffer where buf: "bw_flush_word ?w = Inr (?w \<lparr> bw_buffer := buffer,
          bw_byte_count := bw_byte_count w + 4, bw_scratch := 0, bw_scratch_bits := 0 \<rparr>)"
        "length buffer = MTU_SIZE_BYTES" "bytes_bits (take (bw_byte_count w + 4) buffer) =
          bytes_bits (take (bw_byte_count w) (bw_buffer w)) @ wbits 32 (bw_scratch ?w)"
      using bw_flush_word_full [of ?w] ok fit by (auto simp: bw_core_def)
    show ?thesis
      using buf(2,3) fit wb ok room max full add buf(1)
      by (auto simp: bw_write_byte_def bw_core_def bw_bits_def mtu_simps dvd_add Let_def)
  next
    case spans
    define a where "a = 32 - ?n"
    have a: "a < 8" "?n + a = 32" using spans n by (auto simp: a_def)
    let ?lo = "ucast b AND (push_bit a 1 - 1) :: u32"
    let ?w = "w \<lparr> bw_current_bits := bw_current_bits w + 8, bw_scratch := bw_scratch w OR push_bit ?n ?lo \<rparr>"
    have wb: "wbits 32 (bw_scratch ?w) = wbits ?n (bw_scratch w) @ wbits a b"
      using wbits_or_push [OF clear, of a ?lo] ucast_mask_byte [of a b] a by simp
    have fit: "bw_byte_count w + 4 \<le> MTU_SIZE_BYTES"
      using ok room spans by (intro bw_core_flush) (auto simp: bw_core_def)
    obtain buffer where buf: "bw_flush_word ?w = Inr (?w \<lparr> bw_buffer := buffer,
          bw_byte_count := bw_byte_count w + 4, bw_scratch := 0, bw_scratch_bits := 0 \<rparr>)"
        "length buffer = MTU_SIZE_BYTES" "bytes_bits (take (bw_byte_count w + 4) buffer) =
          bytes_bits (take (bw_byte_count w) (bw_buffer w)) @ wbits 32 (bw_scratch ?w)"
      using bw_flush_word_full [of ?w] ok fit by (auto simp: bw_core_def)
    have hi: "byte_bits b = wbits a b @ wbits (8 - a) (drop_bit a (ucast b :: u32))"
      using wbits_add [of a "8 - a" "ucast b :: u32"] bb a by (simp add: wbits_ucast)
    have cl: "clear_above (8 - a) (drop_bit a (ucast b :: u32))"
      by (rule clear_above_drop [OF clear_above_ucast])
    show ?thesis
      using buf(2,3) fit wb hi cl ok room max add buf(1) a
      by (auto simp: bw_write_byte_def bw_core_def bw_bits_def mtu_simps dvd_add Let_def a_def [symmetric])
  qed
qed

lemma bw_core_ok: "bw_ok w \<Longrightarrow> bw_core w' \<Longrightarrow> bw_bits w' = bw_bits w @ bs \<Longrightarrow> bw_max_bits w' = bw_max_bits w \<Longrightarrow>
    bw_current_bits w + length bs \<le> bw_max_bits w \<Longrightarrow> bw_ok w'"
  using length_bw_bits [of w] length_core_bits [of w'] by (simp add: bw_ok_def)

lemma bw_write_bit_ok:
  assumes ok: "bw_ok w" and room: "bw_current_bits w < bw_max_bits w"
  shows "\<exists>w'. bw_write_bit b w = Inr w' \<and> bw_ok w' \<and> bw_bits w' = bw_bits w @ [b] \<and> bw_max_bits w' = bw_max_bits w"
proof -
  have "bw_core w" using ok by (simp add: bw_ok_def)
  then obtain w' where "bw_write_bit b w = Inr w'" "bw_core w'" "bw_bits w' = bw_bits w @ [b]" "bw_max_bits w' = bw_max_bits w"
    using bw_write_bit_core [of w b] room bw_ok_capacity [OF ok] by auto
  with bw_core_ok [OF ok this(2-4)] room show ?thesis by auto
qed

lemma bw_write_bit_full: "bw_max_bits w \<le> bw_current_bits w \<Longrightarrow> bw_write_bit b w = Inl (Panic ''Write overflow!'')"
  by (simp add: bw_write_bit_def)

lemma bw_write_byte_full:
  "bw_core w \<Longrightarrow> bw_max_bits w < bw_current_bits w + 8 \<Longrightarrow> bw_write_byte b w = Inl (Panic ''Write overflow!'')"
  using bw_core_bound [of w] by (simp add: bw_write_byte_def u32_add_def mtu_simps)

text \<open>A writer with a larger capacity than its buffer panics when a word does not fit.\<close>

lemma bw_flush_word_overflow:
  "length (bw_buffer w) = MTU_SIZE_BYTES \<Longrightarrow> MTU_SIZE_BYTES < bw_byte_count w + 4 \<Longrightarrow>
   bw_flush_word w = Inl (Panic ''range end index out of range'')"
  by (simp add: bw_flush_word_def copy_into_def)

lemma bw_core_last_word:
  assumes "bw_core w" "MTU_SIZE_BYTES div 4 * 32 + 31 < bw_current_bits w + 8"
  shows "bw_byte_count w = 428" "24 \<le> bw_scratch_bits w"
proof -
  obtain k where k: "bw_byte_count w = 4 * k" "4 * k \<le> 430" and c: "bw_current_bits w = 8 * bw_byte_count w + bw_scratch_bits w"
      "bw_scratch_bits w < 32"
    using assms(1) by (auto simp: bw_core_def mtu_simps dvd_def)
  have "k = 107" using k c assms(2) unfolding mtu_simps by presburger
  with k c assms(2) show "bw_byte_count w = 428" "24 \<le> bw_scratch_bits w" by (simp_all add: mtu_simps)
qed

lemma bw_write_overflow:
  assumes core: "bw_core w"
  shows "bw_capacity w \<le> bw_current_bits w \<Longrightarrow> \<exists>m. bw_write_bit b w = Inl (Panic m)"
    and "bw_capacity w < bw_current_bits w + 8 \<Longrightarrow> \<exists>m. bw_write_byte u w = Inl (Panic m)"
proof -
  have len: "length (bw_buffer w) = MTU_SIZE_BYTES" using core by (simp add: bw_core_def)
  show "\<exists>m. bw_write_bit b w = Inl (Panic m)" if full: "bw_capacity w \<le> bw_current_bits w"
  proof (cases "bw_max_bits w \<le> bw_current_bits w")
    case True
    then show ?thesis by (simp add: bw_write_bit_full)
  next
    case False
    with full have "MTU_SIZE_BYTES div 4 * 32 + 31 \<le> bw_current_bits w" by (auto simp: bw_capacity_def)
    with bw_core_last_word(1) [OF core] core have "bw_byte_count w = 428" "bw_scratch_bits w = 31"
      by (auto simp: bw_core_def mtu_simps)
    with False len show ?thesis by (simp add: bw_write_bit_def bw_flush_word_overflow mtu_simps)
  qed
  show "\<exists>m. bw_write_byte u w = Inl (Panic m)" if full: "bw_capacity w < bw_current_bits w + 8"
  proof (cases "bw_max_bits w < bw_current_bits w + 8")
    case True
    then show ?thesis by (simp add: bw_write_byte_full [OF core])
  next
    case False
    with full have "MTU_SIZE_BYTES div 4 * 32 + 31 < bw_current_bits w + 8" by (auto simp: bw_capacity_def)
    note last = bw_core_last_word [OF core this]
    have "u32_add (bw_current_bits w) 8 = Inr (bw_current_bits w + 8)"
      using bw_core_bound [OF core] by (simp add: u32_add_def mtu_simps)
    with False len last show ?thesis
      by (cases "bw_scratch_bits w = 24") (simp_all add: bw_write_byte_def bw_flush_word_overflow mtu_simps Let_def)
  qed
qed

lemma bw_core_to_bytes:
  assumes core: "bw_core w" and fit: "bw_current_bits w \<le> MTU_SIZE_BITS"
  shows "\<exists>bytes. bw_to_bytes w = Inr bytes \<and> length bytes = (bw_current_bits w + 7) div 8 \<and>
    bytes_bits bytes = bw_bits w @ replicate (8 * length bytes - bw_current_bits w) False"
proof (cases "bw_scratch_bits w = 0")
  case True
  then show ?thesis using core
    by (auto simp: bw_to_bytes_def bw_finalize_def bw_core_def bw_bits_def mtu_simps min_def)
next
  case False
  let ?n = "bw_scratch_bits w" and ?k = "(bw_scratch_bits w + 7) div 8"
  have n: "?n < 32" "clear_above ?n (bw_scratch w)" using core by (auto simp: bw_core_def)
  have k: "?k \<le> 4" "?n \<le> 8 * ?k" using n by auto
  have "bw_byte_count w + ?k \<le> 430"
    using core fit False by (auto simp: bw_core_def mtu_simps)
  with core False k have b: "bw_to_bytes w = Inr (take (bw_byte_count w) (bw_buffer w) @ take ?k (to_le_bytes (bw_scratch w)))"
    by (auto simp: bw_to_bytes_def bw_finalize_def bw_core_def mtu_simps copy_into_def min_def Let_def)
  have len: "length (take (bw_byte_count w) (bw_buffer w) @ take ?k (to_le_bytes (bw_scratch w))) = bw_byte_count w + ?k"
    using core k(1) by (auto simp: bw_core_def mtu_simps)
  have "bytes_bits (take ?k (to_le_bytes (bw_scratch w))) =
      wbits ?n (bw_scratch w) @ replicate (8 * ?k - ?n) False"
    using take_to_le_bytes [OF k(1)] wbits_pad [OF n(2) k(2)] by simp
  with b len core show ?thesis by (auto simp: bw_bits_def bw_core_def)
qed

lemma bw_core_to_bytes_overflow:
  assumes core: "bw_core w" and over: "MTU_SIZE_BITS < bw_current_bits w"
  shows "bw_to_bytes w = Inl (Panic ''range end index out of range'')"
proof -
  obtain k where k: "bw_byte_count w = 4 * k" "4 * k \<le> 430" and c: "bw_current_bits w = 8 * bw_byte_count w + bw_scratch_bits w"
      "bw_scratch_bits w < 32"
    using core by (auto simp: bw_core_def mtu_simps dvd_def)
  have "k = 107" using k c over unfolding mtu_simps by presburger
  then have "bw_byte_count w = 428" "17 \<le> bw_scratch_bits w" using k c over by (simp_all add: mtu_simps)
  moreover from this(2) have "3 \<le> (bw_scratch_bits w + 7) div 8" by presburger
  ultimately show ?thesis using core c(2)
    by (simp add: bw_to_bytes_def bw_finalize_def copy_into_def bw_core_def mtu_simps Let_def min_def)
qed

lemma bw_to_bytes_ok:
  "bw_ok w \<Longrightarrow> \<exists>bytes. bw_to_bytes w = Inr bytes \<and> length bytes = (bw_current_bits w + 7) div 8 \<and>
    bytes_bits bytes = bw_bits w @ replicate (8 * length bytes - bw_current_bits w) False"
  by (rule bw_core_to_bytes) (simp_all add: bw_ok_def)

lemma bw_to_packet_slice: "bw_to_bytes w = rbind (bw_to_packet w) (\<lambda>p. Inr (packet_slice p))"
  by (cases "bw_finalize w") (auto simp: bw_to_bytes_def bw_to_packet_def packet_slice_def)

section \<open>The contract of \<^verbatim>\<open>BitWrite\<close>\<close>

text \<open>
  An implementation takes a bit or a byte when there is room for it and panics otherwise. \<open>free\<close> is
  the number of bits there is room for; \<open>extends w bs w'\<close> says that \<open>w'\<close> is \<open>w\<close> with the bits \<open>bs\<close>
  added.
\<close>

locale bit_write_impl =
  fixes put_bit :: "bool \<Rightarrow> 'w \<Rightarrow> 'w res"
    and put_byte :: "u8 \<Rightarrow> 'w \<Rightarrow> 'w res"
    and ok :: "'w \<Rightarrow> bool"
    and free :: "'w \<Rightarrow> nat"
    and extends :: "'w \<Rightarrow> bool list \<Rightarrow> 'w \<Rightarrow> bool"
  assumes put_bit_ok: "ok w \<Longrightarrow> 1 \<le> free w \<Longrightarrow> \<exists>w'. put_bit b w = Inr w' \<and> ok w' \<and> extends w [b] w'"
    and put_bit_full: "ok w \<Longrightarrow> free w = 0 \<Longrightarrow> \<exists>m. put_bit b w = Inl (Panic m)"
    and put_byte_ok: "ok w \<Longrightarrow> 8 \<le> free w \<Longrightarrow> \<exists>w'. put_byte u w = Inr w' \<and> ok w' \<and> extends w (byte_bits u) w'"
    and put_byte_full: "ok w \<Longrightarrow> free w < 8 \<Longrightarrow> \<exists>m. put_byte u w = Inl (Panic m)"
    and extends_refl: "extends w [] w"
    and extends_trans: "extends w xs w' \<Longrightarrow> extends w' ys w'' \<Longrightarrow> extends w (xs @ ys) w''"
    and extends_free: "ok w \<Longrightarrow> ok w' \<Longrightarrow> extends w xs w' \<Longrightarrow> free w' = free w - length xs"
begin

text \<open>What an operation that adds the bits \<open>bs\<close> does.\<close>

definition writes :: "('w \<Rightarrow> 'w res) \<Rightarrow> bool list \<Rightarrow> bool" where
  "writes f bs \<longleftrightarrow> (\<forall>w. ok w \<longrightarrow>
     (if length bs \<le> free w then \<exists>w'. f w = Inr w' \<and> ok w' \<and> extends w bs w'
      else \<exists>m. f w = Inl (Panic m)))"

lemma writesD:
  "writes f bs \<Longrightarrow> ok w \<Longrightarrow> length bs \<le> free w \<Longrightarrow> \<exists>w'. f w = Inr w' \<and> ok w' \<and> extends w bs w'"
  "writes f bs \<Longrightarrow> ok w \<Longrightarrow> \<not> length bs \<le> free w \<Longrightarrow> \<exists>m. f w = Inl (Panic m)"
  by (auto simp: writes_def dest!: spec [of _ w])

lemma writes_bit: "writes (put_bit b) [b]"
proof -
  have "\<exists>m. put_bit b w = Inl (Panic m)" if "ok w" "\<not> Suc 0 \<le> free w" for w
    using put_bit_full [OF that(1)] that(2) by simp
  then show ?thesis using put_bit_ok by (simp add: writes_def)
qed

lemma writes_byte: "writes (put_byte u) (byte_bits u)"
proof -
  have "\<exists>m. put_byte u w = Inl (Panic m)" if "ok w" "\<not> 8 \<le> free w" for w
    using put_byte_full [OF that(1)] that(2) by simp
  then show ?thesis using put_byte_ok by (simp add: writes_def)
qed

lemma writes_nothing: "writes Inr []"
  by (simp add: writes_def extends_refl)

lemma writes_bind:
  assumes f: "writes f xs" and g: "writes g ys"
  shows "writes (\<lambda>w. rbind (f w) g) (xs @ ys)"
  unfolding writes_def
proof (intro allI impI)
  fix w assume ok: "ok w"
  show "if length (xs @ ys) \<le> free w then \<exists>w'. rbind (f w) g = Inr w' \<and> ok w' \<and> extends w (xs @ ys) w'
      else \<exists>m. rbind (f w) g = Inl (Panic m)"
  proof (cases "length xs \<le> free w")
    case True
    then obtain w1 where w1: "f w = Inr w1" "ok w1" "extends w xs w1" using writesD(1) [OF f ok] by blast
    have fr: "free w1 = free w - length xs" by (rule extends_free [OF ok w1(2,3)])
    show ?thesis
    proof (cases "length ys \<le> free w1")
      case y: True
      then obtain w2 where "g w1 = Inr w2" "ok w2" "extends w1 ys w2" using writesD(1) [OF g w1(2)] by blast
      then show ?thesis using w1 y fr True extends_trans [OF w1(3)] by auto
    next
      case False
      then obtain m where "g w1 = Inl (Panic m)" using writesD(2) [OF g w1(2)] by blast
      then show ?thesis using w1 False fr True by auto
    qed
  next
    case False
    then obtain m where "f w = Inl (Panic m)" using writesD(2) [OF f ok] by blast
    then show ?thesis using False by auto
  qed
qed

lemma writes_rfold:
  "(\<And>x. x \<in> set xs \<Longrightarrow> writes (f x) (enc x)) \<Longrightarrow> writes (rfold f xs) (concat (map enc xs))"
proof (induction xs)
  case Nil
  then show ?case by (simp add: writes_def extends_refl)
next
  case (Cons x xs)
  have "rfold f (x # xs) = (\<lambda>w. rbind (f x w) (rfold f xs))" by (rule ext) simp
  moreover have "writes (\<lambda>w. rbind (f x w) (rfold f xs)) (enc x @ concat (map enc xs))"
    using Cons by (intro writes_bind) auto
  ultimately show ?case by simp
qed

end

lemma bw_impl: "bit_write_impl bw_write_bit bw_write_byte bw_core (\<lambda>w. bw_capacity w - bw_current_bits w)
  (\<lambda>w bs w'. bw_bits w' = bw_bits w @ bs \<and> bw_max_bits w' = bw_max_bits w)"
proof
  fix w w' :: bit_writer and xs
  assume "bw_core w" "bw_core w'" "bw_bits w' = bw_bits w @ xs \<and> bw_max_bits w' = bw_max_bits w"
  then show "bw_capacity w' - bw_current_bits w' = bw_capacity w - bw_current_bits w - length xs"
    using length_core_bits [of w] length_core_bits [of w'] by (simp add: bw_capacity_def)
next
  fix w u assume "bw_core w" "8 \<le> bw_capacity w - bw_current_bits w"
  then show "\<exists>w'. bw_write_byte u w = Inr w' \<and> bw_core w' \<and> bw_bits w' = bw_bits w @ byte_bits u \<and> bw_max_bits w' = bw_max_bits w"
    by (intro bw_write_byte_core) auto
next
  fix w b assume "bw_core w" "1 \<le> bw_capacity w - bw_current_bits w"
  then show "\<exists>w'. bw_write_bit b w = Inr w' \<and> bw_core w' \<and> bw_bits w' = bw_bits w @ [b] \<and> bw_max_bits w' = bw_max_bits w"
    by (intro bw_write_bit_core) auto
next
  fix w b u assume core: "bw_core w"
  show "\<exists>m. bw_write_bit b w = Inl (Panic m)" if "bw_capacity w - bw_current_bits w = 0"
    using bw_write_overflow(1) [OF core] that by simp
  show "\<exists>m. bw_write_byte u w = Inl (Panic m)" if "bw_capacity w - bw_current_bits w < 8"
    using bw_write_overflow(2) [OF core] that by simp
qed simp_all

interpretation writer: bit_write_impl bw_write_bit bw_write_byte bw_core
  "\<lambda>w. bw_capacity w - bw_current_bits w"
  "\<lambda>w bs w'. bw_bits w' = bw_bits w @ bs \<and> bw_max_bits w' = bw_max_bits w"
  by (rule bw_impl)

definition bc_ok :: "bit_counter \<Rightarrow> bool" where
  "bc_ok c \<longleftrightarrow> bc_current_bits c < 2 ^ 32"

interpretation counter: bit_write_impl bc_write_bit bc_write_byte bc_ok
  "\<lambda>c. 2 ^ 32 - 1 - bc_current_bits c"
  "\<lambda>c bs c'. c' = c \<lparr> bc_current_bits := bc_current_bits c + length bs \<rparr>"
  by unfold_locales (auto simp: bc_write_bit_def bc_write_byte_def u32_add_def bc_ok_def add.assoc)

end
