(* ===== verification/Fragment_Writer.thy ===== *)
theory Fragment_Writer
  imports Bit_Writer
begin

text \<open>
  \<^verbatim>\<open>shared/src/messages/fragment.rs\<close> (the data) and the \<^verbatim>\<open>FragmentWriter\<close> of
  \<^verbatim>\<open>channels/senders/message_fragmenter.rs\<close>: the third implementation of \<^verbatim>\<open>BitWrite\<close>, which cuts the bits of
  a message that is too long for a packet into fragments of \<^verbatim>\<open>FRAGMENTATION_LIMIT_BITS\<close>. It satisfies the same
  contract as the other two, so every serialiser proved against the contract can be fragmented.
\<close>

unbundle bit_operations_syntax

section \<open>Fragments\<close>

definition FRAGMENTATION_LIMIT_BYTES :: nat where
  "FRAGMENTATION_LIMIT_BYTES = 400"

definition FRAGMENTATION_LIMIT_BITS :: nat where
  "FRAGMENTATION_LIMIT_BITS = FRAGMENTATION_LIMIT_BYTES * 8"

definition FRAGMENT_ID_BITS :: nat where
  "FRAGMENT_ID_BITS = 10"

definition FRAGMENT_ID_LIMIT :: u16 where
  "FRAGMENT_ID_LIMIT = 2 ^ FRAGMENT_ID_BITS"

definition FRAGMENT_INDEX_BITS :: nat where
  "FRAGMENT_INDEX_BITS = 20"

definition FRAGMENT_INDEX_LIMIT :: u32 where
  "FRAGMENT_INDEX_LIMIT = 2 ^ FRAGMENT_INDEX_BITS"

type_synonym fragment_id = u16

type_synonym fragment_index = u32

definition fragment_id_increment :: "fragment_id \<Rightarrow> fragment_id" where
  "fragment_id_increment inner = (let inner = inner + 1 in if inner \<ge> FRAGMENT_ID_LIMIT then 0 else inner)"

definition fragment_index_increment :: "fragment_index \<Rightarrow> fragment_index res" where
  "fragment_index_increment inner =
     (let inner = inner + 1 in
      if inner \<ge> FRAGMENT_INDEX_LIMIT then Inl (Panic ''Attempting to fragment large message, but hit fragment limit'')
      else Inr inner)"

record fragmented_message =
  fm_id :: fragment_id
  fm_index :: fragment_index
  fm_total :: fragment_index
  fm_bytes :: "u8 list"

definition fm_new :: "fragment_id \<Rightarrow> fragment_index \<Rightarrow> u8 list \<Rightarrow> fragmented_message" where
  "fm_new i index bytes = \<lparr> fm_id = i, fm_index = index, fm_total = 0, fm_bytes = bytes \<rparr>"

definition fm_set_total :: "fragment_index \<Rightarrow> fragmented_message \<Rightarrow> fragmented_message" where
  "fm_set_total n m = m \<lparr> fm_total := n \<rparr>"

section \<open>The fragment writer\<close>

record fragment_writer =
  fw_fragment_id :: fragment_id
  fw_current_fragment_index :: fragment_index
  fw_fragments :: "fragmented_message list"
  fw_current_writer :: bit_writer

definition fw_new :: "fragment_id \<Rightarrow> fragment_writer" where
  "fw_new i = \<lparr> fw_fragment_id = i, fw_current_fragment_index = 0, fw_fragments = [],
     fw_current_writer = bw_with_capacity FRAGMENTATION_LIMIT_BITS \<rparr>"

definition fw_flush_current :: "fragment_writer \<Rightarrow> fragment_writer res" where
  "fw_flush_current w =
     (let current = fw_current_writer w;
          w = w \<lparr> fw_current_writer := bw_with_capacity FRAGMENTATION_LIMIT_BITS \<rparr>
      in rbind (bw_to_bytes current) (\<lambda>bytes.
         let fragmented_message = fm_new (fw_fragment_id w) (fw_current_fragment_index w) bytes
         in rbind (fragment_index_increment (fw_current_fragment_index w)) (\<lambda>index.
            Inr (w \<lparr> fw_current_fragment_index := index, fw_fragments := fw_fragments w @ [fragmented_message] \<rparr>))))"

definition fw_to_messages :: "fragment_writer \<Rightarrow> fragmented_message list res" where
  "fw_to_messages w =
     rbind (fw_flush_current w) (\<lambda>w. Inr (map (fm_set_total (fw_current_fragment_index w)) (fw_fragments w)))"

definition fw_write_bit :: "bool \<Rightarrow> fragment_writer \<Rightarrow> fragment_writer res" where
  "fw_write_bit b w =
     rbind (bw_bits_free (fw_current_writer w)) (\<lambda>bits_free.
     rbind (if bits_free = 0 then fw_flush_current w else Inr w) (\<lambda>w.
     rbind (bw_write_bit b (fw_current_writer w)) (\<lambda>current_writer. Inr (w \<lparr> fw_current_writer := current_writer \<rparr>))))"

fun fw_write_byte_loop :: "nat \<Rightarrow> u8 \<Rightarrow> fragment_writer \<Rightarrow> fragment_writer res" where
  "fw_write_byte_loop 0 temp w = Inr w"
| "fw_write_byte_loop (Suc n) temp w =
     rbind (fw_write_bit (temp AND 1 \<noteq> 0) w) (fw_write_byte_loop n (drop_bit 1 temp))"

definition fw_write_byte :: "u8 \<Rightarrow> fragment_writer \<Rightarrow> fragment_writer res" where
  "fw_write_byte byte w = fw_write_byte_loop 8 byte w"

section \<open>The fragment writer refines a list of bits\<close>

lemma fragment_simps:
  "FRAGMENTATION_LIMIT_BYTES = 400" "FRAGMENTATION_LIMIT_BITS = 3200"
  "FRAGMENT_ID_LIMIT = 1024" "FRAGMENT_INDEX_LIMIT = 1048576"
  by (simp_all add: FRAGMENTATION_LIMIT_BYTES_def FRAGMENTATION_LIMIT_BITS_def FRAGMENT_ID_LIMIT_def
      FRAGMENT_INDEX_LIMIT_def FRAGMENT_ID_BITS_def FRAGMENT_INDEX_BITS_def)

lemma fragment_index_increment_eq:
  assumes "unat i < 2 ^ 20"
  shows "fragment_index_increment i =
    (if unat i + 1 < 2 ^ 20 then Inr (i + 1) else Inl (Panic ''Attempting to fragment large message, but hit fragment limit''))"
    and "unat (i + 1) = unat i + 1"
proof -
  show u: "unat (i + 1) = unat i + 1" using assms by (simp add: unat_word_ariths(1))
  have "i + 1 \<ge> FRAGMENT_INDEX_LIMIT \<longleftrightarrow> unat i + 1 \<ge> 2 ^ 20"
    using u by (simp add: fragment_simps word_le_nat_alt)
  then show "fragment_index_increment i =
    (if unat i + 1 < 2 ^ 20 then Inr (i + 1) else Inl (Panic ''Attempting to fragment large message, but hit fragment limit''))"
    by (auto simp: fragment_index_increment_def Let_def)
qed

definition fragments_bits :: "fragmented_message list \<Rightarrow> bool list" where
  "fragments_bits ms = concat (map (\<lambda>m. bytes_bits (fm_bytes m)) ms)"

lemma fragments_bits_simps [simp]:
  "fragments_bits [] = []" "fragments_bits (ms @ [m]) = fragments_bits ms @ bytes_bits (fm_bytes m)"
  by (simp_all add: fragments_bits_def)

definition fw_bits :: "fragment_writer \<Rightarrow> bool list" where
  "fw_bits w = fragments_bits (fw_fragments w) @ bw_bits (fw_current_writer w)"

definition fw_ok :: "fragment_writer \<Rightarrow> bool" where
  "fw_ok w \<longleftrightarrow> bw_ok (fw_current_writer w) \<and> bw_max_bits (fw_current_writer w) = FRAGMENTATION_LIMIT_BITS \<and>
     bw_current_bits (fw_current_writer w) \<le> FRAGMENTATION_LIMIT_BITS \<and>
     unat (fw_current_fragment_index w) < 2 ^ 20 \<and>
     length (fw_fragments w) = unat (fw_current_fragment_index w) \<and>
     (\<forall>k < length (fw_fragments w). fm_id (fw_fragments w ! k) = fw_fragment_id w \<and>
        fm_index (fw_fragments w ! k) = of_nat k \<and> length (fm_bytes (fw_fragments w ! k)) = FRAGMENTATION_LIMIT_BYTES)"

definition fw_free :: "fragment_writer \<Rightarrow> nat" where
  "fw_free w = (2 ^ 20 - 1 - unat (fw_current_fragment_index w)) * FRAGMENTATION_LIMIT_BITS +
     (FRAGMENTATION_LIMIT_BITS - bw_current_bits (fw_current_writer w))"

definition fw_extends :: "fragment_writer \<Rightarrow> bool list \<Rightarrow> fragment_writer \<Rightarrow> bool" where
  "fw_extends w bs w' \<longleftrightarrow> fw_bits w' = fw_bits w @ bs \<and> fw_fragment_id w' = fw_fragment_id w"

lemma length_fragments_bits:
  "(\<And>k. k < length ms \<Longrightarrow> length (fm_bytes (ms ! k)) = n) \<Longrightarrow> length (fragments_bits ms) = 8 * n * length ms"
proof (induction ms rule: rev_induct)
  case (snoc m ms)
  have "length (fm_bytes (ms ! k)) = n" if "k < length ms" for k
    using snoc.prems [of k] that by (simp add: nth_append)
  moreover have "length (fm_bytes m) = n" using snoc.prems [of "length ms"] by simp
  ultimately show ?case using snoc.IH by simp
qed simp

lemma length_fw_bits:
  assumes "fw_ok w"
  shows "length (fw_bits w) = 3200 * unat (fw_current_fragment_index w) + bw_current_bits (fw_current_writer w)"
    and "fw_free w + length (fw_bits w) = 2 ^ 20 * 3200"
proof -
  have "length (fragments_bits (fw_fragments w)) = 8 * 400 * length (fw_fragments w)"
    using assms by (intro length_fragments_bits) (simp add: fw_ok_def fragment_simps)
  then show l: "length (fw_bits w) = 3200 * unat (fw_current_fragment_index w) + bw_current_bits (fw_current_writer w)"
    using assms length_bw_bits by (simp add: fw_bits_def fw_ok_def)
  show "fw_free w + length (fw_bits w) = 2 ^ 20 * 3200"
    unfolding l using assms by (simp add: fw_free_def fw_ok_def fragment_simps diff_mult_distrib)
qed

lemma fw_new_ok: "fw_ok (fw_new i)" "fw_bits (fw_new i) = []" "fw_fragment_id (fw_new i) = i"
proof -
  have "bw_ok (bw_with_capacity 3200)" "bw_bits (bw_with_capacity 3200) = []"
    by (simp_all add: bw_ok_with_capacity mtu_simps)
  then show "fw_ok (fw_new i)" "fw_bits (fw_new i) = []" "fw_fragment_id (fw_new i) = i"
    by (simp_all add: fw_ok_def fw_new_def fw_bits_def fragment_simps) (simp_all add: bw_with_capacity_def)
qed

text \<open>Flushing adds the bytes of the current writer as a fragment; a full writer leaves no padding.\<close>

lemma fw_flush_current_cases:
  assumes ok: "fw_ok w"
  obtains (limit) "unat (fw_current_fragment_index w) + 1 = 2 ^ 20" "\<exists>m. fw_flush_current w = Inl (Panic m)"
  | (flushed) bytes w' where "unat (fw_current_fragment_index w) + 1 < 2 ^ 20" "fw_flush_current w = Inr w'"
      "w' = w \<lparr> fw_current_writer := bw_with_capacity FRAGMENTATION_LIMIT_BITS,
         fw_current_fragment_index := fw_current_fragment_index w + 1,
         fw_fragments := fw_fragments w @ [fm_new (fw_fragment_id w) (fw_current_fragment_index w) bytes] \<rparr>"
      "length bytes = (bw_current_bits (fw_current_writer w) + 7) div 8"
      "bytes_bits bytes = bw_bits (fw_current_writer w) @
         replicate (8 * length bytes - bw_current_bits (fw_current_writer w)) False"
proof -
  have "bw_ok (fw_current_writer w)" and i: "unat (fw_current_fragment_index w) < 2 ^ 20"
    using ok by (simp_all add: fw_ok_def)
  then obtain bytes where b: "bw_to_bytes (fw_current_writer w) = Inr bytes"
      "length bytes = (bw_current_bits (fw_current_writer w) + 7) div 8"
      "bytes_bits bytes = bw_bits (fw_current_writer w) @
         replicate (8 * length bytes - bw_current_bits (fw_current_writer w)) False"
    using bw_to_bytes_ok by blast
  show thesis
  proof (cases "unat (fw_current_fragment_index w) + 1 < 2 ^ 20")
    case True
    show thesis
      by (rule flushed [OF True _ refl b(2,3)])
        (use True b(1) fragment_index_increment_eq(1) [OF i] in \<open>simp add: fw_flush_current_def Let_def\<close>)
  next
    case False
    show thesis
      by (rule limit)
        (use False i b(1) fragment_index_increment_eq(1) [OF i] in \<open>simp_all add: fw_flush_current_def Let_def\<close>)
  qed
qed

lemma fw_flush_full:
  assumes ok: "fw_ok w" and full: "bw_current_bits (fw_current_writer w) = FRAGMENTATION_LIMIT_BITS"
    and room: "unat (fw_current_fragment_index w) + 1 < 2 ^ 20"
  shows "\<exists>w'. fw_flush_current w = Inr w' \<and> fw_ok w' \<and> fw_extends w [] w' \<and>
    bw_current_bits (fw_current_writer w') = 0"
  using ok
proof (cases rule: fw_flush_current_cases)
  case limit
  with room show ?thesis by simp
next
  case (flushed bytes w')
  have "length bytes = 400" using flushed(4) full by (simp add: fragment_simps)
  moreover from this have "bytes_bits bytes = bw_bits (fw_current_writer w)"
    using flushed(5) full by (simp add: fragment_simps)
  moreover have "bw_ok (bw_with_capacity 3200)" "bw_bits (bw_with_capacity 3200) = []"
      "bw_max_bits (bw_with_capacity 3200) = 3200" "bw_current_bits (bw_with_capacity 3200) = 0"
    by (simp_all add: bw_ok_with_capacity mtu_simps) (simp_all add: bw_with_capacity_def)
  moreover have "unat (fw_current_fragment_index w + 1) = unat (fw_current_fragment_index w) + 1"
    using room by (intro fragment_index_increment_eq) simp
  ultimately show ?thesis using ok flushed(1-3)
    by (auto simp: fw_ok_def fw_extends_def fw_bits_def fm_new_def fragment_simps nth_append less_Suc_eq)
qed

text \<open>Writing one bit, with room in the current writer and after a flush.\<close>

lemma fw_write_bit_room:
  assumes ok: "fw_ok w" and room: "bw_current_bits (fw_current_writer w) < FRAGMENTATION_LIMIT_BITS"
  shows "\<exists>w'. rbind (bw_write_bit b (fw_current_writer w)) (\<lambda>c. Inr (w \<lparr> fw_current_writer := c \<rparr>)) = Inr w' \<and>
    fw_ok w' \<and> fw_extends w [b] w'"
proof -
  have "bw_ok (fw_current_writer w)" "bw_current_bits (fw_current_writer w) < bw_max_bits (fw_current_writer w)"
    using ok room by (simp_all add: fw_ok_def)
  then obtain c where c: "bw_write_bit b (fw_current_writer w) = Inr c" "bw_ok c"
      "bw_bits c = bw_bits (fw_current_writer w) @ [b]" "bw_max_bits c = bw_max_bits (fw_current_writer w)"
    using bw_write_bit_ok by blast
  have "bw_current_bits c = bw_current_bits (fw_current_writer w) + 1"
    using length_bw_bits [OF c(2)] length_bw_bits [of "fw_current_writer w"] c(3) ok by (simp add: fw_ok_def)
  with c ok room show ?thesis by (simp add: fw_ok_def fw_extends_def fw_bits_def)
qed

lemma fw_bits_free: "fw_ok w \<Longrightarrow> bw_bits_free (fw_current_writer w) =
    Inr (FRAGMENTATION_LIMIT_BITS - bw_current_bits (fw_current_writer w))"
  by (simp add: fw_ok_def bw_bits_free_def)

lemma fw_write_bit_ok:
  assumes ok: "fw_ok w" and free: "1 \<le> fw_free w"
  shows "\<exists>w'. fw_write_bit b w = Inr w' \<and> fw_ok w' \<and> fw_extends w [b] w'"
proof (cases "bw_current_bits (fw_current_writer w) = FRAGMENTATION_LIMIT_BITS")
  case True
  then have "unat (fw_current_fragment_index w) + 1 < 2 ^ 20" using free by (auto simp: fw_free_def)
  then obtain w1 where w1: "fw_flush_current w = Inr w1" "fw_ok w1" "fw_extends w [] w1"
      "bw_current_bits (fw_current_writer w1) = 0"
    using fw_flush_full [OF ok True] by blast
  obtain w2 where "rbind (bw_write_bit b (fw_current_writer w1)) (\<lambda>c. Inr (w1 \<lparr> fw_current_writer := c \<rparr>)) = Inr w2"
      "fw_ok w2" "fw_extends w1 [b] w2"
    using fw_write_bit_room [OF w1(2)] w1(4) by (auto simp: fragment_simps)
  then show ?thesis using w1 True by (simp add: fw_write_bit_def fw_bits_free [OF ok] fw_extends_def)
next
  case False
  then have "bw_current_bits (fw_current_writer w) < FRAGMENTATION_LIMIT_BITS" using ok by (simp add: fw_ok_def)
  then show ?thesis using fw_write_bit_room [OF ok, of b] by (simp add: fw_write_bit_def fw_bits_free [OF ok])
qed

lemma fw_write_bit_full:
  assumes ok: "fw_ok w" and free: "fw_free w = 0"
  shows "\<exists>m. fw_write_bit b w = Inl (Panic m)"
proof -
  have "bw_current_bits (fw_current_writer w) = FRAGMENTATION_LIMIT_BITS" "\<not> unat (fw_current_fragment_index w) + 1 < 2 ^ 20"
    using free ok by (simp_all add: fw_free_def fw_ok_def fragment_simps)
  with fw_flush_current_cases [OF ok] have "\<exists>m. fw_flush_current w = Inl (Panic m)" by metis
  with \<open>bw_current_bits (fw_current_writer w) = FRAGMENTATION_LIMIT_BITS\<close> show ?thesis
    by (auto simp: fw_write_bit_def fw_bits_free [OF ok])
qed

lemma fw_extends_free: "fw_ok w \<Longrightarrow> fw_ok w' \<Longrightarrow> fw_extends w bs w' \<Longrightarrow> fw_free w' = fw_free w - length bs"
  using length_fw_bits(2) [of w] length_fw_bits(2) [of w'] by (simp add: fw_extends_def)

lemma fw_write_byte_loop_writes:
  assumes ok: "fw_ok w"
  shows "if n \<le> fw_free w then \<exists>w'. fw_write_byte_loop n u w = Inr w' \<and> fw_ok w' \<and> fw_extends w (wbits n u) w'
    else \<exists>m. fw_write_byte_loop n u w = Inl (Panic m)"
  using ok
proof (induction n arbitrary: u w)
  case 0
  then show ?case by (simp add: fw_extends_def)
next
  case (Suc n)
  show ?case
  proof (cases "fw_free w = 0")
    case True
    with fw_write_bit_full [OF Suc.prems, of "u AND 1 \<noteq> 0"] show ?thesis by auto
  next
    case False
    then obtain w1 where w1: "fw_write_bit (u AND 1 \<noteq> 0) w = Inr w1" "fw_ok w1" "fw_extends w [u AND 1 \<noteq> 0] w1"
      using fw_write_bit_ok [OF Suc.prems, of "u AND 1 \<noteq> 0"] by auto
    have fr: "fw_free w1 = fw_free w - 1" using fw_extends_free [OF Suc.prems w1(2,3)] by simp
    have b: "(u AND 1 \<noteq> 0) = bit u 0" by (simp add: and_one_eq odd_iff_mod_2_eq_one bit_0)
    show ?thesis using Suc.IH [OF w1(2), of "drop_bit 1 u"] w1 fr False b
      by (auto simp: fw_extends_def wbits_Suc split: if_splits)
  qed
qed

interpretation fragmenter: bit_write_impl fw_write_bit fw_write_byte fw_ok fw_free fw_extends
proof
  show "\<exists>w'. fw_write_byte u w = Inr w' \<and> fw_ok w' \<and> fw_extends w (byte_bits u) w'"
    if "fw_ok w" "8 \<le> fw_free w" for w u
    using fw_write_byte_loop_writes [OF that(1), of 8 u] that(2) by (simp add: fw_write_byte_def)
  show "\<exists>m. fw_write_byte u w = Inl (Panic m)" if "fw_ok w" "fw_free w < 8" for w u
    using fw_write_byte_loop_writes [OF that(1), of 8 u] that(2) by (simp add: fw_write_byte_def)
qed (simp_all add: fw_write_bit_ok fw_write_bit_full fw_extends_free, simp_all add: fw_extends_def)

text \<open>The fragments: numbered, complete, and with at most seven bits of padding in the last.\<close>

definition is_fragments :: "fragment_id \<Rightarrow> bool list \<Rightarrow> fragmented_message list \<Rightarrow> bool" where
  "is_fragments i bs ms \<longleftrightarrow> ms \<noteq> [] \<and> length ms < 2 ^ 20 \<and> length ms \<le> length bs div FRAGMENTATION_LIMIT_BITS + 1 \<and>
     (\<forall>k < length ms. fm_id (ms ! k) = i \<and> fm_index (ms ! k) = of_nat k \<and> fm_total (ms ! k) = of_nat (length ms) \<and>
        length (fm_bytes (ms ! k)) \<le> FRAGMENTATION_LIMIT_BYTES) \<and>
     (\<exists>n < 8. fragments_bits ms = bs @ replicate n False)"

lemma fw_to_messages_ok:
  assumes ok: "fw_ok w" and room: "unat (fw_current_fragment_index w) + 1 < 2 ^ 20"
  shows "\<exists>ms. fw_to_messages w = Inr ms \<and> is_fragments (fw_fragment_id w) (fw_bits w) ms"
  using ok
proof (cases rule: fw_flush_current_cases)
  case limit
  with room show ?thesis by simp
next
  case (flushed bytes w')
  let ?m = "fm_new (fw_fragment_id w) (fw_current_fragment_index w) bytes"
  let ?ms = "map (fm_set_total (fw_current_fragment_index w + 1)) (fw_fragments w @ [?m])"
  have u: "unat (fw_current_fragment_index w + 1) = unat (fw_current_fragment_index w) + 1"
    using room by (intro fragment_index_increment_eq) simp
  have len: "length ?ms = unat (fw_current_fragment_index w) + 1" using ok by (simp add: fw_ok_def)
  then have t: "fw_current_fragment_index w + 1 = of_nat (length ?ms)" using ok by (simp add: fw_ok_def)
  have b: "length bytes \<le> 400" using ok flushed(4) by (auto simp: fw_ok_def fragment_simps)
  have i: "\<forall>k < length ?ms. fm_id (?ms ! k) = fw_fragment_id w \<and> fm_index (?ms ! k) = of_nat k \<and>
      fm_total (?ms ! k) = of_nat (length ?ms) \<and> length (fm_bytes (?ms ! k)) \<le> FRAGMENTATION_LIMIT_BYTES"
    unfolding t [symmetric] using ok b
    by (auto simp: fw_ok_def fm_new_def fm_set_total_def nth_append less_Suc_eq fragment_simps simp del: map_append)
  have "8 * ((c + 7) div 8) - c < (8 :: nat)" for c by presburger
  moreover have "fragments_bits ?ms = fragments_bits (fw_fragments w @ [?m])"
    unfolding fragments_bits_def by (rule arg_cong [of _ _ concat]) (simp add: fm_set_total_def)
  ultimately have "\<exists>n < 8. fragments_bits ?ms = fw_bits w @ replicate n False"
    using flushed(4,5) by (auto simp: fw_bits_def fm_new_def simp del: map_append)
  then have "is_fragments (fw_fragment_id w) (fw_bits w) ?ms"
    unfolding is_fragments_def using i len room length_fw_bits(1) [OF ok] by (simp add: fragment_simps del: map_append)
  moreover have "fw_to_messages w = Inr ?ms" using flushed(2,3) by (simp add: fw_to_messages_def)
  ultimately show ?thesis by blast
qed

end
