(* ===== verification/Bit_Stream.thy ===== *)
theory Bit_Stream
  imports Fragment_Writer
begin

text \<open>
  The trait \<^verbatim>\<open>BitWrite\<close> as its callers see it, a writer, a counter or a fragment writer, and
  \<^verbatim>\<open>shared/serde/src/bit_reader.rs\<close>, a reader that refills a scratch register byte by byte.
  The lemmas refine them to lists of bits: \<open>writes f bs\<close> and \<open>reads f bs x\<close> say what a
  serialiser and a deserialiser do, and compose.
\<close>

unbundle bit_operations_syntax

section \<open>The trait\<close>

text \<open>A \<^verbatim>\<open>&mut dyn BitWrite\<close> is one of its three implementations.\<close>

datatype bit_write = Writer bit_writer | Counter bit_counter | Fragmenter fragment_writer

fun write_bit :: "bool \<Rightarrow> bit_write \<Rightarrow> bit_write res" where
  "write_bit b (Writer w) = rbind (bw_write_bit b w) (\<lambda>w. Inr (Writer w))"
| "write_bit b (Counter c) = rbind (bc_write_bit b c) (\<lambda>c. Inr (Counter c))"
| "write_bit b (Fragmenter f) = rbind (fw_write_bit b f) (\<lambda>f. Inr (Fragmenter f))"

fun write_byte :: "u8 \<Rightarrow> bit_write \<Rightarrow> bit_write res" where
  "write_byte b (Writer w) = rbind (bw_write_byte b w) (\<lambda>w. Inr (Writer w))"
| "write_byte b (Counter c) = rbind (bc_write_byte b c) (\<lambda>c. Inr (Counter c))"
| "write_byte b (Fragmenter f) = rbind (fw_write_byte b f) (\<lambda>f. Inr (Fragmenter f))"

fun is_counter :: "bit_write \<Rightarrow> bool" where
  "is_counter (Writer w) = False"
| "is_counter (Counter c) = True"
| "is_counter (Fragmenter f) = False"

fun count_bits :: "nat \<Rightarrow> bit_write \<Rightarrow> bit_write res" where
  "count_bits bits (Writer w) = Inl (Panic ''This method should not be called for BitWriter!'')"
| "count_bits bits (Counter c) = rbind (bc_count_bits bits c) (\<lambda>c. Inr (Counter c))"
| "count_bits bits (Fragmenter f) = Inl (Panic ''This method should only be used by BitCounter'')"

section \<open>The reader\<close>

record bit_reader =
  br_scratch :: u32
  br_scratch_bits :: nat
  br_buffer_index :: nat
  br_buffer :: "u8 list"

definition br_new :: "u8 list \<Rightarrow> bit_reader" where
  "br_new buffer = \<lparr> br_scratch = 0, br_scratch_bits = 0, br_buffer_index = 0, br_buffer = buffer \<rparr>"

definition br_bytes_len :: "bit_reader \<Rightarrow> nat" where
  "br_bytes_len r = length (br_buffer r)"

definition read_bit :: "bit_reader \<Rightarrow> (bool \<times> bit_reader) res" where
  "read_bit r =
     rbind
       (if br_scratch_bits r = 0 then
          (if br_buffer_index r = length (br_buffer r) then Inl SerdeErr
           else Inr (r \<lparr> br_scratch := ucast (br_buffer r ! br_buffer_index r),
                         br_buffer_index := br_buffer_index r + 1, br_scratch_bits := 8 \<rparr>))
        else Inr r)
       (\<lambda>r. Inr (br_scratch r AND 1 \<noteq> 0,
          r \<lparr> br_scratch := drop_bit 1 (br_scratch r), br_scratch_bits := br_scratch_bits r - 1 \<rparr>))"

fun read_byte_loop :: "nat \<Rightarrow> nat \<Rightarrow> u8 \<Rightarrow> bit_reader \<Rightarrow> (u8 \<times> bit_reader) res" where
  "read_byte_loop 0 i output r = Inr (output, r)"
| "read_byte_loop (Suc n) i output r =
     rbind (read_bit r) (\<lambda>(b, r). read_byte_loop n (Suc i) (if b then output OR push_bit i 1 else output) r)"

definition read_byte :: "bit_reader \<Rightarrow> (u8 \<times> bit_reader) res" where
  "read_byte r =
     (if br_scratch_bits r \<ge> 8 then
        Inr (ucast (br_scratch r AND 255),
             r \<lparr> br_scratch := drop_bit 8 (br_scratch r), br_scratch_bits := br_scratch_bits r - 8 \<rparr>)
      else read_byte_loop 8 0 0 r)"

text \<open>\<^verbatim>\<open>OwnedBitReader\<close> is a reader that owns its buffer.\<close>

definition bw_to_owned_reader :: "bit_writer \<Rightarrow> bit_reader res" where
  "bw_to_owned_reader w =
     rbind (bw_finalize w) (\<lambda>w. Inr (br_new (take (bw_byte_count w) (bw_buffer w))))"

text \<open>A \<^verbatim>\<open>dyn BitWrite\<close> is any of the three.\<close>

fun sink_ok :: "bit_write \<Rightarrow> bool" where
  "sink_ok (Writer w) = bw_core w"
| "sink_ok (Counter c) = bc_ok c"
| "sink_ok (Fragmenter f) = fw_ok f"

fun sink_free :: "bit_write \<Rightarrow> nat" where
  "sink_free (Writer w) = bw_capacity w - bw_current_bits w"
| "sink_free (Counter c) = 2 ^ 32 - 1 - bc_current_bits c"
| "sink_free (Fragmenter f) = fw_free f"

fun sink_extends :: "bit_write \<Rightarrow> bool list \<Rightarrow> bit_write \<Rightarrow> bool" where
  "sink_extends (Writer w) bs (Writer w') = (bw_bits w' = bw_bits w @ bs \<and> bw_max_bits w' = bw_max_bits w)"
| "sink_extends (Counter c) bs (Counter c') = (c' = c \<lparr> bc_current_bits := bc_current_bits c + length bs \<rparr>)"
| "sink_extends (Fragmenter f) bs (Fragmenter f') = fw_extends f bs f'"
| "sink_extends _ bs _ = False"

interpretation sink: bit_write_impl write_bit write_byte sink_ok sink_free sink_extends
proof
  fix w b assume "sink_ok w" "1 \<le> sink_free w"
  then show "\<exists>w'. write_bit b w = Inr w' \<and> sink_ok w' \<and> sink_extends w [b] w'"
    by (cases w; use writer.put_bit_ok [of "case w of Writer x \<Rightarrow> x" b] counter.put_bit_ok [of "case w of Counter x \<Rightarrow> x" b] fragmenter.put_bit_ok [of "case w of Fragmenter x \<Rightarrow> x" b] in auto)
next
  fix w b assume "sink_ok w" "sink_free w = 0"
  then show "\<exists>m. write_bit b w = Inl (Panic m)"
    by (cases w; use writer.put_bit_full [of "case w of Writer x \<Rightarrow> x" b] counter.put_bit_full [of "case w of Counter x \<Rightarrow> x" b] fragmenter.put_bit_full [of "case w of Fragmenter x \<Rightarrow> x" b] in auto)
next
  fix w u assume "sink_ok w" "8 \<le> sink_free w"
  then show "\<exists>w'. write_byte u w = Inr w' \<and> sink_ok w' \<and> sink_extends w (byte_bits u) w'"
    by (cases w; use writer.put_byte_ok [of "case w of Writer x \<Rightarrow> x" u] counter.put_byte_ok [of "case w of Counter x \<Rightarrow> x" u] fragmenter.put_byte_ok [of "case w of Fragmenter x \<Rightarrow> x" u] in auto)
next
  fix w u assume "sink_ok w" "sink_free w < 8"
  then show "\<exists>m. write_byte u w = Inl (Panic m)"
    by (cases w; use writer.put_byte_full [of "case w of Writer x \<Rightarrow> x" u] counter.put_byte_full [of "case w of Counter x \<Rightarrow> x" u] fragmenter.put_byte_full [of "case w of Fragmenter x \<Rightarrow> x" u] in auto)
next
  fix w show "sink_extends w [] w" by (cases w) (auto simp: fw_extends_def)
next
  fix w xs w' ys w'' assume "sink_extends w xs w'" "sink_extends w' ys w''"
  then show "sink_extends w (xs @ ys) w''" by (cases w; cases w'; cases w'') (auto simp: add.assoc fw_extends_def)
next
  fix w w' xs assume "sink_ok w" "sink_ok w'" "sink_extends w xs w'"
  then show "sink_free w' = sink_free w - length xs"
    by (cases w; cases w'; use writer.extends_free [of "case w of Writer x \<Rightarrow> x" "case w' of Writer x \<Rightarrow> x" xs] fw_extends_free in auto)
qed

section \<open>The reader refines a list of bits\<close>

definition br_ok :: "bit_reader \<Rightarrow> bool" where
  "br_ok r \<longleftrightarrow> br_buffer_index r \<le> length (br_buffer r) \<and> br_scratch_bits r \<le> 32"

definition br_bits :: "bit_reader \<Rightarrow> bool list" where
  "br_bits r = wbits (br_scratch_bits r) (br_scratch r) @ bytes_bits (drop (br_buffer_index r) (br_buffer r))"

lemma br_new_ok: "br_ok (br_new bytes)" "br_bits (br_new bytes) = bytes_bits bytes"
  by (simp_all add: br_ok_def br_bits_def br_new_def)

lemma read_bit_end: "br_ok r \<Longrightarrow> br_bits r = [] \<Longrightarrow> read_bit r = Inl SerdeErr"
proof -
  assume "br_ok r" "br_bits r = []"
  then have "length (br_bits r) = 0" "br_buffer_index r \<le> length (br_buffer r)" by (auto simp: br_ok_def)
  then have "br_scratch_bits r = 0" "br_buffer_index r = length (br_buffer r)" by (auto simp: br_bits_def)
  then show ?thesis by (simp add: read_bit_def)
qed

lemma and_1_ne_0: "(w :: 'a :: len word) AND 1 \<noteq> 0 \<longleftrightarrow> bit w 0"
  by (simp add: and_one_eq odd_iff_mod_2_eq_one bit_0)

lemma read_bit_step:
  assumes ok: "br_ok r" and bits: "br_bits r = b # bs"
  shows "\<exists>r'. read_bit r = Inr (b, r') \<and> br_ok r' \<and> br_bits r' = bs"
proof (cases "br_scratch_bits r")
  case 0
  then have "br_buffer_index r < length (br_buffer r)"
    using ok bits by (cases "br_buffer_index r = length (br_buffer r)") (auto simp: br_ok_def br_bits_def)
  then have d: "drop (br_buffer_index r) (br_buffer r) =
      br_buffer r ! br_buffer_index r # drop (Suc (br_buffer_index r)) (br_buffer r)"
    by (simp add: Cons_nth_drop_Suc)
  let ?w = "ucast (br_buffer r ! br_buffer_index r) :: u32"
  have "byte_bits (br_buffer r ! br_buffer_index r) = bit ?w 0 # wbits 7 (drop_bit 1 ?w)"
    using wbits_Suc [of 7 ?w] by (simp add: wbits_ucast)
  then have "b = bit ?w 0" "bs = wbits 7 (drop_bit 1 ?w) @ bytes_bits (drop (Suc (br_buffer_index r)) (br_buffer r))"
    using bits 0 d by (auto simp: br_bits_def)
  with 0 \<open>br_buffer_index r < length (br_buffer r)\<close> ok show ?thesis
    by (auto simp: read_bit_def br_ok_def br_bits_def and_1_ne_0)
next
  case (Suc n)
  then have "b = bit (br_scratch r) 0"
      "bs = wbits n (drop_bit 1 (br_scratch r)) @ bytes_bits (drop (br_buffer_index r) (br_buffer r))"
    using bits by (auto simp: br_bits_def wbits_Suc)
  with Suc ok show ?thesis by (auto simp: read_bit_def br_ok_def br_bits_def and_1_ne_0)
qed

text \<open>What an operation that reads \<open>x\<close> from the bits \<open>bs\<close> does.\<close>

definition reads :: "(bit_reader \<Rightarrow> ('a \<times> bit_reader) res) \<Rightarrow> bool list \<Rightarrow> 'a \<Rightarrow> bool" where
  "reads f bs x \<longleftrightarrow> (\<forall>r rest. br_ok r \<longrightarrow> br_bits r = bs @ rest \<longrightarrow>
     (\<exists>r'. f r = Inr (x, r') \<and> br_ok r' \<and> br_bits r' = rest))"

lemma readsI:
  "(\<And>r rest. br_ok r \<Longrightarrow> br_bits r = bs @ rest \<Longrightarrow> \<exists>r'. f r = Inr (x, r') \<and> br_ok r' \<and> br_bits r' = rest) \<Longrightarrow>
   reads f bs x"
  by (auto simp: reads_def)

lemma readsD:
  "reads f bs x \<Longrightarrow> br_ok r \<Longrightarrow> br_bits r = bs @ rest \<Longrightarrow> \<exists>r'. f r = Inr (x, r') \<and> br_ok r' \<and> br_bits r' = rest"
  by (auto simp: reads_def)

lemma reads_bit: "reads read_bit [b] b"
  by (rule readsI) (simp add: read_bit_step)

lemma reads_return: "reads (\<lambda>r. Inr (x, r)) [] x"
  by (simp add: reads_def)

lemma reads_bind:
  assumes f: "reads f xs a" and g: "reads (g a) ys b"
  shows "reads (\<lambda>r. rbind (f r) (\<lambda>(a, r). g a r)) (xs @ ys) b"
proof (rule readsI)
  fix r rest assume r: "br_ok r" "br_bits r = (xs @ ys) @ rest"
  obtain r1 where r1: "f r = Inr (a, r1)" "br_ok r1" "br_bits r1 = ys @ rest"
    using readsD [OF f r(1), of "ys @ rest"] r(2) by auto
  with readsD [OF g r1(2,3)] show "\<exists>r'. rbind (f r) (\<lambda>(a, r). g a r) = Inr (b, r') \<and> br_ok r' \<and> br_bits r' = rest"
    by auto
qed

text \<open>Setting bit \<open>i\<close> of a register that holds \<open>i\<close> bits.\<close>

lemma set_next_bit:
  fixes v :: "'a :: len word"
  assumes "clear_above i v" "i < LENGTH('a)"
  shows "wbits (Suc i) (if b then v OR push_bit i 1 else v) = wbits i v @ [b]"
    and "clear_above (Suc i) (if b then v OR push_bit i 1 else v)"
proof -
  have v: "(if b then v OR push_bit i 1 else v) = v OR push_bit i (of_bool b)" by auto
  show "wbits (Suc i) (if b then v OR push_bit i 1 else v) = wbits i v @ [b]"
    unfolding v using wbits_or_push [OF assms(1), of 1 "of_bool b"] assms(2) by (simp add: wbits_of_bool)
  show "clear_above (Suc i) (if b then v OR push_bit i 1 else v)"
    unfolding v using clear_above_or_push [OF assms(1) clear_above_of_bool, of b] by simp
qed

lemma read_byte_loop_reads:
  assumes "clear_above i v" "i + length bs = 8" "wbits i v @ bs = byte_bits u"
  shows "reads (read_byte_loop (length bs) i v) bs u"
  using assms
proof (induction bs arbitrary: i v)
  case Nil
  then have "v = u" using wbits_eq_iff [of v u] by simp
  then show ?case by (simp add: reads_return)
next
  case (Cons b bs)
  let ?v = "if b then v OR push_bit i 1 else v"
  have "i < 8" using Cons.prems(2) by simp
  then have *: "wbits (Suc i) ?v = wbits i v @ [b]" "clear_above (Suc i) ?v"
    using set_next_bit [OF Cons.prems(1), of b] by simp_all
  have IH: "reads (read_byte_loop (length bs) (Suc i) ?v) bs u"
    using Cons.prems(2,3) * by (intro Cons.IH) auto
  have "reads (\<lambda>r. rbind (read_bit r)
      (\<lambda>(b, r). read_byte_loop (length bs) (Suc i) (if b then v OR push_bit i 1 else v) r)) ([b] @ bs) u"
    by (rule reads_bind [where g = "\<lambda>b. read_byte_loop (length bs) (Suc i) (if b then v OR push_bit i 1 else v)",
          OF reads_bit [of b] IH])
  moreover have "read_byte_loop (length (b # bs)) i v = (\<lambda>r. rbind (read_bit r)
      (\<lambda>(b, r). read_byte_loop (length bs) (Suc i) (if b then v OR push_bit i 1 else v) r))"
    by (rule ext) simp
  ultimately show ?case by simp
qed

lemma reads_byte: "reads read_byte (byte_bits u) u"
proof (rule readsI)
  fix r rest assume r: "br_ok r" "br_bits r = byte_bits u @ rest"
  show "\<exists>r'. read_byte r = Inr (u, r') \<and> br_ok r' \<and> br_bits r' = rest"
  proof (cases "8 \<le> br_scratch_bits r")
    case True
    have "wbits (br_scratch_bits r) (br_scratch r) = wbits 8 (br_scratch r) @
        wbits (br_scratch_bits r - 8) (drop_bit 8 (br_scratch r))"
      using wbits_add [of 8 "br_scratch_bits r - 8" "br_scratch r"] True by simp
    then have u: "wbits 8 (br_scratch r) = byte_bits u" and rest: "rest =
        wbits (br_scratch_bits r - 8) (drop_bit 8 (br_scratch r)) @ bytes_bits (drop (br_buffer_index r) (br_buffer r))"
      using r(2) by (auto simp: br_bits_def)
    have "byte_bits (ucast (br_scratch r AND 255)) = byte_bits u"
    proof -
      have m: "(255 :: u32) = mask 8" by (simp add: mask_eq_exp_minus_1)
      have "byte_bits (ucast (br_scratch r AND 255)) = wbits 8 (br_scratch r)"
        unfolding m by (rule nth_equalityI) (auto simp: bit_ucast_iff bit_and_iff bit_mask_iff)
      with u show ?thesis by simp
    qed
    then have "ucast (br_scratch r AND 255) = u" using wbits_eq_iff [of "ucast (br_scratch r AND 255)" u] by simp
    with True rest r(1) show ?thesis by (auto simp: read_byte_def br_ok_def br_bits_def)
  next
    case False
    have "reads (read_byte_loop 8 0 0) (byte_bits u) u"
      using read_byte_loop_reads [of 0 0 "byte_bits u" u] by simp
    from readsD [OF this r] False show ?thesis by (simp add: read_byte_def)
  qed
qed

text \<open>A deserialiser that is safe on any input: it returns a value or \<^verbatim>\<open>SerdeErr\<close>.\<close>

definition de_safe :: "(bit_reader \<Rightarrow> ('a \<times> bit_reader) res) \<Rightarrow> bool" where
  "de_safe f \<longleftrightarrow> (\<forall>r. br_ok r \<longrightarrow> (case f r of Inl e \<Rightarrow> e = SerdeErr
     | Inr (x, r') \<Rightarrow> br_ok r' \<and> length (br_bits r') \<le> length (br_bits r)))"

lemma de_safeD:
  "de_safe f \<Longrightarrow> br_ok r \<Longrightarrow> f r = Inl e \<Longrightarrow> e = SerdeErr"
  "de_safe f \<Longrightarrow> br_ok r \<Longrightarrow> f r = Inr (x, r') \<Longrightarrow> br_ok r' \<and> length (br_bits r') \<le> length (br_bits r)"
  by (auto simp: de_safe_def dest!: spec [of _ r])

lemma de_safe_bit: "de_safe read_bit"
  unfolding de_safe_def
proof (intro allI impI)
  fix r assume ok: "br_ok r"
  show "case read_bit r of Inl e \<Rightarrow> e = SerdeErr
     | Inr (x, r') \<Rightarrow> br_ok r' \<and> length (br_bits r') \<le> length (br_bits r)"
  proof (cases "br_bits r")
    case Nil
    with read_bit_end [OF ok] show ?thesis by simp
  next
    case (Cons b bs)
    with read_bit_step [OF ok Cons] show ?thesis by auto
  qed
qed

lemma de_safe_return: "de_safe (\<lambda>r. Inr (x, r))"
  by (simp add: de_safe_def)

lemma de_safe_error: "de_safe (\<lambda>r. Inl SerdeErr)"
  by (simp add: de_safe_def)

lemma de_safe_bind:
  assumes f: "de_safe f" and g: "\<And>x. de_safe (g x)"
  shows "de_safe (\<lambda>r. rbind (f r) (\<lambda>(x, r). g x r))"
  unfolding de_safe_def
proof (intro allI impI)
  fix r assume ok: "br_ok r"
  show "case rbind (f r) (\<lambda>(x, r). g x r) of Inl e \<Rightarrow> e = SerdeErr
     | Inr (x, r') \<Rightarrow> br_ok r' \<and> length (br_bits r') \<le> length (br_bits r)"
  proof (cases "f r")
    case (Inl e)
    with de_safeD(1) [OF f ok] show ?thesis by simp
  next
    case (Inr p)
    obtain x r1 where p: "p = (x, r1)" by (cases p)
    have r1: "br_ok r1" "length (br_bits r1) \<le> length (br_bits r)" using de_safeD(2) [OF f ok] Inr p by auto
    show ?thesis
      using de_safeD(1) [OF g r1(1), of x] de_safeD(2) [OF g r1(1), of x] r1(2) Inr p
      by (cases "g x r1") force+
  qed
qed

lemma de_safe_byte_loop: "de_safe (read_byte_loop n i v)"
proof (induction n arbitrary: i v)
  case 0
  have "read_byte_loop 0 i v = (\<lambda>r. Inr (v, r))" by (rule ext) simp
  then show ?case by (simp add: de_safe_return)
next
  case (Suc n)
  have "read_byte_loop (Suc n) i v = (\<lambda>r. rbind (read_bit r)
      (\<lambda>(b, r). read_byte_loop n (Suc i) (if b then v OR push_bit i 1 else v) r))"
    by (rule ext) simp
  with de_safe_bind [OF de_safe_bit Suc] show ?case by simp
qed

lemma de_safe_byte: "de_safe read_byte"
proof -
  have "br_ok r \<Longrightarrow> 8 \<le> br_scratch_bits r \<Longrightarrow>
      br_ok (r \<lparr> br_scratch := v, br_scratch_bits := br_scratch_bits r - 8 \<rparr>) \<and>
      length (br_bits (r \<lparr> br_scratch := v, br_scratch_bits := br_scratch_bits r - 8 \<rparr>)) \<le> length (br_bits r)" for r v
    by (auto simp: br_ok_def br_bits_def)
  with de_safe_byte_loop [of 8 0 0] show ?thesis by (simp add: de_safe_def read_byte_def)
qed

section \<open>Runs of writes and reads\<close>

text \<open>A sequence of bit and byte writes, and the reads that match it.\<close>

fun write_token :: "bool + u8 \<Rightarrow> bit_write \<Rightarrow> bit_write res" where
  "write_token (Inl b) = write_bit b"
| "write_token (Inr u) = write_byte u"

fun token_bits :: "bool + u8 \<Rightarrow> bool list" where
  "token_bits (Inl b) = [b]"
| "token_bits (Inr u) = byte_bits u"

fun read_like :: "bool + u8 \<Rightarrow> bit_reader \<Rightarrow> ((bool + u8) \<times> bit_reader) res" where
  "read_like (Inl _) r = rbind (read_bit r) (\<lambda>(b, r). Inr (Inl b, r))"
| "read_like (Inr _) r = rbind (read_byte r) (\<lambda>(u, r). Inr (Inr u, r))"

definition read_all_like :: "(bool + u8) list \<Rightarrow> bit_reader \<Rightarrow> ((bool + u8) list \<times> bit_reader) res" where
  "read_all_like ts r = rfold (\<lambda>t (xs, r). rbind (read_like t r) (\<lambda>(x, r). Inr (xs @ [x], r))) ts ([], r)"

abbreviation tokens_bits :: "(bool + u8) list \<Rightarrow> bool list" where
  "tokens_bits ts \<equiv> concat (map token_bits ts)"

lemma write_tokens_writes: "sink.writes (rfold write_token ts) (tokens_bits ts)"
proof (rule sink.writes_rfold)
  fix t show "sink.writes (write_token t) (token_bits t)"
    by (cases t) (simp_all add: sink.writes_bit sink.writes_byte)
qed

lemma read_like_reads: "reads (read_like t) (token_bits t) t"
proof (cases t)
  case (Inl b)
  have "read_like t = (\<lambda>r. rbind (read_bit r) (\<lambda>(b, r). Inr (Inl b, r)))" by (rule ext) (simp add: Inl)
  with reads_bind [where g = "\<lambda>b r. Inr (Inl b, r)", OF reads_bit [of b] reads_return] Inl show ?thesis by simp
next
  case (Inr u)
  have "read_like t = (\<lambda>r. rbind (read_byte r) (\<lambda>(u, r). Inr (Inr u, r)))" by (rule ext) (simp add: Inr)
  with reads_bind [where g = "\<lambda>u r. Inr (Inr u, r)", OF reads_byte [of u] reads_return] Inr show ?thesis by simp
qed

lemma read_all_like_from:
  "br_ok r \<Longrightarrow> br_bits r = tokens_bits ts @ rest \<Longrightarrow>
   \<exists>r'. rfold (\<lambda>t (xs, r). rbind (read_like t r) (\<lambda>(x, r). Inr (xs @ [x], r))) ts (xs, r) = Inr (xs @ ts, r')"
proof (induction ts arbitrary: xs r)
  case (Cons t ts)
  from readsD [OF read_like_reads Cons.prems(1), of t "tokens_bits ts @ rest"] Cons.prems(2)
  obtain r1 where "read_like t r = Inr (t, r1)" "br_ok r1" "br_bits r1 = tokens_bits ts @ rest" by auto
  with Cons.IH [of r1 "xs @ [t]"] show ?case by auto
qed simp

lemma read_all_like_ok:
  "br_ok r \<Longrightarrow> br_bits r = tokens_bits ts @ rest \<Longrightarrow> \<exists>r'. read_all_like ts r = Inr (ts, r')"
  using read_all_like_from [of r ts rest "[]"] by (simp add: read_all_like_def)

lemma sink_extends_Writer: "sink_extends (Writer w) bs v \<Longrightarrow> \<exists>w'. v = Writer w' \<and> bw_bits w' = bw_bits w @ bs \<and> bw_max_bits w' = bw_max_bits w"
  by (cases v) auto

lemma sink_extends_Counter: "sink_extends (Counter c) bs v \<Longrightarrow> v = Counter (c \<lparr> bc_current_bits := bc_current_bits c + length bs \<rparr>)"
  by (cases v) auto

text \<open>What serialising into a writer and a counter does, for every serialiser.\<close>

lemma writes_core:
  assumes "sink.writes f bs" "bw_core w"
  shows "bw_current_bits w + length bs \<le> bw_capacity w \<Longrightarrow>
      \<exists>w'. f (Writer w) = Inr (Writer w') \<and> bw_core w' \<and> bw_bits w' = bw_bits w @ bs \<and> bw_max_bits w' = bw_max_bits w"
    and "bs \<noteq> [] \<Longrightarrow> bw_capacity w < bw_current_bits w + length bs \<Longrightarrow> \<exists>m. f (Writer w) = Inl (Panic m)"
proof -
  show "\<exists>w'. f (Writer w) = Inr (Writer w') \<and> bw_core w' \<and> bw_bits w' = bw_bits w @ bs \<and> bw_max_bits w' = bw_max_bits w"
    if "bw_current_bits w + length bs \<le> bw_capacity w"
  proof -
    have "length bs \<le> sink_free (Writer w)" unfolding sink_free.simps using that by linarith
    then obtain v where "f (Writer w) = Inr v" "sink_ok v" "sink_extends (Writer w) bs v"
      using sink.writesD(1) [OF assms(1), of "Writer w"] assms(2) by auto
    with sink_extends_Writer [OF this(3)] show ?thesis by auto
  qed
  show "\<exists>m. f (Writer w) = Inl (Panic m)" if "bs \<noteq> []" "bw_capacity w < bw_current_bits w + length bs"
  proof -
    have "0 < length bs" using that(1) by simp
    then have "\<not> length bs \<le> sink_free (Writer w)" unfolding sink_free.simps using that(2) by linarith
    with sink.writesD(2) [OF assms(1), of "Writer w"] assms(2) show ?thesis by simp
  qed
qed

lemma writes_Writer:
  assumes "sink.writes f bs" "bw_ok w" "bw_current_bits w + length bs \<le> bw_max_bits w"
  shows "\<exists>w'. f (Writer w) = Inr (Writer w') \<and> bw_ok w' \<and> bw_bits w' = bw_bits w @ bs \<and> bw_max_bits w' = bw_max_bits w"
proof -
  have "bw_core w" using assms(2) by (simp add: bw_ok_def)
  with writes_core(1) [OF assms(1) this] bw_ok_capacity [OF assms(2)] assms(3) obtain w' where
    "f (Writer w) = Inr (Writer w')" "bw_core w'" "bw_bits w' = bw_bits w @ bs" "bw_max_bits w' = bw_max_bits w" by auto
  with bw_core_ok [OF assms(2) this(2-4) assms(3)] show ?thesis by auto
qed

lemma writes_Writer_full:
  assumes "sink.writes f bs" "bw_ok w" "bs \<noteq> []" "bw_max_bits w < bw_current_bits w + length bs"
  shows "\<exists>m. f (Writer w) = Inl (Panic m)"
  using writes_core(2) [OF assms(1) _ assms(3)] bw_ok_capacity [OF assms(2)] assms(2,4) by (simp add: bw_ok_def)

lemma writes_Counter:
  assumes "sink.writes f bs" "bc_current_bits c + length bs < 2 ^ 32"
  shows "f (Counter c) = Inr (Counter (c \<lparr> bc_current_bits := bc_current_bits c + length bs \<rparr>))"
proof -
  have "length bs \<le> sink_free (Counter c)" unfolding sink_free.simps using assms(2) by linarith
  then obtain v where "f (Counter c) = Inr v" "sink_extends (Counter c) bs v"
    using sink.writesD(1) [OF assms(1), of "Counter c"] assms(2) by (auto simp: bc_ok_def)
  with sink_extends_Counter [OF this(2)] show ?thesis by simp
qed

lemma writes_Fragmenter:
  assumes f: "sink.writes f bs" and ok: "fw_ok w" and room: "length bs \<le> fw_free w"
  shows "\<exists>w'. f (Fragmenter w) = Inr (Fragmenter w') \<and> fw_ok w' \<and> fw_extends w bs w'"
proof -
  obtain v where v: "f (Fragmenter w) = Inr v" "sink_ok v" "sink_extends (Fragmenter w) bs v"
    using sink.writesD(1) [OF f, of "Fragmenter w"] ok room by auto
  then show ?thesis by (cases v) auto
qed

section \<open>Properties\<close>

text \<open>
  C21. Round trip of the bit stream: every sequence of bit and byte writes that fits into a packet
  succeeds, also where a byte spans two words of the scratch register; the bytes of the packet are
  as few as the bits need, and the matching reads give the sequence back.
\<close>

theorem bit_stream_roundtrip:
  assumes "length (tokens_bits ts) \<le> MTU_SIZE_BITS"
  shows "\<exists>w bytes r. rfold write_token ts (Writer bw_new) = Inr (Writer w) \<and> bw_to_bytes w = Inr bytes \<and>
    length bytes = (length (tokens_bits ts) + 7) div 8 \<and> read_all_like ts (br_new bytes) = Inr (ts, r)"
proof -
  obtain w where w: "rfold write_token ts (Writer bw_new) = Inr (Writer w)" "bw_ok w" "bw_bits w = tokens_bits ts"
    using writes_Writer [OF write_tokens_writes bw_ok_new(1), of ts] assms bw_ok_new(2)
    by (auto simp: bw_new_def)
  obtain bytes where b: "bw_to_bytes w = Inr bytes" "length bytes = (length (tokens_bits ts) + 7) div 8"
      "bytes_bits bytes = tokens_bits ts @ replicate (8 * length bytes - bw_current_bits w) False"
    using bw_to_bytes_ok [OF w(2)] w(3) length_bw_bits [OF w(2)] by auto
  have "\<exists>r. read_all_like ts (br_new bytes) = Inr (ts, r)"
    by (rule read_all_like_ok [OF br_new_ok(1)]) (use br_new_ok(2) b(3) in simp)
  with w b show ?thesis by blast
qed

theorem bit_stream_roundtrip_witness:
  "\<exists>w bytes r. rfold write_token [Inl True, Inr 200, Inr 1, Inr 77, Inr 129] (Writer bw_new) = Inr (Writer w) \<and>
    bw_to_bytes w = Inr bytes \<and> length bytes = 5 \<and>
    read_all_like [Inl True, Inr 200, Inr 1, Inr 77, Inr 129] (br_new bytes) =
      Inr ([Inl True, Inr 200, Inr 1, Inr 77, Inr 129], r)"
  using bit_stream_roundtrip [of "[Inl True, Inr 200, Inr 1, Inr 77, Inr 129]"] by (simp add: mtu_simps)

text \<open>
  C24. The counter predicts the writer: counting a sequence of writes with the counter a writer hands
  out needs exactly the bits of the sequence, and the counter has overflowed if and only if
  the writer itself would panic on the sequence.
\<close>

theorem counter_predicts_writer:
  assumes "cap \<le> MTU_SIZE_BITS" and "rfold write_token ts (Writer (bw_with_capacity cap)) = Inr (Writer w)"
    and "length (tokens_bits us) < 2 ^ 31"
  shows "\<exists>c. rfold write_token us (Counter (bw_counter w)) = Inr (Counter c) \<and>
    bc_bits_needed c = Inr (length (tokens_bits us)) \<and>
    ((\<exists>w'. rfold write_token us (Writer w) = Inr w') \<longleftrightarrow> \<not> bc_overflowed c)"
proof -
  have ok: "bw_ok w" and cur: "bw_current_bits w \<le> bw_max_bits w"
  proof -
    have fit: "length (tokens_bits ts) \<le> cap"
    proof (rule ccontr)
      assume long: "\<not> length (tokens_bits ts) \<le> cap"
      then have "0 < length (tokens_bits ts)" by linarith
      then have "tokens_bits ts \<noteq> []" by (simp only: length_greater_0_conv not_False_eq_True)
      with long have "\<exists>m. rfold write_token ts (Writer (bw_with_capacity cap)) = Inl (Panic m)"
        by (intro writes_Writer_full [OF write_tokens_writes bw_ok_with_capacity(1) [OF assms(1)]])
          (simp_all add: bw_with_capacity_def)
      with assms(2) show False by simp
    qed
    obtain w' where "rfold write_token ts (Writer (bw_with_capacity cap)) = Inr (Writer w')" "bw_ok w'"
        "bw_bits w' = tokens_bits ts" "bw_max_bits w' = cap"
      using writes_Writer [OF write_tokens_writes bw_ok_with_capacity(1) [OF assms(1)], of ts] fit bw_ok_with_capacity(2)
      by (auto simp: bw_with_capacity_def)
    with assms(2) fit length_bw_bits [of w'] show "bw_ok w" "bw_current_bits w \<le> bw_max_bits w" by auto
  qed
  let ?n = "length (tokens_bits us)"
  let ?c = "(bw_counter w) \<lparr> bc_current_bits := bw_current_bits w + ?n \<rparr>"
  have "bw_current_bits w \<le> 3440" using ok by (simp add: bw_ok_def mtu_simps)
  then have c: "rfold write_token us (Counter (bw_counter w)) = Inr (Counter ?c)"
    using writes_Counter [OF write_tokens_writes, of "bw_counter w" us] assms(3)
    by (simp add: bw_counter_def bc_new_def)
  have "(\<exists>w'. rfold write_token us (Writer w) = Inr w') \<longleftrightarrow> bw_current_bits w + ?n \<le> bw_max_bits w"
  proof (cases "bw_current_bits w + ?n \<le> bw_max_bits w")
    case True
    with writes_Writer [OF write_tokens_writes ok, of us] show ?thesis by auto
  next
    case False
    then have "0 < ?n" using cur by linarith
    then have "tokens_bits us \<noteq> []" by (simp only: length_greater_0_conv not_False_eq_True)
    with writes_Writer_full [OF write_tokens_writes ok, of us] False show ?thesis by auto
  qed
  with c show ?thesis
    by (simp add: bc_bits_needed_def bc_overflowed_def bw_counter_def bc_new_def not_less)
qed

theorem counter_predicts_writer_witness:
  "\<exists>c. rfold write_token [Inr 7, Inl True] (Counter (bw_counter (bw_with_capacity 8))) = Inr (Counter c) \<and>
    bc_bits_needed c = Inr 9 \<and>
    ((\<exists>w'. rfold write_token [Inr 7, Inl True] (Writer (bw_with_capacity 8)) = Inr w') \<longleftrightarrow> \<not> bc_overflowed c)"
  using counter_predicts_writer [of 8 "[]" "bw_with_capacity 8" "[Inr 7, Inl True]"] by (simp add: mtu_simps)

end
