(* ===== verification/Serde_Number.thy ===== *)
theory Serde_Number
  imports Bit_Stream
begin

text \<open>
  The integers of \<^verbatim>\<open>shared/serde/src/number.rs\<close>: \<^verbatim>\<open>SerdeInteger\<close> with its four flavours, fixed or
  variable width, signed or not, over the non-generic \<^verbatim>\<open>SerdeNumberInner\<close>. The const parameters
  of the generic type are arguments. An \<^verbatim>\<open>i128\<close> is an integer; the conversions to \<^verbatim>\<open>u128\<close> and the
  shifts are those of 128-bit words. The floats, which scale an \<^verbatim>\<open>f32\<close>, are not modelled.
\<close>

unbundle bit_operations_syntax

section \<open>The number\<close>

record serde_number =
  sn_inner_value :: int
  sn_signed :: bool
  sn_variable :: bool
  sn_bits :: nat
  sn_fraction_digits :: nat

definition sn_new_unchecked :: "bool \<Rightarrow> bool \<Rightarrow> nat \<Rightarrow> nat \<Rightarrow> int \<Rightarrow> serde_number" where
  "sn_new_unchecked is_signed is_variable bits fraction_digits value =
     \<lparr> sn_inner_value = value, sn_signed = is_signed, sn_variable = is_variable, sn_bits = bits,
       sn_fraction_digits = fraction_digits \<rparr>"

definition sn_new :: "bool \<Rightarrow> bool \<Rightarrow> nat \<Rightarrow> nat \<Rightarrow> int \<Rightarrow> serde_number res" where
  "sn_new is_signed is_variable bits fraction_digits value =
     (if bits = 0 then Inl (Panic ''can't create an number with 0 bits...'')
      else if bits > 127 then Inl (Panic ''can't create an number with more than 127 bits...'')
      else if \<not> is_signed \<and> value < 0 then Inl (Panic ''can't encode a negative number with an Unsigned type!'')
      else if \<not> is_variable \<and> bits = 127 then Inl (Panic ''attempt to multiply with overflow'')
      else if \<not> is_variable \<and> value \<ge> 2 ^ bits then Inl (Panic ''value is too high!'')
      else if \<not> is_variable \<and> is_signed \<and> value < 0 \<and> value \<le> - (2 ^ bits) then Inl (Panic ''value is too low!'')
      else Inr (sn_new_unchecked is_signed is_variable bits fraction_digits value))"

definition sn_get :: "serde_number \<Rightarrow> int" where
  "sn_get n = sn_inner_value n"

definition sn_set :: "int \<Rightarrow> serde_number \<Rightarrow> serde_number" where
  "sn_set value n = n \<lparr> sn_inner_value := value \<rparr>"

text \<open>\<^verbatim>\<open>for _ in 0..bits { writer.write_bit(value & 1 != 0); value >>= 1; }\<close>\<close>

fun ser_bits :: "nat \<Rightarrow> u128 \<Rightarrow> bit_write \<Rightarrow> (u128 \<times> bit_write) res" where
  "ser_bits 0 value w = Inr (value, w)"
| "ser_bits (Suc n) value w = rbind (write_bit (value AND 1 \<noteq> 0) w) (ser_bits n (drop_bit 1 value))"

lemma ser_bits_value: "ser_bits n v w = Inr (v', w') \<Longrightarrow> v' = drop_bit n v"
proof (induction n arbitrary: v w)
  case (Suc n)
  then obtain w1 where "ser_bits n (drop_bit 1 v) w1 = Inr (v', w')" by (auto simp: rbind_eq_Inr)
  from Suc.IH [OF this] show ?case by (simp add: drop_bit_drop_bit)
qed simp

lemma unat_exp: "n < LENGTH('a) \<Longrightarrow> unat (2 ^ n :: 'a :: len word) = 2 ^ n"
  using unsigned_push_bit_eq [of n "1 :: 'a word", where ?'a = nat] by (simp add: take_bit_nat_eq_self)

lemma drop_bit_less:
  fixes v :: u128
  assumes "v' = drop_bit n v" "push_bit n 1 \<le> v" "n \<noteq> 0" "\<not> 128 \<le> n"
  shows "unat v' < unat v"
proof -
  have "unat v' = drop_bit n (unat v)" by (simp only: assms(1) unat_drop_bit_eq)
  then have "unat v' = unat v div 2 ^ n" by (simp only: drop_bit_eq_div)
  moreover have "unat (push_bit n 1 :: u128) = 2 ^ n"
    using assms(4) by (simp add: unat_exp)
  then have "2 ^ n \<le> unat v" using assms(2) by (simp add: word_le_nat_alt)
  then have "0 < unat v" by (rule order_less_le_trans [rotated]) simp
  moreover have "2 \<le> (2 :: nat) ^ n" using assms(3) by (cases n) auto
  ultimately show ?thesis by (simp add: div_less_dividend)
qed

text \<open>
  The loop of a variable-width number. With no bits per chunk it would go on writing as long as the
  value is not zero; \<^verbatim>\<open>new\<close> rules that out.
\<close>

function ser_variable :: "nat \<Rightarrow> u128 \<Rightarrow> bit_write \<Rightarrow> bit_write res" where
  "ser_variable bits value w =
     (if bits \<ge> 128 then Inl (Panic ''attempt to shift left with overflow'')
      else
        (let proceed = (push_bit bits 1 \<le> value) in
         rbind (write_bit proceed w) (\<lambda>w. rbind (ser_bits bits value w) (\<lambda>(value', w).
           if \<not> proceed then Inr w
           else if bits = 0 then Inl Diverges
           else ser_variable bits value' w))))"
  by auto
termination
proof (relation "measure (\<lambda>(_, v, _). unat v)")
  fix bits v w x w1 p v' w2
  assume *: "\<not> 128 \<le> bits" "x = (push_bit bits 1 \<le> v)" "ser_bits bits v w1 = Inr p" "(v', w2) = p" "\<not> \<not> x" "bits \<noteq> 0"
  have "v' = drop_bit bits v" using *(3,4) ser_bits_value [of bits v w1 v' w2] by simp
  then have "unat v' < unat v" using *(1,2,5,6) by (intro drop_bit_less) simp_all
  then show "((bits, v', w2), bits, v, w) \<in> measure (\<lambda>(_, v, _). unat v)" by simp
qed auto

declare ser_variable.simps [simp del]

definition sn_ser_value :: "serde_number \<Rightarrow> u128 \<Rightarrow> bit_write \<Rightarrow> bit_write res" where
  "sn_ser_value n value w =
     (if sn_variable n then ser_variable (sn_bits n) value w
      else rbind (ser_bits (sn_bits n) value w) (\<lambda>(_, w). Inr w))"

definition sn_ser :: "serde_number \<Rightarrow> bit_write \<Rightarrow> bit_write res" where
  "sn_ser n w =
     (let negative = sn_inner_value n < 0 in
      if sn_signed n then
        rbind (write_bit negative w) (\<lambda>w.
          if negative then
            (if sn_inner_value n = - (2 ^ 127) then Inl (Panic ''attempt to negate with overflow'')
             else sn_ser_value n (of_int (- sn_inner_value n)) w)
          else sn_ser_value n (of_int (sn_inner_value n)) w)
      else sn_ser_value n (of_int (sn_inner_value n)) w)"

text \<open>
  \<^verbatim>\<open>for i in 0..bits { if reader.read_bit()? { raw |= 1 << i; } }\<close>, from bit \<open>i\<close> on. The shift
  overflows past the width of \<^verbatim>\<open>raw\<close>.
\<close>

fun acc_bits :: "nat \<Rightarrow> nat \<Rightarrow> 'a :: len word \<Rightarrow> bit_reader \<Rightarrow> ('a word \<times> bit_reader) res" where
  "acc_bits i 0 raw r = Inr (raw, r)"
| "acc_bits i (Suc n) raw r = rbind (read_bit r) (\<lambda>(b, r).
     if b then
       (if i < LENGTH('a) then acc_bits (Suc i) n (raw OR push_bit i 1) r
        else Inl (Panic ''attempt to shift left with overflow''))
     else acc_bits (Suc i) n raw r)"

text \<open>The accumulation, most significant bit first, of the widest numbers.\<close>

fun acc_msb :: "nat \<Rightarrow> u128 \<Rightarrow> bit_reader \<Rightarrow> (u128 \<times> bit_reader) res" where
  "acc_msb 0 raw r = Inr (raw, r)"
| "acc_msb (Suc n) raw r = rbind (read_bit r) (\<lambda>(b, r).
     acc_msb n (if b then push_bit 1 raw OR 1 else push_bit 1 raw) r)"

function de_variable :: "nat \<Rightarrow> u128 \<Rightarrow> nat \<Rightarrow> bit_reader \<Rightarrow> (u128 \<times> bit_reader) res" where
  "de_variable bits output shift r =
     rbind (read_bit r) (\<lambda>(proceed, r). rbind (acc_bits 0 bits (0 :: u32) r) (\<lambda>(chunk, r).
       if shift \<ge> 128 then Inl (Panic ''attempt to shift left with overflow'')
       else
         (let output = output OR push_bit shift (ucast chunk) in
          if \<not> proceed then Inr (output, r)
          else if bits = 0 then Inl Diverges
          else de_variable bits output (shift + bits) r)))"
  by auto
termination by (relation "measure (\<lambda>(_, _, shift, _). 128 - shift)") auto

declare de_variable.simps [simp del]

definition de_fixed :: "nat \<Rightarrow> bit_reader \<Rightarrow> (u128 \<times> bit_reader) res" where
  "de_fixed bits r =
     (if bits \<le> 32 then rbind (acc_bits 0 bits (0 :: u32) r) (\<lambda>(raw, r). Inr (ucast raw, r))
      else if bits \<le> 64 then rbind (acc_bits 0 bits (0 :: u64) r) (\<lambda>(raw, r). Inr (ucast raw, r))
      else
        rbind (acc_msb bits 0 r) (\<lambda>(raw, r).
          if bits \<le> 128 then Inr (word_reverse (push_bit (128 - bits) raw), r)
          else Inl (Panic ''attempt to subtract with overflow'')))"

text \<open>The result, cast to \<^verbatim>\<open>i128\<close> and negated.\<close>

definition signed_value :: "bool \<Rightarrow> u128 \<Rightarrow> int res" where
  "signed_value negative output =
     (let value = sint output in
      if negative then
        (if value = - (2 ^ 127) then Inl (Panic ''attempt to negate with overflow'') else Inr (- value))
      else Inr value)"

definition sn_de_value :: "bool \<Rightarrow> nat \<Rightarrow> bit_reader \<Rightarrow> (u128 \<times> bit_reader) res" where
  "sn_de_value is_variable bits r = (if is_variable then de_variable bits 0 0 r else de_fixed bits r)"

definition sn_de :: "bool \<Rightarrow> bool \<Rightarrow> nat \<Rightarrow> nat \<Rightarrow> bit_reader \<Rightarrow> (serde_number \<times> bit_reader) res" where
  "sn_de is_signed is_variable bits fraction_digits r =
     rbind (if is_signed then read_bit r else Inr (False, r)) (\<lambda>(negative, r).
       rbind (sn_de_value is_variable bits r) (\<lambda>(output, r).
         rbind (signed_value negative output) (\<lambda>value.
           Inr (sn_new_unchecked is_signed is_variable bits fraction_digits value, r))))"

lemma count_shift_iter: "((\<lambda>(n, v). (n + 1, drop_bit 1 v)) ^^ k) (m, v) = (m + k, drop_bit k (v :: 'a :: len word))"
  by (induction k) (auto simp: drop_bit_drop_bit)

text \<open>The loop of \<^verbatim>\<open>bit_length\<close>; the inner loop counts and shifts once per bit.\<close>

function length_variable :: "nat \<Rightarrow> nat \<Rightarrow> u128 \<Rightarrow> nat res" where
  "length_variable bits output value =
     (if bits \<ge> 128 then Inl (Panic ''attempt to multiply with overflow'')
      else
        (let proceed = (2 ^ bits \<le> value);
             (output, value') = ((\<lambda>(n, v). (n + 1, drop_bit 1 v)) ^^ bits) (output + 1, value)
         in if \<not> proceed then Inr output
            else if bits = 0 then Inl Diverges
            else length_variable bits output value'))"
  by auto

termination
proof (relation "measure (\<lambda>(_, _, v). unat v)")
  fix bits n m :: nat and v v' :: u128 and p x
  assume *: "\<not> 128 \<le> bits" "p = (2 ^ bits \<le> v)" "x = ((\<lambda>(n, v). (n + 1, drop_bit 1 v)) ^^ bits) (n + 1, v)"
    "(m, v') = x" "\<not> \<not> p" "bits \<noteq> 0"
  have "v' = drop_bit bits v" using *(3,4) by (simp only: count_shift_iter prod.inject)
  then have "unat v' < unat v" using *(1,2,5,6) by (intro drop_bit_less) simp_all
  then show "((bits, m, v'), bits, n, v) \<in> measure (\<lambda>(_, _, v). unat v)" by simp
qed simp

declare length_variable.simps [simp del]

definition sn_bit_length :: "serde_number \<Rightarrow> nat res" where
  "sn_bit_length n =
     (let output = (if sn_signed n then 1 else 0) in
      if sn_variable n then length_variable (sn_bits n) output (of_int \<bar>sn_inner_value n\<bar>)
      else Inr (output + sn_bits n))"

section \<open>Integers\<close>

type_synonym serde_integer = serde_number

definition si_new :: "bool \<Rightarrow> bool \<Rightarrow> nat \<Rightarrow> int \<Rightarrow> serde_integer res" where
  "si_new is_signed is_variable bits value = sn_new is_signed is_variable bits 0 value"

definition si_get :: "serde_integer \<Rightarrow> int" where
  "si_get n = sn_get n"

definition si_set :: "int \<Rightarrow> serde_integer \<Rightarrow> serde_integer" where
  "si_set value n = sn_set value n"

definition si_ser :: "serde_integer \<Rightarrow> bit_write \<Rightarrow> bit_write res" where
  "si_ser n w = sn_ser n w"

definition si_de :: "bool \<Rightarrow> bool \<Rightarrow> nat \<Rightarrow> bit_reader \<Rightarrow> (serde_integer \<times> bit_reader) res" where
  "si_de is_signed is_variable bits r = sn_de is_signed is_variable bits 0 r"

definition si_bit_length :: "serde_integer \<Rightarrow> nat res" where
  "si_bit_length n = sn_bit_length n"

definition si_const_bit_length :: "bool \<Rightarrow> nat \<Rightarrow> nat" where
  "si_const_bit_length is_signed bits = (if is_signed then 1 else 0) + bits"

text \<open>\<^verbatim>\<open>to::<T>()\<close> for a target that holds the integers from \<open>lo\<close> to \<open>hi\<close>.\<close>

definition si_to :: "int \<Rightarrow> int \<Rightarrow> serde_integer \<Rightarrow> int res" where
  "si_to lo hi n =
     (if lo \<le> si_get n \<and> si_get n \<le> hi then Inr (si_get n)
      else Inl (Panic ''SerdeInteger's value is out of range to convert to this type.''))"

section \<open>The encoding\<close>

function var_enc :: "nat \<Rightarrow> u128 \<Rightarrow> bool list" where
  "var_enc bits v =
     (if bits = 0 \<or> 128 \<le> bits then []
      else (2 ^ bits \<le> v) # wbits bits v @ (if 2 ^ bits \<le> v then var_enc bits (drop_bit bits v) else []))"
  by auto
termination
proof (relation "measure (\<lambda>(_, v). unat v)")
  fix bits :: nat and v :: u128
  assume "\<not> (bits = 0 \<or> 128 \<le> bits)" "2 ^ bits \<le> v"
  then have "unat (drop_bit bits v) < unat v" by (intro drop_bit_less) auto
  then show "((bits, drop_bit bits v), bits, v) \<in> measure (\<lambda>(_, v). unat v)" by simp
qed simp

declare var_enc.simps [simp del]

definition sn_enc :: "serde_number \<Rightarrow> bool list" where
  "sn_enc n = (if sn_signed n then [sn_inner_value n < 0] else []) @
     (if sn_variable n then var_enc (sn_bits n) (of_int \<bar>sn_inner_value n\<bar>)
      else wbits (sn_bits n) (of_int \<bar>sn_inner_value n\<bar> :: u128))"

text \<open>The numbers \<^verbatim>\<open>new\<close> admits; a variable-width number is decoded in chunks of at most 32 bits.\<close>

definition sn_ok :: "serde_number \<Rightarrow> bool" where
  "sn_ok n \<longleftrightarrow> 0 < sn_bits n \<and> (sn_signed n \<or> 0 \<le> sn_inner_value n) \<and>
     (if sn_variable n then sn_bits n \<le> 32 \<and> \<bar>sn_inner_value n\<bar> < 2 ^ 127
      else sn_bits n \<le> 126 \<and> \<bar>sn_inner_value n\<bar> < 2 ^ sn_bits n)"

lemma ser_bits_writes:
  "sink.writes (k (drop_bit n v)) bs \<Longrightarrow>
   sink.writes (\<lambda>w. rbind (ser_bits n v w) (\<lambda>(v, w). k v w)) (wbits n v @ bs)"
proof (induction n arbitrary: v)
  case (Suc n)
  have "sink.writes (\<lambda>w. rbind (ser_bits n (drop_bit 1 v) w) (\<lambda>(v, w). k v w)) (wbits n (drop_bit 1 v) @ bs)"
    using Suc by (simp add: drop_bit_drop_bit)
  from sink.writes_bind [OF sink.writes_bit [of "bit v 0"] this] show ?case
    by (simp add: wbits_Suc rbind_assoc and_1_ne_0)
qed simp

lemma ser_fixed_writes: "sink.writes (\<lambda>w. rbind (ser_bits n v w) (\<lambda>(_, w). Inr w)) (wbits n v)"
  using ser_bits_writes [of "\<lambda>_. Inr" n v "[]"] sink.writes_nothing by simp

lemma ser_variable_writes: "0 < bits \<Longrightarrow> bits < 128 \<Longrightarrow> sink.writes (ser_variable bits v) (var_enc bits v)"
proof (induction bits v rule: var_enc.induct)
  case (1 bits v)
  let ?p = "2 ^ bits \<le> v"
  let ?k = "\<lambda>v' w. if \<not> ?p then Inr w else ser_variable bits v' w"
  have "sink.writes (?k (drop_bit bits v)) (if ?p then var_enc bits (drop_bit bits v) else [])"
    using 1 by (cases ?p) (simp_all add: sink.writes_nothing)
  from sink.writes_bind [OF sink.writes_bit [of ?p] ser_bits_writes [where k = ?k, OF this]]
  have "sink.writes (\<lambda>w. rbind (write_bit ?p w) (\<lambda>w. rbind (ser_bits bits v w) (\<lambda>(v, w). ?k v w))) (var_enc bits v)"
    using 1(2,3) by (subst var_enc.simps) simp
  moreover have "ser_variable bits v = (\<lambda>w. rbind (write_bit ?p w) (\<lambda>w. rbind (ser_bits bits v w) (\<lambda>(v, w). ?k v w)))"
    using 1(2,3) by (intro ext, subst ser_variable.simps) (simp add: Let_def cong: if_cong)
  ultimately show ?case by simp
qed

lemma sn_ser_value_writes:
  "sn_ok n \<Longrightarrow> sink.writes (sn_ser_value n v) (if sn_variable n then var_enc (sn_bits n) v else wbits (sn_bits n) v)"
  using ser_variable_writes [of "sn_bits n" v] ser_fixed_writes [of "sn_bits n" v]
  by (cases "sn_variable n") (auto simp: sn_ser_value_def [abs_def] sn_ok_def)

lemma sn_ser_writes: 
  assumes ok: "sn_ok n"
  shows "sink.writes (sn_ser n) (sn_enc n)"
proof -
  have "sn_inner_value n \<noteq> - (2 ^ 127)"
  proof -
    have "\<bar>sn_inner_value n\<bar> < 2 ^ 127"
    proof (cases "sn_variable n")
      case False
      then have "\<bar>sn_inner_value n\<bar> < 2 ^ sn_bits n" "sn_bits n \<le> 127" using ok by (auto simp: sn_ok_def)
      moreover from this(2) have "(2 :: int) ^ sn_bits n \<le> 2 ^ 127" by (rule power_increasing) simp
      ultimately show ?thesis by linarith
    qed (use ok in \<open>simp add: sn_ok_def\<close>)
    then show ?thesis by linarith
  qed
  then have s: "sn_ser n = (if sn_signed n
      then (\<lambda>w. rbind (write_bit (sn_inner_value n < 0) w) (sn_ser_value n (of_int \<bar>sn_inner_value n\<bar>)))
      else sn_ser_value n (of_int \<bar>sn_inner_value n\<bar>))"
    using ok by (cases "sn_inner_value n < 0") (auto simp: sn_ser_def [abs_def] Let_def sn_ok_def)
  show ?thesis
    using sink.writes_bind [OF sink.writes_bit sn_ser_value_writes [OF ok]] sn_ser_value_writes [OF ok]
    by (simp add: s sn_enc_def)
qed

section \<open>Decoding\<close>

lemma clear_above_eqI:
  fixes v w :: "'a :: len word"
  assumes "clear_above n v" "clear_above n w" "wbits n v = wbits n w"
  shows "v = w"
proof (rule bit_word_eqI)
  fix i
  show "bit v i \<longleftrightarrow> bit w i"
  proof (cases "i < n")
    case True
    with assms(3) show ?thesis by (metis nth_wbits)
  qed (use assms(1,2) in \<open>simp add: clear_above_def\<close>)
qed

lemma clear_above_iff_take: "clear_above n v \<longleftrightarrow> take_bit n v = (v :: 'a :: len word)"
proof
  assume "clear_above n v"
  then show "take_bit n v = v" by (intro bit_word_eqI) (auto simp: bit_take_bit_iff clear_above_def not_le [symmetric])
next
  assume "take_bit n v = v"
  then show "clear_above n v" unfolding clear_above_def by (metis bit_take_bit_iff not_le)
qed

lemma clear_above_iff_less:
  fixes v :: "'a :: len word"
  assumes "n < LENGTH('a)"
  shows "clear_above n v \<longleftrightarrow> v < 2 ^ n"
proof -
  have "clear_above n v \<longleftrightarrow> take_bit n v = v" by (rule clear_above_iff_take)
  also have "\<dots> \<longleftrightarrow> take_bit n (unat v) = unat v"
    by (simp add: word_unat_eq_iff unsigned_take_bit_eq)
  also have "\<dots> \<longleftrightarrow> unat v < unat (2 ^ n :: 'a word)"
    using assms by (simp add: take_bit_nat_eq_self_iff unat_exp)
  finally show ?thesis by (simp add: word_less_nat_alt)
qed

lemma acc_bits_reads:
  fixes x v :: "'a :: len word"
  assumes "clear_above i v" "i + length bs \<le> LENGTH('a)"
    and "wbits (i + length bs) x = wbits i v @ bs" "clear_above (i + length bs) x"
  shows "reads (acc_bits i (length bs) v) bs x"
  using assms
proof (induction bs arbitrary: i v)
  case Nil
  then have "v = x" using clear_above_eqI [of i v x] by simp
  moreover have "acc_bits i 0 v = (\<lambda>r. Inr (v, r))" by (rule ext) simp
  ultimately show ?case by (simp add: reads_return)
next
  case (Cons b bs)
  let ?v = "\<lambda>b. if b then v OR push_bit i 1 else v"
  have i: "i < LENGTH('a)" using Cons.prems(2) by simp
  have *: "wbits (Suc i) (?v b) = wbits i v @ [b]" "clear_above (Suc i) (?v b)"
    using set_next_bit [OF Cons.prems(1) i, of b] by simp_all
  have IH: "reads (acc_bits (Suc i) (length bs) (?v b)) bs x"
    using Cons.prems(2,3,4) * by (intro Cons.IH) auto
  have "acc_bits i (length (b # bs)) v = (\<lambda>r. rbind (read_bit r) (\<lambda>(b, r). acc_bits (Suc i) (length bs) (?v b) r))"
    using i by (intro ext) (auto intro!: arg_cong2 [where f = rbind])
  with reads_bind [where g = "\<lambda>b. acc_bits (Suc i) (length bs) (?v b)", OF reads_bit [of b] IH] show ?case by simp
qed

lemma acc_bits_word:
  fixes x :: "'a :: len word"
  shows "clear_above n x \<Longrightarrow> n \<le> LENGTH('a) \<Longrightarrow> reads (acc_bits 0 n 0) (wbits n x) x"
  using acc_bits_reads [of 0 0 "wbits n x" x] by simp

lemma acc_bits_chunk:
  fixes v :: u128
  assumes "n \<le> LENGTH('a)" "LENGTH('a) \<le> 128"
  shows "reads (acc_bits 0 n (0 :: 'a :: len word)) (wbits n v) (ucast (take_bit n v))"
proof -
  have "clear_above n (ucast (take_bit n v) :: 'a word)"
    by (auto simp: clear_above_def bit_ucast_iff bit_take_bit_iff)
  moreover have "wbits n (ucast (take_bit n v) :: 'a word) = wbits n v"
    by (rule nth_equalityI) (use assms in \<open>auto simp: bit_ucast_iff bit_take_bit_iff\<close>)
  ultimately show ?thesis using acc_bits_word [of n "ucast (take_bit n v) :: 'a word"] assms(1) by simp
qed

lemma ucast_take_bit:
  fixes v :: u128
  assumes "n \<le> LENGTH('a)"
  shows "ucast (ucast (take_bit n v) :: 'a :: len word) = take_bit n v"
  by (rule bit_word_eqI) (use assms in \<open>auto simp: bit_ucast_iff bit_take_bit_iff\<close>)

lemma clear_above_take: "clear_above n (take_bit n v)"
  by (simp add: clear_above_def bit_take_bit_iff)

lemma push_split:
  fixes v :: "'a :: len word"
  shows "push_bit s (take_bit n v) OR push_bit (s + n) (drop_bit n v) = push_bit s v"
proof (rule bit_word_eqI)
  fix i assume "i < LENGTH('a)"
  show "bit (push_bit s (take_bit n v) OR push_bit (s + n) (drop_bit n v)) i \<longleftrightarrow> bit (push_bit s v) i"
  proof (cases "s + n \<le> i")
    case True
    then have "n + (i - (s + n)) = i - s" by simp
    with True show ?thesis by (auto simp: bit_or_iff bit_push_bit_iff bit_take_bit_iff bit_drop_bit_eq)
  qed (auto simp: bit_or_iff bit_push_bit_iff bit_take_bit_iff)
qed

lemma de_variable_reads:
  assumes bits: "0 < bits" "bits \<le> 32"
  shows "shift < 128 \<Longrightarrow> clear_above shift out \<Longrightarrow> clear_above (128 - shift) v \<Longrightarrow>
    reads (de_variable bits out shift) (var_enc bits v) (out OR push_bit shift v)"
  using bits
proof (induction bits v arbitrary: out shift rule: var_enc.induct)
  case (1 bits v)
  let ?p = "2 ^ bits \<le> v"
  let ?out = "out OR push_bit shift (take_bit bits v)"
  let ?k = "\<lambda>p c r. let out = out OR push_bit shift (ucast (c :: u32)) in
      if \<not> p then Inr (out, r) else de_variable bits out (shift + bits) r"
  have cl: "clear_above (shift + bits) ?out" by (rule clear_above_or_push [OF 1(3) clear_above_take])
  have "reads (?k ?p (ucast (take_bit bits v))) (if ?p then var_enc bits (drop_bit bits v) else []) (out OR push_bit shift v)"
  proof (cases ?p)
    case True
    have "bits < 128 - shift"
    proof (rule ccontr)
      assume "\<not> bits < 128 - shift"
      then have "clear_above bits v" using 1(4) by (auto simp: clear_above_def)
      with clear_above_iff_less [of bits v] 1(6) True show False by simp
    qed
    moreover have "clear_above (128 - (shift + bits)) (drop_bit bits v)"
      using clear_above_drop [OF 1(4), of bits] by (simp add: diff_diff_left)
    ultimately have "reads (de_variable bits ?out (shift + bits)) (var_enc bits (drop_bit bits v))
        (?out OR push_bit (shift + bits) (drop_bit bits v))"
      using 1(5,6) True cl by (intro 1(1)) auto
    moreover have "?out OR push_bit (shift + bits) (drop_bit bits v) = out OR push_bit shift v"
      by (simp add: or.assoc push_split)
    ultimately show ?thesis using True 1(6) by (simp add: ucast_take_bit)
  next
    case False
    then have "clear_above bits v" using clear_above_iff_less [of bits v] 1(6) by simp
    then have "take_bit bits v = v" by (simp add: clear_above_iff_take)
    with False 1(6) ucast_take_bit [of bits v, where 'a = 32] show ?thesis by (simp add: reads_return)
  qed
  from reads_bind [where g = "?k ?p", OF acc_bits_chunk [of bits v, where 'a = 32] this]
  have "reads (\<lambda>r. rbind (acc_bits 0 bits (0 :: u32) r) (\<lambda>(c, r). ?k ?p c r))
      (wbits bits v @ (if ?p then var_enc bits (drop_bit bits v) else [])) (out OR push_bit shift v)"
    using 1(6) by simp
  from reads_bind [where g = "\<lambda>p r. rbind (acc_bits 0 bits (0 :: u32) r) (\<lambda>(c, r). ?k p c r)", OF reads_bit this]
  have "reads (\<lambda>r. rbind (read_bit r) (\<lambda>(p, r). rbind (acc_bits 0 bits (0 :: u32) r) (\<lambda>(c, r). ?k p c r)))
      (var_enc bits v) (out OR push_bit shift v)"
    using 1(5,6) by (subst var_enc.simps) simp
  moreover have "de_variable bits out shift = (\<lambda>r. rbind (read_bit r) (\<lambda>(p, r). rbind (acc_bits 0 bits (0 :: u32) r) (\<lambda>(c, r). ?k p c r)))"
    using 1(2,5) by (intro ext, subst de_variable.simps) (simp cong: if_cong)
  ultimately show ?case by simp
qed

lemma acc_msb_reads:
  assumes "length bs + n \<le> 128" "clear_above n raw" "clear_above (n + length bs) x"
    and "rev (wbits (n + length bs) x) = rev (wbits n raw) @ bs"
  shows "reads (acc_msb (length bs) raw) bs x"
  using assms
proof (induction bs arbitrary: n raw)
  case Nil
  then have "raw = x" using clear_above_eqI [of n raw x] by simp
  moreover have "acc_msb 0 raw = (\<lambda>r. Inr (raw, r))" by (rule ext) simp
  ultimately show ?case by (simp add: reads_return)
next
  case (Cons b bs)
  let ?v = "\<lambda>b. if b then push_bit 1 raw OR 1 else push_bit 1 raw"
  have v: "?v b = of_bool b OR push_bit 1 raw" by (simp add: or.commute)
  have "clear_above (Suc n) (?v b)"
    unfolding v using clear_above_or_push [OF clear_above_of_bool Cons.prems(2), of b] by simp
  moreover have "wbits (Suc n) (?v b) = b # wbits n raw"
    unfolding v using wbits_or_push [OF clear_above_of_bool, of n b raw] Cons.prems(1) by (simp add: wbits_of_bool)
  ultimately have IH: "reads (acc_msb (length bs) (?v b)) bs x"
    using Cons.prems by (intro Cons.IH [of "Suc n"]) auto
  have "acc_msb (length (b # bs)) raw = (\<lambda>r. rbind (read_bit r) (\<lambda>(b, r). acc_msb (length bs) (?v b) r))"
    by (intro ext) simp
  with reads_bind [where g = "\<lambda>b. acc_msb (length bs) (?v b)", OF reads_bit [of b] IH] show ?case by simp
qed

lemma word_reverse_bits:
  fixes v :: u128
  assumes "n \<le> 128" "clear_above n v"
  shows "rev (wbits n (drop_bit (128 - n) (word_reverse v))) = wbits n v"
    and "clear_above n (drop_bit (128 - n) (word_reverse v))"
    and "word_reverse (push_bit (128 - n) (drop_bit (128 - n) (word_reverse v))) = v"
proof -
  let ?w = "drop_bit (128 - n) (word_reverse v)"
  have bit_w: "bit ?w i \<longleftrightarrow> i < n \<and> bit v (n - Suc i)" for i
    using assms(1) by (auto simp: bit_drop_bit_eq bit_word_reverse_iff)
  show "rev (wbits n ?w) = wbits n v"
    by (rule nth_equalityI) (auto simp: rev_nth bit_w)
  show "clear_above n ?w" by (auto simp: clear_above_def bit_w)
  show "word_reverse (push_bit (128 - n) ?w) = v"
  proof (rule bit_word_eqI)
    fix i assume i: "i < LENGTH(128)"
    then have "bit (word_reverse (push_bit (128 - n) ?w)) i \<longleftrightarrow> bit (push_bit (128 - n) ?w) (127 - i)"
      by (simp add: bit_word_reverse_iff)
    also have "\<dots> \<longleftrightarrow> i < n \<and> bit v i"
      using i assms(1) by (auto simp: bit_push_bit_iff bit_w Suc_diff_Suc)
    also have "\<dots> \<longleftrightarrow> bit v i" using assms(2) by (auto simp: clear_above_def not_le [symmetric])
    finally show "bit (word_reverse (push_bit (128 - n) ?w)) i \<longleftrightarrow> bit v i" .
  qed
qed

lemma de_fixed_reads:
  assumes "clear_above bits v" "bits \<le> 128"
  shows "reads (de_fixed bits) (wbits bits v) v"
proof -
  have t: "take_bit bits v = v" using assms(1) by (simp add: clear_above_iff_take)
  consider "bits \<le> 32" | "32 < bits" "bits \<le> 64" | "64 < bits" by linarith
  then show ?thesis
  proof cases
    case 1
    then have "reads (\<lambda>r. rbind (acc_bits 0 bits (0 :: u32) r) (\<lambda>(raw, r). Inr (ucast raw, r))) (wbits bits v @ []) v"
      using reads_bind [where g = "\<lambda>raw r. Inr (ucast raw :: u128, r)", OF acc_bits_chunk [of bits v, where 'a = 32] reads_return]
        ucast_take_bit [of bits v, where 'a = 32] t by simp
    with 1 show ?thesis by (simp add: de_fixed_def [abs_def])
  next
    case 2
    then have "reads (\<lambda>r. rbind (acc_bits 0 bits (0 :: u64) r) (\<lambda>(raw, r). Inr (ucast raw, r))) (wbits bits v @ []) v"
      using reads_bind [where g = "\<lambda>raw r. Inr (ucast raw :: u128, r)", OF acc_bits_chunk [of bits v, where 'a = 64] reads_return]
        ucast_take_bit [of bits v, where 'a = 64] t by simp
    with 2 show ?thesis by (simp add: de_fixed_def [abs_def])
  next
    case 3
    let ?raw = "drop_bit (128 - bits) (word_reverse v)"
    note rev = word_reverse_bits [OF assms(2,1)]
    have "reads (acc_msb bits 0) (wbits bits v) ?raw"
      using acc_msb_reads [of "wbits bits v" 0 0 ?raw] assms(2) rev by simp
    from reads_bind [where g = "\<lambda>raw r. Inr (word_reverse (push_bit (128 - bits) raw), r)", OF this reads_return] rev(3)
    have "reads (\<lambda>r. rbind (acc_msb bits 0 r) (\<lambda>(raw, r). Inr (word_reverse (push_bit (128 - bits) raw), r)))
      (wbits bits v @ []) v" by simp
    with 3 assms(2) show ?thesis by (simp add: de_fixed_def [abs_def])
  qed
qed

lemma sint_of_int_u128: "0 \<le> a \<Longrightarrow> a < 2 ^ 127 \<Longrightarrow> sint (of_int a :: u128) = a"
  by (simp add: signed_of_int signed_take_bit_int_eq_self)

lemma signed_value_of_int:
  "0 \<le> a \<Longrightarrow> a < 2 ^ 127 \<Longrightarrow> signed_value negative (of_int a) = Inr (if negative then - a else a)"
  by (simp add: signed_value_def sint_of_int_u128)

lemma clear_above_of_int:
  assumes "0 \<le> a" "a < 2 ^ n" "n < 128"
  shows "clear_above n (of_int a :: u128)"
proof -
  have "take_bit n a = a" using assms by (simp add: take_bit_int_eq_self)
  then show ?thesis unfolding clear_above_iff_take by (metis of_int_take_bit)
qed

lemma sn_ok_value:
  assumes "sn_ok n"
  shows "\<bar>sn_inner_value n\<bar> < 2 ^ 127"
proof (cases "sn_variable n")
  case False
  then have "\<bar>sn_inner_value n\<bar> < 2 ^ sn_bits n" "sn_bits n \<le> 127" using assms by (auto simp: sn_ok_def)
  moreover from this(2) have "(2 :: int) ^ sn_bits n \<le> 2 ^ 127" by (rule power_increasing) simp
  ultimately show ?thesis by linarith
qed (use assms in \<open>simp add: sn_ok_def\<close>)

lemma sn_de_value_reads:
  assumes ok: "sn_ok n"
  shows "reads (sn_de_value (sn_variable n) (sn_bits n))
    (if sn_variable n then var_enc (sn_bits n) (of_int \<bar>sn_inner_value n\<bar>)
     else wbits (sn_bits n) (of_int \<bar>sn_inner_value n\<bar> :: u128)) (of_int \<bar>sn_inner_value n\<bar>)"
proof (cases "sn_variable n")
  case True
  have "clear_above 128 (of_int \<bar>sn_inner_value n\<bar> :: u128)"
    using bit_imp_le_length by (fastforce simp: clear_above_def)
  then have "reads (de_variable (sn_bits n) 0 0) (var_enc (sn_bits n) (of_int \<bar>sn_inner_value n\<bar>)) (of_int \<bar>sn_inner_value n\<bar>)"
    using de_variable_reads [of "sn_bits n" 0 0 "of_int \<bar>sn_inner_value n\<bar>"] ok True by (simp add: sn_ok_def)
  with True show ?thesis by (simp add: sn_de_value_def [abs_def])
next
  case False
  then have "clear_above (sn_bits n) (of_int \<bar>sn_inner_value n\<bar> :: u128)"
    using ok by (intro clear_above_of_int) (auto simp: sn_ok_def)
  from de_fixed_reads [OF this] False ok show ?thesis by (simp add: sn_de_value_def [abs_def] sn_ok_def)
qed

lemma sn_de_reads:
  assumes ok: "sn_ok n"
  shows "reads (sn_de (sn_signed n) (sn_variable n) (sn_bits n) (sn_fraction_digits n)) (sn_enc n) n"
proof -
  let ?neg = "sn_inner_value n < 0 \<and> sn_signed n"
  let ?b = "if sn_variable n then var_enc (sn_bits n) (of_int \<bar>sn_inner_value n\<bar>)
     else wbits (sn_bits n) (of_int \<bar>sn_inner_value n\<bar> :: u128)"
  let ?g = "\<lambda>negative output (r :: bit_reader). rbind (signed_value negative output) (\<lambda>value.
      Inr (sn_new_unchecked (sn_signed n) (sn_variable n) (sn_bits n) (sn_fraction_digits n) value, r))"
  let ?h = "\<lambda>negative r. rbind (sn_de_value (sn_variable n) (sn_bits n) r) (\<lambda>(output, r). ?g negative output r)"
  have "?g ?neg (of_int \<bar>sn_inner_value n\<bar>) = (\<lambda>r. Inr (n, r))"
    using ok sn_ok_value [OF ok] by (auto simp: signed_value_of_int sn_new_unchecked_def sn_ok_def)
  then have "reads (?g ?neg (of_int \<bar>sn_inner_value n\<bar>)) [] n" by (simp add: reads_return)
  from reads_bind [where g = "?g ?neg", OF sn_de_value_reads [OF ok] this]
  have h: "reads (?h ?neg) ?b n" by simp
  have "sn_de (sn_signed n) (sn_variable n) (sn_bits n) (sn_fraction_digits n) =
      (if sn_signed n then (\<lambda>r. rbind (read_bit r) (\<lambda>(negative, r). ?h negative r)) else ?h False)"
    by (rule ext) (simp add: sn_de_def)
  with h reads_bind [where g = ?h, OF reads_bit [of "sn_inner_value n < 0"], of ?b n]
  show ?thesis by (cases "sn_signed n") (auto simp: sn_enc_def)
qed

lemma length_variable_enc:
  "0 < bits \<Longrightarrow> bits < 128 \<Longrightarrow> length_variable bits k v = Inr (k + length (var_enc bits v))"
proof (induction bits v arbitrary: k rule: var_enc.induct)
  case (1 bits v)
  show ?case
    using 1(1) [of "k + Suc bits"] 1(2,3)
    by (subst length_variable.simps, subst var_enc.simps)
      (simp only: count_shift_iter, simp)
qed

lemma sn_bit_length_enc: "sn_ok n \<Longrightarrow> sn_bit_length n = Inr (length (sn_enc n))"
  using length_variable_enc [of "sn_bits n"]
  by (auto simp: sn_bit_length_def sn_enc_def sn_ok_def)

text \<open>\<^verbatim>\<open>new\<close> makes exactly the numbers of the invariant, apart from chunks of more than 32 bits.\<close>

lemma sn_new_ok:
  assumes "sn_new s v b f x = Inr n" "v \<longrightarrow> b \<le> 32 \<and> \<bar>x\<bar> < 2 ^ 127"
  shows "sn_ok n \<and> sn_signed n = s \<and> sn_variable n = v \<and> sn_bits n = b \<and> sn_inner_value n = x \<and> sn_fraction_digits n = f"
proof -
  have n: "n = sn_new_unchecked s v b f x" "b \<noteq> 0" "b \<le> 127" "s \<or> 0 \<le> x"
    and fixed: "\<not> v \<Longrightarrow> b \<noteq> 127 \<and> x < 2 ^ b \<and> \<not> (s \<and> x < 0 \<and> x \<le> - (2 ^ b))"
    using assms(1) unfolding sn_new_def by (simp_all only: split: if_splits) (simp_all add: not_less not_le)
  have "\<bar>x\<bar> < 2 ^ b" if "\<not> v"
    using fixed [OF that] n(4) by (cases "x < 0") auto
  with n fixed assms(2) show ?thesis by (auto simp: sn_ok_def sn_new_unchecked_def)
qed

section \<open>Bounds on the length\<close>

lemma length_var_enc:
  "0 < bits \<Longrightarrow> bits < 128 \<Longrightarrow> clear_above k v \<Longrightarrow> length (var_enc bits v) \<le> 2 * (k + bits)"
proof (induction bits v arbitrary: k rule: var_enc.induct)
  case (1 bits v)
  show ?case
  proof (cases "2 ^ bits \<le> v")
    case True
    have "bits < k"
    proof (rule ccontr)
      assume "\<not> bits < k"
      then have "clear_above bits v" using 1(4) by (auto simp: clear_above_def)
      with clear_above_iff_less [of bits v] 1(3) True show False by simp
    qed
    moreover have "length (var_enc bits (drop_bit bits v)) \<le> 2 * (k - bits + bits)"
      using 1(2,3) True by (intro 1(1) clear_above_drop [OF 1(4)]) auto
    ultimately show ?thesis using True 1(2,3) by (subst var_enc.simps) simp
  next
    case False
    with 1(2,3) show ?thesis by (subst var_enc.simps) simp
  qed
qed

lemma length_sn_enc:
  assumes "sn_ok n"
  shows "length (sn_enc n) \<le> 320"
proof (cases "sn_variable n")
  case True
  then have "length (var_enc (sn_bits n) (of_int \<bar>sn_inner_value n\<bar>)) \<le> 2 * (127 + sn_bits n)"
    using assms sn_ok_value [OF assms] by (intro length_var_enc clear_above_of_int) (auto simp: sn_ok_def)
  with assms True show ?thesis by (auto simp: sn_enc_def sn_ok_def)
qed (use assms in \<open>auto simp: sn_enc_def sn_ok_def\<close>)

lemma wbits_mask: "n \<le> LENGTH('a) \<Longrightarrow> wbits n (mask n :: 'a :: len word) = replicate n True"
  by (rule nth_equalityI) (auto simp: bit_mask_iff)

lemma de_variable_ones:
  assumes bits: "0 < bits" "bits \<le> 32"
  shows "br_ok r \<Longrightarrow> br_bits r = replicate (k * Suc bits) True @ rest \<Longrightarrow> 128 \<le> shift + (k - 1) * bits \<Longrightarrow> 0 < k \<Longrightarrow>
    de_variable bits out shift r = Inl (Panic ''attempt to shift left with overflow'')"
proof (induction k arbitrary: out shift r)
  case (Suc k)
  have "br_bits r = True # replicate bits True @ replicate (k * Suc bits) True @ rest"
    using Suc.prems(2) by (simp only: mult_Suc replicate_add replicate.simps append_Cons append_assoc)
  from read_bit_step [OF Suc.prems(1) this] obtain r1 where r1: "read_bit r = Inr (True, r1)" "br_ok r1"
      "br_bits r1 = replicate bits True @ replicate (k * Suc bits) True @ rest" by auto
  have "reads (acc_bits 0 bits (0 :: u32)) (replicate bits True) (ucast (take_bit bits (mask bits :: u128)))"
    using acc_bits_chunk [of bits "mask bits", where 'a = 32] wbits_mask [of bits, where 'a = 128] bits(2) by simp
  from readsD [OF this r1(2,3)] obtain c r2 where r2: "acc_bits 0 bits (0 :: u32) r1 = Inr (c, r2)" "br_ok r2"
      "br_bits r2 = replicate (k * Suc bits) True @ rest" by blast
  show ?case
  proof (cases "128 \<le> shift")
    case True
    then show ?thesis by (subst de_variable.simps) (simp add: r1 r2)
  next
    case False
    then have k: "0 < k" using Suc.prems(3) by (cases k) auto
    then have "128 \<le> shift + bits + (k - 1) * bits" using Suc.prems(3) by (cases k) auto
    from Suc.IH [OF r2(2,3) this k] False bits(1) show ?thesis
      by (subst de_variable.simps) (simp add: r1 r2)
  qed
qed simp

section \<open>Properties\<close>



text \<open>
  C33. A variable-width integer must not be decoded from untrusted bytes in a build with overflow
  checks: a packet that starts with enough one bits makes \<^verbatim>\<open>de\<close> panic (a shift past 128 bits) instead
  of returning \<^verbatim>\<open>SerdeErr\<close>, whatever the chunk width.
\<close>

theorem variable_integer_decode_panics:
  assumes "0 < bits" and "bits \<le> 32" and "(128 div bits + 2) * (bits + 1) \<le> 8 * k"
  shows "si_de False True bits (br_new (replicate k 255)) =
    Inl (Panic ''attempt to shift left with overflow'')"
proof -
  let ?k = "128 div bits + 2"
  have m: "(255 :: u8) = mask 8" by (simp add: mask_eq_exp_minus_1)
  have "bytes_bits (replicate k 255) = replicate (8 * k) True"
    unfolding m by (induction k) (simp_all add: wbits_mask replicate_add)
  moreover have "8 * k = ?k * Suc bits + (8 * k - ?k * Suc bits)" using assms(3) by simp
  ultimately have "br_bits (br_new (replicate k 255)) = replicate (?k * Suc bits) True @ replicate (8 * k - ?k * Suc bits) True"
    using br_new_ok(2) [of "replicate k 255"] by (metis replicate_add)
  moreover have "128 \<le> 0 + (?k - 1) * bits"
  proof -
    have "128 div bits * bits + 128 mod bits = 128" by (rule div_mult_mod_eq)
    moreover have "(?k - 1) * bits = 128 div bits * bits + bits" by simp
    moreover have "128 mod bits < bits" using assms(1) by simp
    ultimately show ?thesis by linarith
  qed
  ultimately have "de_variable bits 0 0 (br_new (replicate k 255)) = Inl (Panic ''attempt to shift left with overflow'')"
    by (rule de_variable_ones [OF assms(1,2) br_new_ok(1)]) simp
  then show ?thesis by (simp add: si_de_def sn_de_def sn_de_value_def)
qed

theorem variable_integer_decode_panics_witness:
  "si_de False True 5 (br_new (replicate 21 255)) = Inl (Panic ''attempt to shift left with overflow'')"
  by (rule variable_integer_decode_panics) simp_all

end
