(* ===== verification/Serde.thy ===== *)
theory Serde
  imports Serde_Number
begin

text \<open>
  The trait \<^verbatim>\<open>Serde\<close> of \<^verbatim>\<open>shared/serde/src/serde.rs\<close> and its implementations in
  \<^verbatim>\<open>shared/serde/src/impls\<close>: scalars, options, tuples, arrays, vectors and byte slices, and the
  enumerations of the derive macro. The trait's contract is the locale below; it is proved once for
  every implementation, and the round trip through a packet once for the trait.
  A signed machine integer and a float are the word of their bytes; the byte order of the machine is
  little endian.
\<close>

unbundle bit_operations_syntax

section \<open>Scalars\<close>

definition unit_ser :: "unit \<Rightarrow> bit_write \<Rightarrow> bit_write res" where
  "unit_ser x w = Inr w"

definition unit_de :: "bit_reader \<Rightarrow> (unit \<times> bit_reader) res" where
  "unit_de r = Inr ((), r)"

definition bool_ser :: "bool \<Rightarrow> bit_write \<Rightarrow> bit_write res" where
  "bool_ser b w = write_bit b w"

definition bool_de :: "bit_reader \<Rightarrow> (bool \<times> bit_reader) res" where
  "bool_de r = read_bit r"

definition u8_ser :: "u8 \<Rightarrow> bit_write \<Rightarrow> bit_write res" where
  "u8_ser u w = write_byte u w"

definition u8_de :: "bit_reader \<Rightarrow> (u8 \<times> bit_reader) res" where
  "u8_de r = read_byte r"

text \<open>The macro \<^verbatim>\<open>impl_serde_for\<close>, for a type of \<^verbatim>\<open>LENGTH('a) div 8\<close> bytes.\<close>

definition word_ser :: "'a :: len word \<Rightarrow> bit_write \<Rightarrow> bit_write res" where
  "word_ser x w = rfold write_byte (to_le_bytes x) w"

text \<open>\<^verbatim>\<open>for _ in 0..n { ... T::de(reader)? ... }\<close>\<close>

fun read_n :: "(bit_reader \<Rightarrow> ('a \<times> bit_reader) res) \<Rightarrow> nat \<Rightarrow> bit_reader \<Rightarrow> ('a list \<times> bit_reader) res" where
  "read_n de 0 r = Inr ([], r)"
| "read_n de (Suc n) r = rbind (de r) (\<lambda>(x, r). rbind (read_n de n r) (\<lambda>(xs, r). Inr (x # xs, r)))"

fun from_le_bytes :: "u8 list \<Rightarrow> 'a :: len word" where
  "from_le_bytes [] = 0"
| "from_le_bytes (b # bs) = ucast b OR push_bit 8 (from_le_bytes bs)"

definition word_de :: "bit_reader \<Rightarrow> ('a :: len word \<times> bit_reader) res" where
  "word_de r = rbind (read_n read_byte (LENGTH('a) div 8) r) (\<lambda>(bytes, r). Inr (from_le_bytes bytes, r))"

definition word_const_bit_length :: "'a :: len itself \<Rightarrow> nat" where
  "word_const_bit_length _ = LENGTH('a) div 8 * 8"

text \<open>A \<^verbatim>\<open>char\<close> is a code point: below 0x110000 and no surrogate.\<close>

definition is_char :: "u32 \<Rightarrow> bool" where
  "is_char c \<longleftrightarrow> c < 0x110000 \<and> \<not> (0xD800 \<le> c \<and> c \<le> 0xDFFF)"

definition char_ser :: "u32 \<Rightarrow> bit_write \<Rightarrow> bit_write res" where
  "char_ser c w = rfold write_byte (to_le_bytes c) w"

definition char_de :: "bit_reader \<Rightarrow> (u32 \<times> bit_reader) res" where
  "char_de r = rbind (read_n read_byte 4 r) (\<lambda>(bytes, r).
     let c = from_le_bytes bytes in if is_char c then Inr (c, r) else Inl SerdeErr)"

section \<open>Containers\<close>

fun option_ser :: "('a \<Rightarrow> bit_write \<Rightarrow> bit_write res) \<Rightarrow> 'a option \<Rightarrow> bit_write \<Rightarrow> bit_write res" where
  "option_ser ser (Some x) w = rbind (write_bit True w) (ser x)"
| "option_ser ser None w = write_bit False w"

definition option_de :: "(bit_reader \<Rightarrow> ('a \<times> bit_reader) res) \<Rightarrow> bit_reader \<Rightarrow> ('a option \<times> bit_reader) res" where
  "option_de de r = rbind (read_bit r) (\<lambda>(b, r).
     if b then rbind (de r) (\<lambda>(x, r). Inr (Some x, r)) else Inr (None, r))"

fun option_bit_length :: "('a \<Rightarrow> nat res) \<Rightarrow> 'a option \<Rightarrow> nat res" where
  "option_bit_length len (Some x) = rbind (len x) (\<lambda>n. Inr (1 + n))"
| "option_bit_length len None = Inr 1"

definition pair_ser :: "('a \<Rightarrow> bit_write \<Rightarrow> bit_write res) \<Rightarrow> ('b \<Rightarrow> bit_write \<Rightarrow> bit_write res) \<Rightarrow>
    'a \<times> 'b \<Rightarrow> bit_write \<Rightarrow> bit_write res" where
  "pair_ser ser1 ser2 p w = rbind (ser1 (fst p) w) (ser2 (snd p))"

definition pair_de :: "(bit_reader \<Rightarrow> ('a \<times> bit_reader) res) \<Rightarrow> (bit_reader \<Rightarrow> ('b \<times> bit_reader) res) \<Rightarrow>
    bit_reader \<Rightarrow> (('a \<times> 'b) \<times> bit_reader) res" where
  "pair_de de1 de2 r = rbind (de1 r) (\<lambda>(x, r). rbind (de2 r) (\<lambda>(y, r). Inr ((x, y), r)))"

definition pair_bit_length :: "('a \<Rightarrow> nat res) \<Rightarrow> ('b \<Rightarrow> nat res) \<Rightarrow> 'a \<times> 'b \<Rightarrow> nat res" where
  "pair_bit_length len1 len2 p = rbind (len1 (fst p)) (\<lambda>m. rbind (len2 (snd p)) (\<lambda>n. Inr (m + n)))"

definition array_ser :: "('a \<Rightarrow> bit_write \<Rightarrow> bit_write res) \<Rightarrow> 'a list \<Rightarrow> bit_write \<Rightarrow> bit_write res" where
  "array_ser ser xs w = rfold ser xs w"

definition array_de :: "nat \<Rightarrow> (bit_reader \<Rightarrow> ('a \<times> bit_reader) res) \<Rightarrow> bit_reader \<Rightarrow> ('a list \<times> bit_reader) res" where
  "array_de n de r = read_n de n r"

definition array_bit_length :: "('a \<Rightarrow> nat res) \<Rightarrow> 'a list \<Rightarrow> nat res" where
  "array_bit_length len xs = rfold (\<lambda>x n. rbind (len x) (\<lambda>m. Inr (n + m))) xs 0"

text \<open>\<^verbatim>\<open>UnsignedVariableInteger::<bits>::new(len as u64)\<close>\<close>

definition ser_len :: "nat \<Rightarrow> nat \<Rightarrow> bit_write \<Rightarrow> bit_write res" where
  "ser_len bits n w = rbind (si_new False True bits (int n)) (\<lambda>len. si_ser len w)"

definition de_len :: "nat \<Rightarrow> bit_reader \<Rightarrow> (nat \<times> bit_reader) res" where
  "de_len bits r = rbind (si_de False True bits r) (\<lambda>(len, r). Inr (nat (si_get len mod 2 ^ 64), r))"

definition len_bit_length :: "nat \<Rightarrow> nat \<Rightarrow> nat res" where
  "len_bit_length bits n = rbind (si_new False True bits (int n)) si_bit_length"

text \<open>\<^verbatim>\<open>Vec::with_capacity\<close> panics when the elements would not fit the address space.\<close>

definition with_capacity :: "nat \<Rightarrow> nat \<Rightarrow> unit res" where
  "with_capacity n elem_size = (if n * elem_size < 2 ^ 63 then Inr () else Inl (Panic ''capacity overflow''))"

definition vec_ser :: "('a \<Rightarrow> bit_write \<Rightarrow> bit_write res) \<Rightarrow> 'a list \<Rightarrow> bit_write \<Rightarrow> bit_write res" where
  "vec_ser ser xs w = rbind (ser_len 5 (length xs) w) (rfold ser xs)"

definition vec_de :: "nat \<Rightarrow> (bit_reader \<Rightarrow> ('a \<times> bit_reader) res) \<Rightarrow> bit_reader \<Rightarrow> ('a list \<times> bit_reader) res" where
  "vec_de elem_size de r = rbind (de_len 5 r) (\<lambda>(n, r). rbind (with_capacity n elem_size) (\<lambda>_. read_n de n r))"

definition vec_bit_length :: "('a \<Rightarrow> nat res) \<Rightarrow> 'a list \<Rightarrow> nat res" where
  "vec_bit_length len xs = rbind (len_bit_length 5 (length xs)) (\<lambda>n.
     rfold (\<lambda>x n. rbind (len x) (\<lambda>m. Inr (n + m))) xs n)"

text \<open>\<^verbatim>\<open>Box<[u8]>\<close>\<close>

definition bytes_ser :: "u8 list \<Rightarrow> bit_write \<Rightarrow> bit_write res" where
  "bytes_ser bytes w = rbind (ser_len 9 (length bytes) w) (rfold write_byte bytes)"

definition bytes_de :: "bit_reader \<Rightarrow> (u8 list \<times> bit_reader) res" where
  "bytes_de r = rbind (de_len 9 r) (\<lambda>(n, r). rbind (with_capacity n 1) (\<lambda>_. read_n read_byte n r))"

definition bytes_bit_length :: "u8 list \<Rightarrow> nat res" where
  "bytes_bit_length bytes = rbind (len_bit_length 9 (length bytes)) (\<lambda>n. Inr (n + length bytes * 8))"

section \<open>Derived enumerations\<close>

text \<open>\<^verbatim>\<open>bits_needed_for\<close> of the derive macro: the bits of the highest index, at least one.\<close>

fun bit_width :: "nat \<Rightarrow> nat" where
  "bit_width n = (if n = 0 then 0 else Suc (bit_width (n div 2)))"

declare bit_width.simps [simp del]

definition bits_needed_for :: "nat \<Rightarrow> nat" where
  "bits_needed_for variant_count = (if variant_count \<le> 2 then 1 else bit_width (variant_count - 1))"

definition enum_index_ser :: "nat \<Rightarrow> nat \<Rightarrow> bit_write \<Rightarrow> bit_write res" where
  "enum_index_ser variant_count i w =
     rbind (si_new False False (bits_needed_for variant_count) (int i)) (\<lambda>n. si_ser n w)"

definition enum_index_de :: "nat \<Rightarrow> bit_reader \<Rightarrow> (nat \<times> bit_reader) res" where
  "enum_index_de variant_count r =
     rbind (si_de False False (bits_needed_for variant_count) r) (\<lambda>(n, r).
       let i = nat (si_get n mod 2 ^ 16) in
       if i < variant_count then Inr (i, r) else Inl SerdeErr)"

section \<open>The contract\<close>

text \<open>
  What an implementation of the trait promises: on the valid values, \<open>ser\<close> writes the encoding
  \<open>enc\<close> and \<open>de\<close> reads it back; with the second locale, \<open>bit_length\<close> is its length.
\<close>

locale codec =
  fixes ser :: "'a \<Rightarrow> bit_write \<Rightarrow> bit_write res"
    and de :: "bit_reader \<Rightarrow> ('a \<times> bit_reader) res"
    and enc :: "'a \<Rightarrow> bool list"
    and valid :: "'a \<Rightarrow> bool"
  assumes ser_writes: "valid x \<Longrightarrow> sink.writes (ser x) (enc x)"
    and de_reads: "valid x \<Longrightarrow> reads de (enc x) x"
begin

text \<open>The round trip through a packet that already holds other bits.\<close>

lemma roundtrip_after:
  assumes "valid x" "bw_ok w" "bw_current_bits w + length (enc x) \<le> bw_max_bits w"
  shows "\<exists>w' bytes. ser x (Writer w) = Inr (Writer w') \<and> bw_to_bytes w' = Inr bytes \<and>
    length bytes = (bw_current_bits w + length (enc x) + 7) div 8 \<and>
    (\<forall>r. br_ok r \<longrightarrow> br_bits r = drop (bw_current_bits w) (bytes_bits bytes) \<longrightarrow> (\<exists>r'. de r = Inr (x, r')))"
proof -
  obtain w' where w': "ser x (Writer w) = Inr (Writer w')" "bw_ok w'" "bw_bits w' = bw_bits w @ enc x"
    using writes_Writer [OF ser_writes [OF assms(1)] assms(2,3)] by blast
  have len: "length (bw_bits w) = bw_current_bits w" "bw_current_bits w' = bw_current_bits w + length (enc x)"
    using length_bw_bits [OF assms(2)] length_bw_bits [OF w'(2)] w'(3) by simp_all
  obtain bytes where b: "bw_to_bytes w' = Inr bytes" "length bytes = (bw_current_bits w' + 7) div 8"
      "bytes_bits bytes = bw_bits w' @ replicate (8 * length bytes - bw_current_bits w') False"
    using bw_to_bytes_ok [OF w'(2)] by auto
  have "drop (bw_current_bits w) (bytes_bits bytes) = enc x @ replicate (8 * length bytes - bw_current_bits w') False"
    using b(3) w'(3) len(1) by simp
  with w' b len readsD [OF de_reads [OF assms(1)]] show ?thesis by fastforce
qed

lemma roundtrip:
  assumes "valid x" "length (enc x) \<le> MTU_SIZE_BITS"
  shows "\<exists>w bytes r. ser x (Writer bw_new) = Inr (Writer w) \<and> bw_to_bytes w = Inr bytes \<and>
    length bytes = (length (enc x) + 7) div 8 \<and> de (br_new bytes) = Inr (x, r)"
proof -
  obtain w bytes where *: "ser x (Writer bw_new) = Inr (Writer w)" "bw_to_bytes w = Inr bytes"
      "length bytes = (length (enc x) + 7) div 8"
      "\<forall>r. br_ok r \<longrightarrow> br_bits r = bytes_bits bytes \<longrightarrow> (\<exists>r'. de r = Inr (x, r'))"
    using roundtrip_after [OF assms(1) bw_ok_new(1)] assms(2) by (auto simp: bw_new_def)
  with br_new_ok [of bytes] show ?thesis by blast
qed

end

locale serde = codec ser de enc valid
  for ser :: "'a \<Rightarrow> bit_write \<Rightarrow> bit_write res"
    and de :: "bit_reader \<Rightarrow> ('a \<times> bit_reader) res"
    and bit_length :: "'a \<Rightarrow> nat res"
    and enc :: "'a \<Rightarrow> bool list"
    and valid :: "'a \<Rightarrow> bool" +
  assumes bit_length_enc: "valid x \<Longrightarrow> bit_length x = Inr (length (enc x))"
begin

text \<open>Counting before writing.\<close>

lemma counted:
  assumes "valid x" "bc_current_bits c + length (enc x) < 2 ^ 32"
  shows "\<exists>n. bit_length x = Inr n \<and>
    ser x (Counter c) = Inr (Counter (c \<lparr> bc_current_bits := bc_current_bits c + n \<rparr>))"
  using writes_Counter [OF ser_writes [OF assms(1)] assms(2)] bit_length_enc [OF assms(1)] by simp

end

subsection \<open>Scalars\<close>

interpretation unit_serde: serde unit_ser unit_de "\<lambda>_. Inr 0" "\<lambda>_. []" "\<lambda>_. True"
  by unfold_locales
    (simp_all add: unit_ser_def [abs_def] unit_de_def [abs_def] sink.writes_nothing reads_return)

interpretation bool_serde: serde bool_ser bool_de "\<lambda>_. Inr 1" "\<lambda>b. [b]" "\<lambda>_. True"
  by unfold_locales (simp_all add: bool_ser_def [abs_def] bool_de_def [abs_def] sink.writes_bit reads_bit)

interpretation u8_serde: serde u8_ser u8_de "\<lambda>_. Inr 8" byte_bits "\<lambda>_. True"
  by unfold_locales (simp_all add: u8_ser_def [abs_def] u8_de_def [abs_def] sink.writes_byte reads_byte)

lemma read_n_reads:
  "(\<And>x. x \<in> set xs \<Longrightarrow> reads de (enc x) x) \<Longrightarrow> reads (read_n de (length xs)) (concat (map enc xs)) xs"
proof (induction xs)
  case Nil
  have "read_n de 0 = (\<lambda>r. Inr ([], r))" by (rule ext) simp
  then show ?case by (simp add: reads_return)
next
  case (Cons x xs)
  have "reads (\<lambda>r. rbind (read_n de (length xs) r) (\<lambda>(xs, r). Inr (x # xs, r))) (concat (map enc xs) @ []) (x # xs)"
    by (rule reads_bind [where g = "\<lambda>xs r. Inr (x # xs, r)", OF Cons.IH reads_return]) (simp add: Cons.prems)
  from reads_bind [where g = "\<lambda>x r. rbind (read_n de (length xs) r) (\<lambda>(xs, r). Inr (x # xs, r))", OF Cons.prems [of x] this]
  have "reads (\<lambda>r. rbind (de r) (\<lambda>(x, r). rbind (read_n de (length xs) r) (\<lambda>(xs, r). Inr (x # xs, r))))
      (concat (map enc (x # xs))) (x # xs)" by simp
  moreover have "read_n de (length (x # xs)) = (\<lambda>r. rbind (de r) (\<lambda>(x, r). rbind (read_n de (length xs) r) (\<lambda>(xs, r). Inr (x # xs, r))))"
    by (rule ext) simp
  ultimately show ?case by simp
qed

lemma read_bytes_reads: "reads (read_n read_byte (length bs)) (bytes_bits bs) bs"
  using read_n_reads [of bs read_byte byte_bits] by (simp add: reads_byte bytes_bits_def)

lemma wbits_from_le_bytes:
  "8 * length bs \<le> LENGTH('a) \<Longrightarrow> wbits (8 * length bs) (from_le_bytes bs :: 'a :: len word) = bytes_bits bs"
proof (induction bs)
  case (Cons b bs)
  have c: "clear_above 8 (ucast b :: 'a word)"
  proof -
    have "\<not> bit b i" if "8 \<le> i" for i using bit_imp_le_length [of b i] that by auto
    then show ?thesis by (simp add: clear_above_def bit_ucast_iff)
  qed
  have "wbits (8 + 8 * length bs) (ucast b OR push_bit 8 (from_le_bytes bs) :: 'a word) =
      wbits 8 (ucast b :: 'a word) @ wbits (8 * length bs) (from_le_bytes bs :: 'a word)"
    using Cons.prems by (intro wbits_or_push [OF c]) simp
  with Cons show ?case by (simp add: wbits_ucast)
qed simp

lemma from_to_le_bytes:
  assumes "8 dvd LENGTH('a)"
  shows "from_le_bytes (to_le_bytes (x :: 'a :: len word)) = x"
proof -
  have "wbits LENGTH('a) (from_le_bytes (to_le_bytes x) :: 'a word) = wbits LENGTH('a) x"
    using wbits_from_le_bytes [of "to_le_bytes x", where 'a = 'a] bytes_bits_to_le_bytes [OF assms, of x] assms by simp
  then show ?thesis by (simp add: wbits_eq_iff)
qed

lemma rfold_write_bytes: "sink.writes (rfold write_byte bs) (bytes_bits bs)"
  using sink.writes_rfold [of bs write_byte byte_bits] by (simp add: sink.writes_byte bytes_bits_def)

lemma word_serde_laws:
  assumes "8 dvd LENGTH('a)"
  shows "serde word_ser word_de (\<lambda>_. Inr (word_const_bit_length TYPE('a))) (wbits LENGTH('a)) (\<lambda>_ :: 'a :: len word. True)"
proof
  fix x :: "'a word"
  show "sink.writes (word_ser x) (wbits LENGTH('a) x)"
    using rfold_write_bytes [of "to_le_bytes x"] bytes_bits_to_le_bytes [OF assms, of x]
    by (simp add: word_ser_def [abs_def])
  have "reads (read_n read_byte (LENGTH('a) div 8)) (wbits LENGTH('a) x) (to_le_bytes x)"
    using read_bytes_reads [of "to_le_bytes x"] bytes_bits_to_le_bytes [OF assms, of x] by simp
  from reads_bind [where g = "\<lambda>bytes r. Inr (from_le_bytes bytes :: 'a word, r)", OF this reads_return]
  show "reads word_de (wbits LENGTH('a) x) x"
    by (simp add: word_de_def [abs_def] from_to_le_bytes [OF assms])
  show "Inr (word_const_bit_length TYPE('a)) = Inr (length (wbits LENGTH('a) x))"
    using assms by (simp add: word_const_bit_length_def)
qed

interpretation u16_serde: serde word_ser word_de "\<lambda>_. Inr (word_const_bit_length TYPE(16))" "wbits LENGTH(16)" "\<lambda>_ :: u16. True"
  by (rule word_serde_laws) simp

interpretation u32_serde: serde word_ser word_de "\<lambda>_. Inr (word_const_bit_length TYPE(32))" "wbits LENGTH(32)" "\<lambda>_ :: u32. True"
  by (rule word_serde_laws) simp

interpretation u64_serde: serde word_ser word_de "\<lambda>_. Inr (word_const_bit_length TYPE(64))" "wbits LENGTH(64)" "\<lambda>_ :: u64. True"
  by (rule word_serde_laws) simp

interpretation char_serde: serde char_ser char_de "\<lambda>_. Inr (8 * 4)" "wbits 32" is_char
proof
  fix c assume c: "is_char c"
  show "sink.writes (char_ser c) (wbits 32 c)"
    using rfold_write_bytes [of "to_le_bytes c"] bytes_bits_to_le_bytes [of c] by (simp add: char_ser_def [abs_def])
  have "reads (read_n read_byte 4) (wbits 32 c) (to_le_bytes c)"
    using read_bytes_reads [of "to_le_bytes c"] bytes_bits_to_le_bytes [of c] by simp
  from reads_bind [where g = "\<lambda>bytes r. let c = from_le_bytes bytes in if is_char c then Inr (c, r) else Inl SerdeErr",
      OF this, of "[]" c] c from_to_le_bytes [of c]
  show "reads char_de (wbits 32 c) c" by (simp add: char_de_def [abs_def] reads_return)
qed simp

subsection \<open>Integers, lengths and enumeration indices\<close>

lemma integer_serde_laws:
  "serde si_ser (si_de s v b) si_bit_length sn_enc
     (\<lambda>n. sn_ok n \<and> sn_signed n = s \<and> sn_variable n = v \<and> sn_bits n = b \<and> sn_fraction_digits n = 0)"
proof
  fix n assume "sn_ok n \<and> sn_signed n = s \<and> sn_variable n = v \<and> sn_bits n = b \<and> sn_fraction_digits n = 0"
  then show "sink.writes (si_ser n) (sn_enc n)" "reads (si_de s v b) (sn_enc n) n"
      "si_bit_length n = Inr (length (sn_enc n))"
    using sn_ser_writes [of n] sn_de_reads [of n] sn_bit_length_enc [of n]
    by (auto simp: si_ser_def [abs_def] si_de_def [abs_def] si_bit_length_def)
qed

interpretation integer_serde: serde si_ser "si_de s v b" si_bit_length sn_enc
  "\<lambda>n. sn_ok n \<and> sn_signed n = s \<and> sn_variable n = v \<and> sn_bits n = b \<and> sn_fraction_digits n = 0" for s v b
  by (rule integer_serde_laws)

definition len_enc :: "nat \<Rightarrow> nat \<Rightarrow> bool list" where
  "len_enc bits n = sn_enc (sn_new_unchecked False True bits 0 (int n))"

lemma len_number:
  assumes "0 < bits" "bits \<le> 32" "n < 2 ^ 63"
  shows "si_new False True bits (int n) = Inr (sn_new_unchecked False True bits 0 (int n))"
    and "sn_ok (sn_new_unchecked False True bits 0 (int n))"
proof -
  show "si_new False True bits (int n) = Inr (sn_new_unchecked False True bits 0 (int n))"
    using assms by (simp add: si_new_def sn_new_def)
  have "int n < 2 ^ 127" using assms(3) by simp
  with assms show "sn_ok (sn_new_unchecked False True bits 0 (int n))" by (simp add: sn_ok_def sn_new_unchecked_def)
qed

lemma len_serde_laws:
  assumes bits: "0 < bits" "bits \<le> 32"
  shows "serde (ser_len bits) (de_len bits) (len_bit_length bits) (len_enc bits) (\<lambda>n. n < 2 ^ 63)"
proof
  fix n :: nat assume n: "n < 2 ^ 63"
  let ?x = "sn_new_unchecked False True bits 0 (int n)"
  note num = len_number [OF bits n]
  have v: "sn_ok ?x \<and> sn_signed ?x = False \<and> sn_variable ?x = True \<and> sn_bits ?x = bits \<and> sn_fraction_digits ?x = 0"
    using num(2) by (simp add: sn_new_unchecked_def)
  show "sink.writes (ser_len bits n) (len_enc bits n)"
    using integer_serde.ser_writes [OF v] by (simp add: ser_len_def [abs_def] num(1) len_enc_def)
  have "reads (si_de False True bits) (len_enc bits n) ?x" unfolding len_enc_def by (rule integer_serde.de_reads [OF v])
  from reads_bind [where g = "\<lambda>len r. Inr (nat (si_get len mod 2 ^ 64), r)", OF this reads_return]
  show "reads (de_len bits) (len_enc bits n) n"
    using n by (simp add: de_len_def [abs_def] si_get_def sn_get_def sn_new_unchecked_def nat_mod_distrib)
  show "len_bit_length bits n = Inr (length (len_enc bits n))"
    using integer_serde.bit_length_enc [OF v] by (simp add: len_bit_length_def num(1) len_enc_def)
qed

interpretation len5_serde: serde "ser_len 5" "de_len 5" "len_bit_length 5" "len_enc 5" "\<lambda>n. n < 2 ^ 63"
  by (rule len_serde_laws) simp_all

interpretation len9_serde: serde "ser_len 9" "de_len 9" "len_bit_length 9" "len_enc 9" "\<lambda>n. n < 2 ^ 63"
  by (rule len_serde_laws) simp_all

lemma bit_width_bound: "n < 2 ^ bit_width n"
proof (induction n rule: bit_width.induct)
  case (1 n)
  show ?case
  proof (cases "n = 0")
    case False
    then have "n div 2 < 2 ^ bit_width (n div 2)" using 1 by simp
    with False show ?thesis by (subst bit_width.simps) (simp add: div_less_iff_less_mult mult.commute)
  qed (simp add: bit_width.simps)
qed

lemma bit_width_le: "n < 2 ^ k \<Longrightarrow> bit_width n \<le> k"
proof (induction n arbitrary: k rule: bit_width.induct)
  case (1 n)
  show ?case
  proof (cases "n = 0")
    case False
    then obtain j where k: "k = Suc j" using 1(2) by (cases k) auto
    then have "n div 2 < 2 ^ j" using 1(2) by (simp add: div_less_iff_less_mult mult.commute)
    from 1(1) [OF False this] False k show ?thesis by (subst bit_width.simps) simp
  qed (simp add: bit_width.simps)
qed

lemma bits_needed_for_bounds:
  assumes "i < c" "c \<le> 2 ^ 16"
  shows "i < 2 ^ bits_needed_for c" "0 < bits_needed_for c" "bits_needed_for c \<le> 16"
proof -
  have "c - 1 < 2 ^ 16" using assms by simp
  then have le: "bit_width (c - 1) \<le> 16" by (rule bit_width_le)
  have "c - 1 < 2 ^ bit_width (c - 1)" by (rule bit_width_bound)
  then have lt: "i < 2 ^ bit_width (c - 1)" using assms(1) by simp
  show "i < 2 ^ bits_needed_for c" using assms(1) lt by (auto simp: bits_needed_for_def)
  show "0 < bits_needed_for c" by (auto simp: bits_needed_for_def bit_width.simps [of "c - Suc 0"])
  show "bits_needed_for c \<le> 16" using le by (simp add: bits_needed_for_def)
qed

definition enum_enc :: "nat \<Rightarrow> nat \<Rightarrow> bool list" where
  "enum_enc c i = sn_enc (sn_new_unchecked False False (bits_needed_for c) 0 (int i))"

lemma length_enum_enc [simp]: "length (enum_enc c i) = bits_needed_for c"
  by (simp add: enum_enc_def sn_enc_def sn_new_unchecked_def)

lemma enum_serde_laws:
  assumes c: "c \<le> 2 ^ 16"
  shows "serde (enum_index_ser c) (enum_index_de c) (\<lambda>_. Inr (bits_needed_for c)) (enum_enc c) (\<lambda>i. i < c)"
proof
  fix i assume i: "i < c"
  let ?x = "sn_new_unchecked False False (bits_needed_for c) 0 (int i)"
  note b = bits_needed_for_bounds [OF i c]
  have lt: "int i < 2 ^ bits_needed_for c" using b(1) by (metis of_nat_less_iff of_nat_numeral of_nat_power)
  have num: "si_new False False (bits_needed_for c) (int i) = Inr ?x"
    using b lt by (simp add: si_new_def sn_new_def)
  have v: "sn_ok ?x \<and> sn_signed ?x = False \<and> sn_variable ?x = False \<and> sn_bits ?x = bits_needed_for c \<and> sn_fraction_digits ?x = 0"
    using b lt by (simp add: sn_ok_def sn_new_unchecked_def)
  show "sink.writes (enum_index_ser c i) (enum_enc c i)"
    using integer_serde.ser_writes [OF v] by (simp add: enum_index_ser_def [abs_def] num enum_enc_def)
  have "reads (si_de False False (bits_needed_for c)) (enum_enc c i) ?x"
    unfolding enum_enc_def by (rule integer_serde.de_reads [OF v])
  moreover have "nat (si_get ?x mod 2 ^ 16) = i"
    using i c by (simp add: si_get_def sn_get_def sn_new_unchecked_def nat_mod_distrib)
  ultimately show "reads (enum_index_de c) (enum_enc c i) i"
    using reads_bind [where g = "\<lambda>n r. let i = nat (si_get n mod 2 ^ 16) in if i < c then Inr (i, r) else Inl SerdeErr",
        of "si_de False False (bits_needed_for c)" "enum_enc c i" ?x "[]" i] i
    by (simp add: enum_index_de_def [abs_def] reads_return)
qed simp

subsection \<open>Containers\<close>

context serde
begin

lemma option_laws:
  "serde (option_ser ser) (option_de de) (option_bit_length bit_length)
     (case_option [False] (\<lambda>x. True # enc x)) (case_option True valid)"
proof
  fix x :: "'a option" assume v: "case_option True valid x"
  let ?g = "\<lambda>b r. if b then rbind (de r) (\<lambda>(x, r). Inr (Some x, r)) else Inr (None, r)"
  show "sink.writes (option_ser ser x) (case_option [False] (\<lambda>x. True # enc x) x)"
  proof (cases x)
    case None
    have "option_ser ser None = write_bit False" by (rule ext) simp
    with None sink.writes_bit [of False] show ?thesis by simp
  next
    case (Some y)
    have "option_ser ser (Some y) = (\<lambda>w. rbind (write_bit True w) (ser y))" by (rule ext) simp
    with Some v sink.writes_bind [OF sink.writes_bit [of True] ser_writes [of y]] show ?thesis by simp
  qed
  show "reads (option_de de) (case_option [False] (\<lambda>x. True # enc x) x) x"
  proof (cases x)
    case None
    have "reads (?g False) [] None" by (simp add: reads_return)
    from reads_bind [where g = ?g, OF reads_bit this] None show ?thesis by (simp add: option_de_def [abs_def])
  next
    case (Some y)
    have "reads (\<lambda>r. rbind (de r) (\<lambda>(x, r). Inr (Some x, r))) (enc y @ []) (Some y)"
      using Some v by (intro reads_bind [where g = "\<lambda>x r. Inr (Some x, r)", OF de_reads reads_return]) simp
    then have "reads (?g True) (enc y) (Some y)" by simp
    from reads_bind [where g = ?g, OF reads_bit this] Some show ?thesis by (simp add: option_de_def [abs_def])
  qed
  show "option_bit_length bit_length x = Inr (length (case_option [False] (\<lambda>x. True # enc x) x))"
    using v by (cases x) (simp_all add: bit_length_enc)
qed

lemma sum_lengths:
  "list_all valid xs \<Longrightarrow> rfold (\<lambda>x n. rbind (bit_length x) (\<lambda>m. Inr (n + m))) xs n =
     Inr (n + length (concat (map enc xs)))"
  by (induction xs arbitrary: n) (simp_all add: bit_length_enc)

lemma array_laws:
  "serde (array_ser ser) (array_de n de) (array_bit_length bit_length) (\<lambda>xs. concat (map enc xs))
     (\<lambda>xs. length xs = n \<and> list_all valid xs)"
proof
  fix xs assume v: "length xs = n \<and> list_all valid xs"
  then have *: "valid x" if "x \<in> set xs" for x using that by (auto simp: list_all_iff)
  show "sink.writes (array_ser ser xs) (concat (map enc xs))"
    unfolding array_ser_def [abs_def] by (rule sink.writes_rfold) (simp add: * ser_writes)
  show "reads (array_de n de) (concat (map enc xs)) xs"
    unfolding array_de_def [abs_def] using read_n_reads [of xs de enc] v by (simp add: * de_reads)
  show "array_bit_length bit_length xs = Inr (length (concat (map enc xs)))"
    using v sum_lengths [of xs 0] by (simp add: array_bit_length_def)
qed

lemma vec_laws:
  "serde (vec_ser ser) (vec_de elem_size de) (vec_bit_length bit_length)
     (\<lambda>xs. len_enc 5 (length xs) @ concat (map enc xs))
     (\<lambda>xs. length xs < 2 ^ 63 \<and> length xs * elem_size < 2 ^ 63 \<and> list_all valid xs)"
proof
  fix xs assume v: "length xs < 2 ^ 63 \<and> length xs * elem_size < 2 ^ 63 \<and> list_all valid xs"
  then have *: "valid x" if "x \<in> set xs" for x using that by (auto simp: list_all_iff)
  have "sink.writes (rfold ser xs) (concat (map enc xs))"
    by (rule sink.writes_rfold) (simp add: * ser_writes)
  with v show "sink.writes (vec_ser ser xs) (len_enc 5 (length xs) @ concat (map enc xs))"
    unfolding vec_ser_def [abs_def] by (intro sink.writes_bind len5_serde.ser_writes) simp_all
  let ?g = "\<lambda>n r. rbind (with_capacity n elem_size) (\<lambda>_. read_n de n r)"
  have "?g (length xs) = read_n de (length xs)" using v by (simp add: with_capacity_def)
  moreover have "reads (read_n de (length xs)) (concat (map enc xs)) xs"
    using read_n_reads [of xs de enc] by (simp add: * de_reads)
  ultimately have "reads (?g (length xs)) (concat (map enc xs)) xs" by simp
  from reads_bind [where g = ?g, OF len5_serde.de_reads this] v
  show "reads (vec_de elem_size de) (len_enc 5 (length xs) @ concat (map enc xs)) xs"
    by (simp add: vec_de_def [abs_def])
  show "vec_bit_length bit_length xs = Inr (length (len_enc 5 (length xs) @ concat (map enc xs)))"
    using v sum_lengths [of xs] by (simp add: vec_bit_length_def len5_serde.bit_length_enc)
qed

end

lemma pair_codec:
  assumes "codec ser1 de1 enc1 valid1" "codec ser2 de2 enc2 valid2"
  shows "codec (pair_ser ser1 ser2) (pair_de de1 de2)
    (\<lambda>p. enc1 (fst p) @ enc2 (snd p)) (\<lambda>p. valid1 (fst p) \<and> valid2 (snd p))"
proof
  fix p assume "valid1 (fst p) \<and> valid2 (snd p)"
  then have v: "valid1 (fst p)" "valid2 (snd p)" by simp_all
  show "sink.writes (pair_ser ser1 ser2 p) (enc1 (fst p) @ enc2 (snd p))"
    unfolding pair_ser_def [abs_def]
    by (rule sink.writes_bind [OF codec.ser_writes [OF assms(1) v(1)] codec.ser_writes [OF assms(2) v(2)]])
  let ?h = "\<lambda>x y r. Inr ((x, y), r)"
  have "reads (\<lambda>r. rbind (de2 r) (\<lambda>(y, r). ?h (fst p) y r)) (enc2 (snd p) @ []) p"
    using reads_bind [where g = "?h (fst p)", OF codec.de_reads [OF assms(2) v(2)] reads_return] by simp
  from reads_bind [where g = "\<lambda>x r. rbind (de2 r) (\<lambda>(y, r). ?h x y r)", OF codec.de_reads [OF assms(1) v(1)] this]
  show "reads (pair_de de1 de2) (enc1 (fst p) @ enc2 (snd p)) p" by (simp add: pair_de_def [abs_def])
qed

lemma pair_laws:
  assumes "serde ser1 de1 len1 enc1 valid1" "serde ser2 de2 len2 enc2 valid2"
  shows "serde (pair_ser ser1 ser2) (pair_de de1 de2) (pair_bit_length len1 len2)
    (\<lambda>p. enc1 (fst p) @ enc2 (snd p)) (\<lambda>p. valid1 (fst p) \<and> valid2 (snd p))"
  by (intro serde.intro pair_codec assms [THEN serde.axioms(1)])
    (simp add: serde_axioms_def pair_bit_length_def serde.bit_length_enc [OF assms(1)] serde.bit_length_enc [OF assms(2)])

interpretation bytes_serde: serde bytes_ser bytes_de bytes_bit_length
  "\<lambda>bs. len_enc 9 (length bs) @ bytes_bits bs" "\<lambda>bs. length bs < 2 ^ 63"
proof
  fix bs :: "u8 list" assume v: "length bs < 2 ^ 63"
  show "sink.writes (bytes_ser bs) (len_enc 9 (length bs) @ bytes_bits bs)"
    unfolding bytes_ser_def [abs_def] by (intro sink.writes_bind len9_serde.ser_writes v rfold_write_bytes)
  let ?g = "\<lambda>n r. rbind (with_capacity n 1) (\<lambda>_. read_n read_byte n r)"
  have "?g (length bs) = read_n read_byte (length bs)" using v by (simp add: with_capacity_def)
  with read_bytes_reads [of bs] have "reads (?g (length bs)) (bytes_bits bs) bs" by simp
  from reads_bind [where g = ?g, OF len9_serde.de_reads [OF v] this]
  show "reads bytes_de (len_enc 9 (length bs) @ bytes_bits bs) bs" by (simp add: bytes_de_def [abs_def])
  show "bytes_bit_length bs = Inr (length (len_enc 9 (length bs) @ bytes_bits bs))"
    by (simp add: bytes_bit_length_def len9_serde.bit_length_enc [OF v])
qed

interpretation u16_option_serde: serde "option_ser word_ser" "option_de word_de"
  "option_bit_length (\<lambda>_ :: u16. Inr (word_const_bit_length TYPE(16)))"
  "case_option [False] (\<lambda>x. True # wbits LENGTH(16) x)" "case_option True (\<lambda>_. True)"
  by (rule u16_serde.option_laws)

section \<open>Safety of the scalar decoders\<close>

lemma de_safe_read_n:
  assumes "de_safe de"
  shows "de_safe (read_n de n)"
proof (induction n)
  case 0
  have "read_n de 0 = (\<lambda>r. Inr ([], r))" by (rule ext) simp
  then show ?case by (simp add: de_safe_return)
next
  case (Suc n)
  have "read_n de (Suc n) = (\<lambda>r. rbind (de r) (\<lambda>(x, r). (\<lambda>x r. rbind (read_n de n r) (\<lambda>(xs, r). Inr (x # xs, r))) x r))"
    by (rule ext) simp
  moreover have "de_safe (\<lambda>r. rbind (read_n de n r) (\<lambda>(xs, r). (\<lambda>xs r. Inr (x # xs, r)) xs r))" for x
    by (rule de_safe_bind [OF Suc de_safe_return])
  ultimately show ?case using de_safe_bind [OF assms, of "\<lambda>x r. rbind (read_n de n r) (\<lambda>(xs, r). Inr (x # xs, r))"] by simp
qed

lemma de_safe_word: "de_safe word_de"
  unfolding word_de_def [abs_def]
  by (rule de_safe_bind [where g = "\<lambda>bytes r. Inr (from_le_bytes bytes, r)", OF de_safe_read_n [OF de_safe_byte] de_safe_return])

lemma de_safe_if: "de_safe f \<Longrightarrow> de_safe g \<Longrightarrow> de_safe (\<lambda>r. if b then f r else g r)"
  by (cases b) auto

lemma de_safe_char: "de_safe char_de"
  unfolding char_de_def [abs_def]
  by (rule de_safe_bind [where g = "\<lambda>bytes r. let c = from_le_bytes bytes in if is_char c then Inr (c, r) else Inl SerdeErr",
        OF de_safe_read_n [OF de_safe_byte]])
    (simp add: Let_def de_safe_if de_safe_return de_safe_error)

lemma read_byte_end: "br_ok r \<Longrightarrow> br_bits r = [] \<Longrightarrow> read_byte r = Inl SerdeErr"
proof -
  assume r: "br_ok r" "br_bits r = []"
  then have "length (br_bits r) = 0" by simp
  then have "br_scratch_bits r = 0" by (simp add: br_bits_def)
  then show ?thesis by (simp add: read_byte_def read_bit_end [OF r] eval_nat_numeral)
qed

lemma read_n_bytes_short:
  "br_ok r \<Longrightarrow> br_bits r = bytes_bits bs \<Longrightarrow> length bs < n \<Longrightarrow> read_n read_byte n r = Inl SerdeErr"
proof (induction bs arbitrary: r n)
  case Nil
  then show ?case by (cases n) (simp_all add: read_byte_end)
next
  case (Cons b bs)
  then obtain m where n: "n = Suc m" by (cases n) auto
  obtain r1 where r1: "read_byte r = Inr (b, r1)" "br_ok r1" "br_bits r1 = bytes_bits bs"
    using readsD [OF reads_byte Cons.prems(1), of b "bytes_bits bs"] Cons.prems(2) by auto
  have "read_n read_byte m r1 = Inl SerdeErr" using Cons.prems(3) n by (intro Cons.IH [OF r1(2,3)]) simp
  with r1 n show ?case by simp
qed

lemma read_n_bytes_enough:
  assumes "n \<le> length bytes"
  shows "\<exists>r. read_n read_byte n (br_new bytes) = Inr (take n bytes, r)"
proof -
  have "br_bits (br_new bytes) = bytes_bits (take n bytes) @ bytes_bits (drop n bytes)"
    using br_new_ok(2) [of bytes] bytes_bits_simps(3) [of "take n bytes" "drop n bytes"] by simp
  from readsD [OF read_bytes_reads br_new_ok(1) this] assms show ?thesis by auto
qed

section \<open>Properties\<close>

text \<open>
  C23. Round trip of the trait: for every implementation of \<^verbatim>\<open>Serde\<close> that keeps the contract, vectors
  and options of its values keep it too. Here for vectors: a vector whose encoding fits into a packet
  is written in as many bits as \<^verbatim>\<open>bit_length\<close> says and decoded back.
\<close>

theorem vec_roundtrip:
  assumes "serde ser de len enc valid" and "\<forall>x\<in>set xs. valid x"
    and "length xs < 2 ^ 63" and "length xs * elem_size < 2 ^ 63"
    and "vec_bit_length len xs = Inr n" and "n \<le> MTU_SIZE_BITS"
  shows "\<exists>w bytes r. vec_ser ser xs (Writer bw_new) = Inr (Writer w) \<and> bw_to_bytes w = Inr bytes \<and>
    length bytes = (n + 7) div 8 \<and> vec_de elem_size de (br_new bytes) = Inr (xs, r)"
proof -
  note laws = serde.vec_laws [OF assms(1), of elem_size]
  have v: "length xs < 2 ^ 63 \<and> length xs * elem_size < 2 ^ 63 \<and> list_all valid xs"
    using assms by (simp add: list_all_iff)
  have "n = length (len_enc 5 (length xs) @ concat (map enc xs))"
    using serde.bit_length_enc [OF laws v] assms(5) by simp
  with codec.roundtrip [OF serde.axioms(1) [OF laws] v] assms(6) show ?thesis by simp
qed

theorem vec_roundtrip_witness:
  "\<exists>w bytes r. vec_ser word_ser [7, 65535, 0 :: u16] (Writer bw_new) = Inr (Writer w) \<and> bw_to_bytes w = Inr bytes \<and>
    length bytes = 7 \<and> vec_de 2 word_de (br_new bytes) = Inr ([7, 65535, 0 :: u16], r)"
proof -
  have "len_enc 5 3 = [False, True, True, False, False, False]"
    by (simp add: len_enc_def sn_enc_def sn_new_unchecked_def var_enc.simps wbits_def upt_rec bit_simps)
  then have "vec_bit_length (\<lambda>_. Inr (word_const_bit_length TYPE(16))) [7, 65535, 0 :: u16] = Inr 54"
    by (simp add: vec_bit_length_def len5_serde.bit_length_enc word_const_bit_length_def numeral_3_eq_3)
  from vec_roundtrip [OF u16_serde.serde_axioms _ _ _ this, of 2] show ?thesis by (simp add: mtu_simps)
qed

text \<open>
  A machine integer is decoded from any packet without a panic: from a packet with enough bytes
  it is the number its first bytes spell, from a shorter one decoding fails with \<^verbatim>\<open>SerdeErr\<close>.
\<close>

theorem word_de_total:
  "if LENGTH('a) div 8 \<le> length bytes
   then \<exists>r. word_de (br_new bytes) = Inr (from_le_bytes (take (LENGTH('a) div 8) bytes) :: 'a :: len word, r)
   else (word_de (br_new bytes) :: ('a word \<times> bit_reader) res) = Inl SerdeErr"
proof (cases "LENGTH('a) div 8 \<le> length bytes")
  case True
  with read_n_bytes_enough [OF True] show ?thesis by (auto simp: word_de_def)
next
  case False
  then have "read_n read_byte (LENGTH('a) div 8) (br_new bytes) = Inl SerdeErr"
    by (intro read_n_bytes_short [OF br_new_ok]) simp
  with False show ?thesis by (simp add: word_de_def)
qed

text \<open>
  The index of a derived enumeration survives the round trip and uses the fewest bits that tell
  the variants apart.
\<close>

theorem enum_index_roundtrip:
  assumes "i < c" and "c \<le> 2 ^ 16"
  shows "(\<exists>w bytes r. enum_index_ser c i (Writer bw_new) = Inr (Writer w) \<and> bw_to_bytes w = Inr bytes \<and>
      length bytes = (bits_needed_for c + 7) div 8 \<and> enum_index_de c (br_new bytes) = Inr (i, r)) \<and>
    (2 < c \<longrightarrow> 2 ^ (bits_needed_for c - 1) < c \<and> c \<le> 2 ^ bits_needed_for c)"
proof -
  note laws = enum_serde_laws [OF assms(2)]
  have "length (enum_enc c i) \<le> MTU_SIZE_BITS"
    using bits_needed_for_bounds(3) [OF assms] by (simp add: mtu_simps)
  from codec.roundtrip [OF serde.axioms(1) [OF laws] assms(1) this]
  have 1: "\<exists>w bytes r. enum_index_ser c i (Writer bw_new) = Inr (Writer w) \<and> bw_to_bytes w = Inr bytes \<and>
      length bytes = (bits_needed_for c + 7) div 8 \<and> enum_index_de c (br_new bytes) = Inr (i, r)" by simp
  have 2: "2 ^ (bits_needed_for c - 1) < c" if "2 < c"
  proof (rule ccontr)
    assume "\<not> 2 ^ (bits_needed_for c - 1) < c"
    then have "c - 1 < 2 ^ (bits_needed_for c - 1)" using that by linarith
    then have "bit_width (c - 1) \<le> bits_needed_for c - 1" by (rule bit_width_le)
    moreover have "bits_needed_for c = bit_width (c - 1)" using that by (simp add: bits_needed_for_def)
    ultimately show False using bits_needed_for_bounds(2) [OF assms] by simp
  qed
  have 3: "c \<le> 2 ^ bits_needed_for c" if "2 < c"
    using bit_width_bound [of "c - 1"] that by (simp add: bits_needed_for_def)
  from 1 2 3 show ?thesis by blast
qed

theorem enum_index_roundtrip_witness:
  "\<exists>w bytes r. enum_index_ser 5 4 (Writer bw_new) = Inr (Writer w) \<and> bw_to_bytes w = Inr bytes \<and>
    length bytes = 1 \<and> enum_index_de 5 (br_new bytes) = Inr (4, r)"
  using enum_index_roundtrip [of 4 5] by (simp add: bits_needed_for_def bit_width.simps)

end
