(* ===== verification/Packet_Header.thy ===== *)
theory Packet_Header
  imports Serde
begin

text \<open>
  \<^verbatim>\<open>shared/src/connection/packet_type.rs\<close> and \<^verbatim>\<open>standard_header.rs\<close>: the header every packet starts
  with and its wire format. The header's serialization is the one of the derive macro, its fields in
  order.
\<close>

section \<open>Packet types\<close>

datatype packet_type = Data | Heartbeat | Handshake | Ping | Pong

fun packet_type_index :: "packet_type \<Rightarrow> nat res" where
  "packet_type_index Data = Inl (Panic ''shouldn't happen, caught above'')"
| "packet_type_index Heartbeat = Inr 0"
| "packet_type_index Handshake = Inr 1"
| "packet_type_index Ping = Inr 2"
| "packet_type_index Pong = Inr 3"

definition packet_type_ser :: "packet_type \<Rightarrow> bit_write \<Rightarrow> bit_write res" where
  "packet_type_ser p w =
     (let is_data = (p = Data) in
      rbind (bool_ser is_data w) (\<lambda>w.
        if is_data then Inr w
        else rbind (packet_type_index p) (\<lambda>index.
             rbind (si_new False False 2 (int index)) (\<lambda>n. si_ser n w))))"

definition packet_type_of_index :: "int \<Rightarrow> packet_type res" where
  "packet_type_of_index i =
     (if i = 0 then Inr Heartbeat else if i = 1 then Inr Handshake else if i = 2 then Inr Ping
      else if i = 3 then Inr Pong else Inl (Panic ''shouldn't happen, caught above''))"

definition packet_type_de :: "bit_reader \<Rightarrow> (packet_type \<times> bit_reader) res" where
  "packet_type_de r =
     rbind (bool_de r) (\<lambda>(is_data, r).
       if is_data then Inr (Data, r)
       else rbind (si_de False False 2 r) (\<lambda>(n, r).
            rbind (packet_type_of_index (si_get n)) (\<lambda>p. Inr (p, r))))"

text \<open>The length counts a four-bit number although two bits are written.\<close>

definition packet_type_bit_length :: "packet_type \<Rightarrow> nat" where
  "packet_type_bit_length p = (if p = Data then 1 else 1 + si_const_bit_length False 4)"

section \<open>The header\<close>

record standard_header =
  sh_packet_type :: packet_type
  sh_sender_packet_index :: u16
  sh_sender_ack_index :: u16
  sh_sender_ack_bitfield :: u32

definition sh_new :: "packet_type \<Rightarrow> u16 \<Rightarrow> u16 \<Rightarrow> u32 \<Rightarrow> standard_header" where
  "sh_new packet_type sender_packet_index sender_ack_index sender_ack_bitfield =
     \<lparr> sh_packet_type = packet_type, sh_sender_packet_index = sender_packet_index,
       sh_sender_ack_index = sender_ack_index, sh_sender_ack_bitfield = sender_ack_bitfield \<rparr>"

definition sh_ser :: "standard_header \<Rightarrow> bit_write \<Rightarrow> bit_write res" where
  "sh_ser h w =
     rbind (packet_type_ser (sh_packet_type h) w) (\<lambda>w.
     rbind (word_ser (sh_sender_packet_index h) w) (\<lambda>w.
     rbind (word_ser (sh_sender_ack_index h) w) (\<lambda>w.
     word_ser (sh_sender_ack_bitfield h) w)))"

definition sh_de :: "bit_reader \<Rightarrow> (standard_header \<times> bit_reader) res" where
  "sh_de r =
     rbind (packet_type_de r) (\<lambda>(packet_type, r).
     rbind (word_de r) (\<lambda>(sender_packet_index, r).
     rbind (word_de r) (\<lambda>(sender_ack_index, r).
     rbind (word_de r) (\<lambda>(sender_ack_bitfield, r).
     Inr (sh_new packet_type sender_packet_index sender_ack_index sender_ack_bitfield, r)))))"

section \<open>The wire format\<close>

fun packet_type_enc :: "packet_type \<Rightarrow> bool list" where
  "packet_type_enc Data = [True]"
| "packet_type_enc Heartbeat = [False, False, False]"
| "packet_type_enc Handshake = [False, True, False]"
| "packet_type_enc Ping = [False, False, True]"
| "packet_type_enc Pong = [False, True, True]"

definition type_number :: "int \<Rightarrow> serde_number" where
  "type_number i = sn_new_unchecked False False 2 0 i"

lemma type_number_new: "0 \<le> i \<Longrightarrow> i < 4 \<Longrightarrow> si_new False False 2 i = Inr (type_number i)"
  by (auto simp: si_new_def sn_new_def type_number_def)

lemma type_number_ok:
  assumes "0 \<le> i" "i < 4"
  shows "sn_ok (type_number i) \<and> sn_signed (type_number i) = False \<and> sn_variable (type_number i) = False \<and>
    sn_bits (type_number i) = 2 \<and> sn_fraction_digits (type_number i) = 0"
  using assms by (simp add: type_number_def sn_ok_def sn_new_unchecked_def)

lemma packet_type_enc_eq:
  assumes "packet_type_index p = Inr i"
  shows "packet_type_enc p = False # sn_enc (type_number (int i))"
    and "packet_type_of_index (int i) = Inr p" "i < 4" "p \<noteq> Data"
  using assms
  by (cases p; auto simp: type_number_def sn_enc_def sn_new_unchecked_def wbits_def upt_rec bit_simps packet_type_of_index_def)+

interpretation packet_type_codec: codec packet_type_ser packet_type_de packet_type_enc "\<lambda>_. True"
proof
  fix p
  show "sink.writes (packet_type_ser p) (packet_type_enc p)" 
  proof (cases "packet_type_index p")
    case (Inr i)
    note e = packet_type_enc_eq [OF Inr]
    have "sink.writes (si_ser (type_number (int i))) (sn_enc (type_number (int i)))"
      by (rule integer_serde.ser_writes [OF type_number_ok]) (use e(3) in simp_all)
    from sink.writes_bind [OF bool_serde.ser_writes [of False] this]
    show ?thesis using e Inr by (simp add: packet_type_ser_def [abs_def] type_number_new)
  next
    case (Inl x)
    then have "p = Data" by (cases p) auto
    with sink.writes_bind [OF bool_serde.ser_writes [of True] sink.writes_nothing] show ?thesis
      by (simp add: packet_type_ser_def [abs_def])
  qed
  let ?h = "\<lambda>n r :: bit_reader. rbind (packet_type_of_index (si_get n)) (\<lambda>p. Inr (p, r))"
  let ?g = "\<lambda>is_data r. if is_data then Inr (Data, r) else rbind (si_de False False 2 r) (\<lambda>(n, r). ?h n r)"
  show "reads packet_type_de (packet_type_enc p) p"
  proof (cases "packet_type_index p")
    case (Inr i)
    note e = packet_type_enc_eq [OF Inr]
    have n: "si_get (type_number (int i)) = int i" by (simp add: si_get_def sn_get_def type_number_def sn_new_unchecked_def)
    have "reads (si_de False False 2) (sn_enc (type_number (int i))) (type_number (int i))"
      by (rule integer_serde.de_reads [OF type_number_ok]) (use e(3) in simp_all)
    from reads_bind [where g = ?h and ys = "[]" and b = p, OF this]
    have "reads (?g False) (sn_enc (type_number (int i))) p" using e n reads_return [of p] by simp
    from reads_bind [where g = ?g, OF bool_serde.de_reads this]
    show ?thesis using e(1) by (simp add: packet_type_de_def [abs_def])
  next
    case (Inl x)
    then have "p = Data" by (cases p) auto
    with reads_bind [where g = ?g and ys = "[]" and b = Data, OF bool_serde.de_reads [of True]] reads_return [of Data]
    show ?thesis by (simp add: packet_type_de_def [abs_def])
  qed
qed

text \<open>\<^verbatim>\<open>bit_length\<close> is not the length of the encoding.\<close>

lemma packet_type_bit_length_off:
  "packet_type_bit_length p = length (packet_type_enc p) + (if p = Data then 0 else 2)"
  by (cases p) (simp_all add: packet_type_bit_length_def si_const_bit_length_def)

definition sh_enc :: "standard_header \<Rightarrow> bool list" where
  "sh_enc h = packet_type_enc (sh_packet_type h) @ wbits 16 (sh_sender_packet_index h) @
     wbits 16 (sh_sender_ack_index h) @ wbits 32 (sh_sender_ack_bitfield h)"

text \<open>The fields as nested pairs, from which the codec of the header follows.\<close>

definition sh_fields :: "standard_header \<Rightarrow> packet_type \<times> u16 \<times> u16 \<times> u32" where
  "sh_fields h = (sh_packet_type h, sh_sender_packet_index h, sh_sender_ack_index h, sh_sender_ack_bitfield h)"

lemmas fields_codec = pair_codec [OF packet_type_codec.codec_axioms
  pair_codec [OF u16_serde.codec_axioms pair_codec [OF u16_serde.codec_axioms u32_serde.codec_axioms]]]

lemma sh_ser_fields:
  "sh_ser h = pair_ser packet_type_ser (pair_ser word_ser (pair_ser word_ser word_ser)) (sh_fields h)"
  by (rule ext) (simp add: sh_ser_def pair_ser_def [abs_def] sh_fields_def)

lemma sh_de_fields:
  "sh_de r = rbind (pair_de packet_type_de (pair_de word_de (pair_de word_de word_de)) r)
     (\<lambda>((p, i, a, f), r). Inr (sh_new p i a f, r))"
  by (simp add: sh_de_def pair_de_def rbind_assoc split_def)

interpretation header_codec: codec sh_ser sh_de sh_enc "\<lambda>_. True"
proof
  fix h
  show "sink.writes (sh_ser h) (sh_enc h)"
    using codec.ser_writes [OF fields_codec, of "sh_fields h"]
    by (simp add: sh_ser_fields sh_enc_def) (simp add: sh_fields_def)
  let ?g = "\<lambda>(p, i, a, f) r :: bit_reader. Inr (sh_new p i a f, r)"
  have "reads (?g (sh_fields h)) [] h" using reads_return [of h] by (cases h) (simp add: sh_fields_def sh_new_def)
  from reads_bind [where g = ?g, OF codec.de_reads [OF fields_codec, of "sh_fields h"] this]
  show "reads sh_de (sh_enc h) h"
    by (simp add: sh_de_fields [abs_def] sh_enc_def split_def) (simp add: sh_fields_def)
qed

lemma length_sh_enc: "length (sh_enc h) = (if sh_packet_type h = Data then 65 else 67)"
  by (cases "sh_packet_type h") (simp_all add: sh_enc_def)

section \<open>Properties\<close>

text \<open>
  C27. The header of every packet survives the round trip: written into a fresh packet it takes nine
  bytes, and reading these gives the header back.
\<close>

theorem header_roundtrip:
  "\<exists>w bytes r. sh_ser h (Writer bw_new) = Inr (Writer w) \<and> bw_to_bytes w = Inr bytes \<and>
     length bytes = 9 \<and> sh_de (br_new bytes) = Inr (h, r)"
proof -
  have "length (sh_enc h) \<le> MTU_SIZE_BITS" "(length (sh_enc h) + 7) div 8 = 9"
    by (simp_all add: length_sh_enc mtu_simps)
  with header_codec.roundtrip [of h] show ?thesis by simp
qed

end
