(* ===== verification/Ack_Manager.thy ===== *)
theory Ack_Manager
  imports Sequence_Buffer Loss_Monitor Packet_Header
begin

text \<open>
  \<^verbatim>\<open>shared/src/connection/ack_manager.rs\<close>: the packet acknowledgements of a connection. The managers
  a delivery is reported to are the sequence of reported packet indices. The link relation at the end
  lets two managers exchange packets over a network that loses, duplicates and reorders them; the
  packets get their unwrapped numbers there, so that the theorems speak about packets and not about
  16-bit indices.
\<close>

unbundle bit_operations_syntax

section \<open>The manager\<close>

definition REDUNDANT_PACKET_ACKS_SIZE :: nat where
  "REDUNDANT_PACKET_ACKS_SIZE = 32"

record ack_manager =
  am_next_packet_index :: u16
  am_last_recv_packet_index :: u16
  am_sent_packets :: "u16 \<rightharpoonup> packet_type"
  am_received_packets :: "unit sequence_buffer"
  am_should_send_empty_ack :: bool
  am_loss_monitor :: loss_monitor

definition am_new :: ack_manager where
  "am_new =
     \<lparr> am_next_packet_index = 0,
       am_last_recv_packet_index = - 1,
       am_sent_packets = Map.empty,
       am_received_packets = sb_with_capacity (REDUNDANT_PACKET_ACKS_SIZE + 1),
       am_should_send_empty_ack = False,
       am_loss_monitor = lm_new \<rparr>"

definition am_mark_should_send_empty_ack :: "ack_manager \<Rightarrow> ack_manager" where
  "am_mark_should_send_empty_ack am = am \<lparr> am_should_send_empty_ack := True \<rparr>"

definition am_clear_should_send_empty_ack :: "ack_manager \<Rightarrow> ack_manager" where
  "am_clear_should_send_empty_ack am = am \<lparr> am_should_send_empty_ack := False \<rparr>"

definition am_take_should_send_empty_ack :: "ack_manager \<Rightarrow> bool \<times> ack_manager" where
  "am_take_should_send_empty_ack am = (am_should_send_empty_ack am, am \<lparr> am_should_send_empty_ack := False \<rparr>)"

text \<open>
  The two branches of the loop and the block before it do the same to a tracked packet: its outcome
  is recorded when it carries data, an acknowledged one is reported, and it is forgotten.
\<close>

definition am_resolve :: "bool \<Rightarrow> u16 \<Rightarrow> u16 list \<times> ack_manager \<Rightarrow> (u16 list \<times> ack_manager) res" where
  "am_resolve acked sent_packet_index = (\<lambda>(delivered, am).
     case am_sent_packets am sent_packet_index of
       None \<Rightarrow> Inr (delivered, am)
     | Some packet_type \<Rightarrow>
         rbind (if packet_type = Data
                then rbind (if acked then lm_record_acked (am_loss_monitor am) else lm_record_lost (am_loss_monitor am))
                  (\<lambda>lm. Inr (if acked then delivered @ [sent_packet_index] else delivered, am \<lparr> am_loss_monitor := lm \<rparr>))
                else Inr (delivered, am))
           (\<lambda>(delivered, am). Inr (delivered, am \<lparr> am_sent_packets := (am_sent_packets am)(sent_packet_index := None) \<rparr>)))"

fun am_bitfield_loop :: "nat list \<Rightarrow> u16 \<Rightarrow> u32 \<Rightarrow> u16 list \<times> ack_manager \<Rightarrow> (u16 list \<times> ack_manager) res" where
  "am_bitfield_loop [] sender_ack_index sender_ack_bitfield s = Inr s"
| "am_bitfield_loop (i # is) sender_ack_index sender_ack_bitfield s =
     rbind (am_resolve (sender_ack_bitfield AND 1 = 1) (sender_ack_index - of_nat i) s)
       (am_bitfield_loop is sender_ack_index (drop_bit 1 sender_ack_bitfield))"

definition am_receive_index :: "u16 \<Rightarrow> ack_manager \<Rightarrow> ack_manager" where
  "am_receive_index sender_packet_index am =
     (let am = am \<lparr> am_received_packets := snd (sb_insert sender_packet_index () (am_received_packets am)) \<rparr>
      in if sequence_greater_than sender_packet_index (am_last_recv_packet_index am)
         then am \<lparr> am_last_recv_packet_index := sender_packet_index \<rparr> else am)"

definition am_process_incoming_header :: "standard_header \<Rightarrow> ack_manager \<Rightarrow> (u16 list \<times> ack_manager) res" where
  "am_process_incoming_header header am =
     rbind (am_resolve True (sh_sender_ack_index header) ([], am_receive_index (sh_sender_packet_index header) am))
       (am_bitfield_loop [1..<REDUNDANT_PACKET_ACKS_SIZE + 1] (sh_sender_ack_index header) (sh_sender_ack_bitfield header))"

definition am_track_packet :: "packet_type \<Rightarrow> u16 \<Rightarrow> ack_manager \<Rightarrow> ack_manager" where
  "am_track_packet packet_type packet_index am =
     am \<lparr> am_sent_packets := (am_sent_packets am)(packet_index \<mapsto> packet_type) \<rparr>"

definition am_increment_local_packet_index :: "ack_manager \<Rightarrow> ack_manager" where
  "am_increment_local_packet_index am = am \<lparr> am_next_packet_index := am_next_packet_index am + 1 \<rparr>"

definition am_ack_bitfield :: "ack_manager \<Rightarrow> u32" where
  "am_ack_bitfield am =
     fst (fold (\<lambda>i (ack_bitfield, mask).
           (if sb_exists (am_last_recv_packet_index am - of_nat i) (am_received_packets am)
            then ack_bitfield OR mask else ack_bitfield, push_bit 1 mask))
         [1..<REDUNDANT_PACKET_ACKS_SIZE + 1] (0, 1))"

definition am_next_outgoing_packet_header :: "packet_type \<Rightarrow> ack_manager \<Rightarrow> standard_header \<times> ack_manager" where
  "am_next_outgoing_packet_header packet_type am =
     (let next_packet_index = am_next_packet_index am;
          outgoing = sh_new packet_type next_packet_index (am_last_recv_packet_index am) (am_ack_bitfield am)
      in (outgoing, am_increment_local_packet_index (am_track_packet packet_type next_packet_index am)))"

section \<open>Resolving the sent packets\<close>

text \<open>What a header says about the packets sent: the newest received and the 32 before it.\<close>

definition header_outcomes :: "standard_header \<Rightarrow> (bool \<times> u16) list" where
  "header_outcomes h = (True, sh_sender_ack_index h) #
     map (\<lambda>i. (bit (sh_sender_ack_bitfield h) (i - 1), sh_sender_ack_index h - of_nat i)) [1..<33]"

abbreviation resolve_all :: "(bool \<times> u16) list \<Rightarrow> u16 list \<times> ack_manager \<Rightarrow> (u16 list \<times> ack_manager) res" where
  "resolve_all \<equiv> rfold (\<lambda>(acked, s). am_resolve acked s)"

lemma and_1_eq_1: "(w :: 'a :: len word) AND 1 = 1 \<longleftrightarrow> bit w 0"
  by (simp add: bit_0 and_one_eq odd_iff_mod_2_eq_one)

lemma bitfield_loop_resolve:
  "am_bitfield_loop [Suc j..<k] a bf s =
     resolve_all (map (\<lambda>i. (bit bf (i - 1 - j), a - of_nat i)) [Suc j..<k]) s"
proof (induction "k - j" arbitrary: j bf s)
  case (Suc n)
  show ?case
  proof (cases "Suc j < k")
    case True
    then have l: "[Suc j..<k] = Suc j # [Suc (Suc j)..<k]" by (simp add: upt_rec)
    have m: "map (\<lambda>i. (bit (drop_bit 1 bf) (i - 1 - Suc j), a - of_nat i)) [Suc (Suc j)..<k] =
        map (\<lambda>i. (bit bf (i - 1 - j), a - of_nat i)) [Suc (Suc j)..<k]"
      by (auto simp: bit_simps Suc_diff_Suc intro!: arg_cong [of _ _ "bit bf"])
    have ih: "am_bitfield_loop [Suc (Suc j)..<k] a (drop_bit 1 bf) =
        resolve_all (map (\<lambda>i. (bit bf (i - 1 - j), a - of_nat i)) [Suc (Suc j)..<k])"
      unfolding m [symmetric] by (rule ext, rule Suc.hyps(1)) (use Suc.hyps(2) in simp)
    show ?thesis unfolding l by (simp add: ih [simplified] and_1_eq_1)
  qed simp
qed simp

lemma process_resolve:
  "am_process_incoming_header h am =
     resolve_all (header_outcomes h) ([], am_receive_index (sh_sender_packet_index h) am)"
  using bitfield_loop_resolve [of 0 33 "sh_sender_ack_index h" "sh_sender_ack_bitfield h"]
  by (simp add: am_process_incoming_header_def header_outcomes_def REDUNDANT_PACKET_ACKS_SIZE_def del: upt_Suc
      cong: rbind_cong)

definition lm_fine :: "ack_manager \<Rightarrow> bool" where
  "lm_fine am \<longleftrightarrow> (\<exists>h. lm_ok h (am_loss_monitor am))"

text \<open>The part of the state that resolving does not touch.\<close>

definition am_rest :: "ack_manager \<Rightarrow> u16 \<times> u16 \<times> unit sequence_buffer \<times> bool" where
  "am_rest am = (am_next_packet_index am, am_last_recv_packet_index am, am_received_packets am, am_should_send_empty_ack am)"

lemma am_resolve_ok:
  assumes "lm_fine am"
  shows "\<exists>am'. am_resolve a s (d, am) = Inr (d @ (if a \<and> am_sent_packets am s = Some Data then [s] else []), am') \<and>
    lm_fine am' \<and> am_rest am' = am_rest am \<and> am_sent_packets am' = (am_sent_packets am)(s := None)"
proof -
  obtain h where "lm_ok h (am_loss_monitor am)" using assms by (auto simp: lm_fine_def)
  from lm_record_ok [OF this, of a]
  obtain lm where lm: "lm_record a (am_loss_monitor am) = Inr lm" "lm_ok (h @ [a]) lm" by blast
  show ?thesis
  proof (cases "am_sent_packets am s")
    case None
    then have "am_sent_packets am = (am_sent_packets am)(s := None)" by auto
    with None assms show ?thesis by (simp add: am_resolve_def)
  next
    case (Some t)
    with lm assms show ?thesis
      by (cases a) (auto simp: am_resolve_def lm_fine_def am_rest_def lm_record_acked_def lm_record_lost_def)
  qed
qed

lemma resolve_all_ok:
  assumes "lm_fine am" "distinct (map snd xs)"
  shows "\<exists>d' am'. resolve_all xs (d, am) = Inr (d @ d', am') \<and> lm_fine am' \<and> am_rest am' = am_rest am \<and>
    distinct d' \<and> set d' = {s. (True, s) \<in> set xs \<and> am_sent_packets am s = Some Data} \<and>
    am_sent_packets am' = am_sent_packets am |` (- snd ` set xs)"
  using assms
proof (induction xs arbitrary: d am)
  case (Cons x xs)
  obtain a s where x: "x = (a, s)" by force
  let ?d = "if a \<and> am_sent_packets am s = Some Data then [s] else []"
  obtain am1 where 1: "am_resolve a s (d, am) = Inr (d @ ?d, am1)" "lm_fine am1" "am_rest am1 = am_rest am"
      "am_sent_packets am1 = (am_sent_packets am)(s := None)"
    using am_resolve_ok [OF Cons.prems(1), of a s d] by blast
  obtain d' am' where 2: "resolve_all xs (d @ ?d, am1) = Inr ((d @ ?d) @ d', am')" "lm_fine am'" "am_rest am' = am_rest am1"
      "distinct d'" "set d' = {s. (True, s) \<in> set xs \<and> am_sent_packets am1 s = Some Data}"
      "am_sent_packets am' = am_sent_packets am1 |` (- snd ` set xs)"
    using Cons.IH [OF 1(2), of "d @ ?d"] Cons.prems(2) by auto
  have "s \<notin> set d'" using 2(5) 1(4) by simp
  moreover have "set (?d @ d') = {s. (True, s) \<in> set (x # xs) \<and> am_sent_packets am s = Some Data}"
    using 2(5) 1(4) Cons.prems(2) x by (force split: if_splits)
  moreover have "am_sent_packets am' = am_sent_packets am |` (- snd ` set (x # xs))"
    using 2(6) 1(4) x by (auto simp: restrict_map_def fun_eq_iff)
  moreover have "resolve_all (x # xs) (d, am) = Inr (d @ (?d @ d'), am')" using 1(1) 2(1) x by simp
  ultimately show ?case using 1 2 by (intro exI [of _ "?d @ d'"] exI [of _ am']) auto
qed (simp add: restrict_map_def)

lemma header_outcomes_distinct: "distinct (map snd (header_outcomes h))"
proof -
  have "map snd (header_outcomes h) = map (\<lambda>i. sh_sender_ack_index h - of_nat i) [0..<33]"
    by (simp add: header_outcomes_def upt_conv_Cons)
  moreover have "inj_on (\<lambda>i. sh_sender_ack_index h - of_nat i) (set [0..<33])"
    by (auto intro!: inj_onI simp: of_nat_u16_eq_iff)
  ultimately show ?thesis by (simp add: distinct_map)
qed

lemma header_outcomes_sets:
  "(True, s) \<in> set (header_outcomes h) \<longleftrightarrow> s = sh_sender_ack_index h \<or>
     (\<exists>k<32. bit (sh_sender_ack_bitfield h) k \<and> s = sh_sender_ack_index h - of_nat (k + 1))"
  "snd ` set (header_outcomes h) = (\<lambda>k. sh_sender_ack_index h - of_nat k) ` {..32}"
proof -
  have 1: "[1..<33] = map Suc [0..<32]" by (simp add: map_Suc_upt)
  show "(True, s) \<in> set (header_outcomes h) \<longleftrightarrow> s = sh_sender_ack_index h \<or>
     (\<exists>k<32. bit (sh_sender_ack_bitfield h) k \<and> s = sh_sender_ack_index h - of_nat (k + 1))"
    unfolding header_outcomes_def 1 by (auto simp: image_iff simp del: of_nat_Suc of_nat_add)
  have 2: "{..32} = insert 0 {1..<33 :: nat}" by auto
  show "snd ` set (header_outcomes h) = (\<lambda>k. sh_sender_ack_index h - of_nat k) ` {..32}"
    unfolding 2 by (simp add: header_outcomes_def image_image)
qed

text \<open>The header handler, on every header: exactly the acknowledged data packets are reported.\<close>

lemma am_process_ok:
  assumes "lm_fine am"
  shows "\<exists>d am'. am_process_incoming_header h am = Inr (d, am') \<and> lm_fine am' \<and> distinct d \<and>
    am_rest am' = am_rest (am_receive_index (sh_sender_packet_index h) am) \<and>
    set d = {s. (True, s) \<in> set (header_outcomes h) \<and> am_sent_packets am s = Some Data} \<and>
    am_sent_packets am' = am_sent_packets am |` (- snd ` set (header_outcomes h))"
proof -
  let ?am = "am_receive_index (sh_sender_packet_index h) am"
  have "lm_fine ?am" "am_sent_packets ?am = am_sent_packets am"
    using assms by (simp_all add: am_receive_index_def lm_fine_def Let_def)
  with resolve_all_ok [OF _ header_outcomes_distinct, of ?am h "[]"] show ?thesis
    by (auto simp: process_resolve)
qed

section \<open>The bitfield of a header\<close>

lemma bitfield_fold:
  fixes P :: "nat \<Rightarrow> bool"
  assumes "j + n \<le> 32"
  shows "bit (fst (fold (\<lambda>i (b, m). (if P i then b OR m else b, push_bit 1 m)) [Suc j..<Suc j + n] (b, push_bit j 1 :: u32))) k
    \<longleftrightarrow> bit b k \<or> j \<le> k \<and> k < j + n \<and> P (Suc k)"
  using assms
proof (induction n arbitrary: j b)
  case (Suc n)
  have "[Suc j..<Suc j + Suc n] = Suc j # [Suc (Suc j)..<Suc (Suc j) + n]" by (simp add: upt_conv_Cons del: upt_Suc)
  moreover have "push_bit 1 (push_bit j 1 :: u32) = push_bit (Suc j) 1" by simp
  moreover have "bit (push_bit j 1 :: u32) k \<longleftrightarrow> k = j" using Suc.prems by (auto simp: bit_simps)
  ultimately show ?case using Suc.IH [of "Suc j" "if P (Suc j) then b OR push_bit j 1 else b"] Suc.prems
    by (auto simp: bit_or_iff le_Suc_eq simp del: upt_Suc push_bit_push_bit push_bit_of_1)
qed auto

lemma ack_bitfield_bit:
  "bit (am_ack_bitfield am) k \<longleftrightarrow>
     k < 32 \<and> sb_exists (am_last_recv_packet_index am - of_nat (k + 1)) (am_received_packets am)"
  using bitfield_fold [of 0 32 "\<lambda>i. sb_exists (am_last_recv_packet_index am - of_nat i) (am_received_packets am)" 0 k]
  by (simp add: am_ack_bitfield_def REDUNDANT_PACKET_ACKS_SIZE_def del: upt_Suc)

section \<open>Two managers over a lossy network\<close>

text \<open>
  A packet on the network: its header, its number, and what its sender had received by then: one past
  the newest packet, and all packets. An endpoint counts the packets sent and keeps the packets received and the
  packets reported as delivered, in order.
\<close>

record packet =
  pk_number :: nat
  pk_header :: standard_header
  pk_newest :: nat
  pk_received :: "nat set"

record endpoint =
  ep_manager :: ack_manager
  ep_sent :: nat
  ep_newest :: nat
  ep_received :: "nat set"
  ep_delivered :: "nat list"

definition ep_new :: endpoint where
  "ep_new = \<lparr> ep_manager = am_new, ep_sent = 0, ep_newest = 0, ep_received = {}, ep_delivered = [] \<rparr>"

text \<open>The packet sent last under an index.\<close>

definition last_sent_as :: "nat \<Rightarrow> u16 \<Rightarrow> nat" where
  "last_sent_as n s = n - 1 - unat (of_nat (n - 1) - s)"

definition ep_send :: "packet_type \<Rightarrow> endpoint \<Rightarrow> packet \<times> endpoint" where
  "ep_send t e =
     (let (h, am) = am_next_outgoing_packet_header t (ep_manager e)
      in (\<lparr> pk_number = ep_sent e, pk_header = h, pk_newest = ep_newest e, pk_received = ep_received e \<rparr>,
          e \<lparr> ep_manager := am, ep_sent := ep_sent e + 1 \<rparr>))"

definition ep_receive :: "packet \<Rightarrow> endpoint \<Rightarrow> endpoint res" where
  "ep_receive p e =
     rbind (am_process_incoming_header (pk_header p) (ep_manager e)) (\<lambda>(d, am).
       Inr (e \<lparr> ep_manager := am, ep_newest := max (ep_newest e) (Suc (pk_number p)),
                ep_received := insert (pk_number p) (ep_received e),
                ep_delivered := ep_delivered e @ map (last_sent_as (ep_sent e)) d \<rparr>))"

text \<open>
  A packet is processed at most half the index range away from the newest one, and before its
  acknowledgements are a whole range old. Nothing else is assumed of the network.
\<close>

definition timely :: "packet \<Rightarrow> endpoint \<Rightarrow> bool" where
  "timely p e \<longleftrightarrow> pk_number p + 33 < ep_newest e + 32768 \<and> ep_newest e < pk_number p + 32768 \<and>
     ep_sent e + 33 \<le> pk_newest p + 65536"

record link =
  ln_a :: endpoint
  ln_b :: endpoint
  ln_to_a :: "packet set"
  ln_to_b :: "packet set"

definition link_new :: link where
  "link_new = \<lparr> ln_a = ep_new, ln_b = ep_new, ln_to_a = {}, ln_to_b = {} \<rparr>"

inductive link_step :: "link \<Rightarrow> link \<Rightarrow> bool" where
  send_a: "ep_send t (ln_a l) = (p, e) \<Longrightarrow> link_step l (l \<lparr> ln_a := e, ln_to_b := insert p (ln_to_b l) \<rparr>)"
| send_b: "ep_send t (ln_b l) = (p, e) \<Longrightarrow> link_step l (l \<lparr> ln_b := e, ln_to_a := insert p (ln_to_a l) \<rparr>)"
| receive_a: "p \<in> ln_to_a l \<Longrightarrow> timely p (ln_a l) \<Longrightarrow> ep_receive p (ln_a l) = Inr e \<Longrightarrow> link_step l (l \<lparr> ln_a := e \<rparr>)"
| receive_b: "p \<in> ln_to_b l \<Longrightarrow> timely p (ln_b l) \<Longrightarrow> ep_receive p (ln_b l) = Inr e \<Longrightarrow> link_step l (l \<lparr> ln_b := e \<rparr>)"

abbreviation link_reachable :: "link \<Rightarrow> bool" where
  "link_reachable l \<equiv> link_step\<^sup>*\<^sup>* link_new l"

section \<open>The invariant of an endpoint\<close>

text \<open>The receiving half.\<close>

definition recv_ok :: "endpoint \<Rightarrow> bool" where
  "recv_ok e \<longleftrightarrow> sb_ok 33 (ep_newest e) (ep_received e) (am_received_packets (ep_manager e)) \<and>
     sb_complete 33 (ep_newest e) (ep_received e) (am_received_packets (ep_manager e)) \<and>
     am_last_recv_packet_index (ep_manager e) = of_nat (ep_newest e) - 1 \<and>
     ep_received e \<subseteq> {..<ep_newest e} \<and> (0 < ep_newest e \<longrightarrow> ep_newest e - 1 \<in> ep_received e)"

text \<open>The sending half, with the packets the peer has received.\<close>

definition send_ok :: "nat set \<Rightarrow> endpoint \<Rightarrow> bool" where
  "send_ok R e \<longleftrightarrow> lm_fine (ep_manager e) \<and> am_next_packet_index (ep_manager e) = of_nat (ep_sent e) \<and>
     (\<forall>s t. am_sent_packets (ep_manager e) s = Some t \<longrightarrow>
        (\<exists>p. s = of_nat p \<and> p < ep_sent e \<and> ep_sent e \<le> p + 65536 \<and> p \<notin> set (ep_delivered e))) \<and>
     distinct (ep_delivered e) \<and> set (ep_delivered e) \<subseteq> R \<and> set (ep_delivered e) \<subseteq> {..<ep_sent e}"

text \<open>A packet says nothing wrong about what its sender had received.\<close>

definition packet_ok :: "packet \<Rightarrow> bool" where
  "packet_ok p \<longleftrightarrow> sh_sender_packet_index (pk_header p) = of_nat (pk_number p) \<and>
     sh_sender_ack_index (pk_header p) = of_nat (pk_newest p) - 1 \<and>
     (0 < pk_newest p \<longrightarrow> pk_newest p - 1 \<in> pk_received p) \<and>
     (\<forall>k<32. bit (sh_sender_ack_bitfield (pk_header p)) k \<longrightarrow>
        k + 2 \<le> pk_newest p \<and> pk_newest p - (k + 2) \<in> pk_received p)"

lemma recv_ok_new: "recv_ok ep_new"
  by (simp add: recv_ok_def ep_new_def am_new_def REDUNDANT_PACKET_ACKS_SIZE_def sb_ok_new sb_complete_new)

lemma send_ok_new: "send_ok R ep_new"
  using lm_ok_new by (auto simp: send_ok_def ep_new_def am_new_def lm_fine_def)

lemma last_sent_as_eq:
  assumes "p < n" "n \<le> p + 65536"
  shows "last_sent_as n (of_nat p) = p"
proof -
  have "of_nat (n - 1) - (of_nat p :: u16) = of_nat (n - 1 - p)" using assms(1) by (simp add: of_nat_diff)
  moreover have "n - 1 - p < 65536" using assms by simp
  ultimately have "last_sent_as n (of_nat p) = n - 1 - (n - 1 - p)" by (simp only: last_sent_as_def unat_of_nat_u16)
  then show ?thesis using assms by simp
qed

text \<open>The index of a bit names the packet of that age.\<close>

lemma older_index:
  assumes "q < N" "N \<le> q + 65536" "k < 32" "(of_nat q :: u16) = of_nat N - 1 - of_nat (k + 1)"
  shows "k + 2 \<le> N \<and> q = N - (k + 2)"
proof -
  have "(of_nat (q + k + 2) :: u16) = of_nat N" using assms(4) by (simp add: algebra_simps)
  moreover have "q + k + 2 < N + 65536" "N < q + k + 2 + 65536" using assms by simp_all
  ultimately have "q + k + 2 = N" using of_nat_u16_eq_iff [of "q + k + 2" N] by simp
  then show ?thesis by simp
qed

lemma acked_received:
  assumes p: "packet_ok p" "(True, of_nat q) \<in> set (header_outcomes (pk_header p))"
    and q: "q < n" "n \<le> q + 65536" and n: "pk_newest p \<le> n" "n + 33 \<le> pk_newest p + 65536"
  shows "q \<in> pk_received p"
proof -
  let ?N = "pk_newest p"
  have a: "sh_sender_ack_index (pk_header p) = of_nat ?N - 1" using p(1) by (simp add: packet_ok_def)
  from p(2) consider "(of_nat q :: u16) = of_nat ?N - 1"
    | k where "k < 32" "bit (sh_sender_ack_bitfield (pk_header p)) k" "(of_nat q :: u16) = of_nat ?N - 1 - of_nat (k + 1)"
    by (auto simp: header_outcomes_sets a)
  then show ?thesis
  proof cases
    case 1
    then have "(of_nat (q + 1) :: u16) = of_nat ?N" by simp
    then have "q + 1 = ?N" using of_nat_u16_eq_iff [of "q + 1" ?N] q n by simp
    then have "0 < ?N" "q = ?N - 1" by simp_all
    with p(1) show ?thesis by (simp add: packet_ok_def)
  next
    case (2 k)
    then have "(of_nat (q + k + 2) :: u16) = of_nat ?N" by (simp add: algebra_simps)
    then have "q + k + 2 = ?N" using of_nat_u16_eq_iff [of "q + k + 2" ?N] q n 2(1) by simp
    moreover have "?N - (k + 2) \<in> pk_received p" using p(1) 2 unfolding packet_ok_def by blast
    ultimately show ?thesis by (metis add.assoc add_diff_cancel_right')
  qed
qed

lemma ep_send_packet_ok:
  assumes e: "recv_ok e" "send_ok R e" and send: "ep_send t e = (p, e')"
  shows "packet_ok p"
proof -
  let ?am = "ep_manager e" and ?N = "ep_newest e"
  have r: "sb_ok 33 ?N (ep_received e) (am_received_packets ?am)"
      "am_last_recv_packet_index ?am = of_nat ?N - 1" "0 < ?N \<longrightarrow> ?N - 1 \<in> ep_received e"
    using e(1) by (simp_all add: recv_ok_def)
  have bits: "k + 2 \<le> ?N \<and> ?N - (k + 2) \<in> ep_received e" if k: "bit (am_ack_bitfield ?am) k" for k
  proof -
    have "k < 32" "sb_exists (of_nat ?N - 1 - of_nat (k + 1)) (am_received_packets ?am)"
      using k r(2) by (simp_all add: ack_bitfield_bit)
    from sb_exists_in [OF r(1) _ this(2)] obtain q where "q \<in> ep_received e" "q < ?N" "?N \<le> q + 65536"
        "(of_nat q :: u16) = of_nat ?N - 1 - of_nat (k + 1)" by auto
    with older_index [of q ?N k] \<open>k < 32\<close> show ?thesis by simp
  qed
  moreover have "pk_header p = sh_new t (of_nat (ep_sent e)) (of_nat ?N - 1) (am_ack_bitfield ?am)"
      "pk_number p = ep_sent e" "pk_newest p = ?N" "pk_received p = ep_received e"
    using send e(2) r(2) by (auto simp: ep_send_def am_next_outgoing_packet_header_def Let_def send_ok_def)
  ultimately show ?thesis using r(3) unfolding packet_ok_def by (simp add: sh_new_def)
qed

lemma ep_send_fields:
  assumes "ep_send t e = (p, e')"
  shows "pk_number p = ep_sent e" "pk_newest p = ep_newest e" "pk_received p = ep_received e"
    "ep_sent e' = Suc (ep_sent e)" "ep_newest e' = ep_newest e" "ep_received e' = ep_received e"
    "ep_delivered e' = ep_delivered e"
  using assms by (auto simp: ep_send_def am_next_outgoing_packet_header_def Let_def)

lemma ep_send_ok:
  assumes "recv_ok e" "send_ok R e" and send: "ep_send t e = (p, e')"
  shows "recv_ok e'" "send_ok R e'"
proof -
  let ?am = "ep_manager e" and ?n = "ep_sent e"
  have m: "am_rest (ep_manager e') = (of_nat (Suc ?n), snd (am_rest ?am))" "am_loss_monitor (ep_manager e') = am_loss_monitor ?am"
      "am_sent_packets (ep_manager e') = (am_sent_packets ?am)(of_nat ?n \<mapsto> t)"
    using send assms(2) by (auto simp: ep_send_def am_next_outgoing_packet_header_def Let_def am_track_packet_def
        am_increment_local_packet_index_def am_rest_def send_ok_def)
  from assms(1) show "recv_ok e'" using m(1) ep_send_fields [OF send] by (simp add: recv_ok_def am_rest_def)
  have "\<exists>q. s = of_nat q \<and> q < Suc ?n \<and> Suc ?n \<le> q + 65536 \<and> q \<notin> set (ep_delivered e)"
    if s: "am_sent_packets (ep_manager e') s = Some u" for s u
  proof (cases "s = of_nat ?n")
    case True
    have "?n \<notin> set (ep_delivered e)" using assms(2) by (auto simp: send_ok_def)
    with True show ?thesis by auto
  next
    case False
    then obtain q where q: "s = of_nat q" "q < ?n" "?n \<le> q + 65536" "q \<notin> set (ep_delivered e)"
      using assms(2) s m(3) by (auto simp: send_ok_def)
    have "?n \<noteq> q + 65536"
    proof
      assume "?n = q + 65536"
      then have "?n mod 65536 = q mod 65536" by simp
      with of_nat_u16_mod [of ?n] of_nat_u16_mod [of q] q(1) False show False by simp
    qed
    with q show ?thesis by auto
  qed
  moreover have "set (ep_delivered e) \<subseteq> {..<Suc ?n}" using assms(2) by (auto simp: send_ok_def)
  ultimately show "send_ok R e'" using assms(2) m(1,2) ep_send_fields [OF send]
    by (simp add: send_ok_def am_rest_def lm_fine_def)
qed

lemma receive_index_ok:
  assumes e: "recv_ok e" and near: "p + 33 < ep_newest e + 32768" "ep_newest e < p + 32768"
    and e': "am_rest (ep_manager e') = am_rest (am_receive_index (of_nat p) (ep_manager e))"
      "ep_newest e' = max (ep_newest e) (Suc p)" "ep_received e' = insert p (ep_received e)"
  shows "recv_ok e'"
proof -
  let ?N = "ep_newest e" and ?R = "ep_received e" and ?b = "am_received_packets (ep_manager e)"
  have r: "sb_ok 33 ?N ?R ?b" "sb_complete 33 ?N ?R ?b" "am_last_recv_packet_index (ep_manager e) = of_nat ?N - 1"
      "?R \<subseteq> {..<?N}" "0 < ?N \<longrightarrow> ?N - 1 \<in> ?R" using e by (simp_all add: recv_ok_def)
  have b: "am_received_packets (ep_manager e') = snd (sb_insert (of_nat p) () ?b)"
    using e'(1) by (auto simp: am_rest_def am_receive_index_def Let_def split: if_splits)
  have "sequence_greater_than (- 1 + of_nat (Suc p)) (- 1 + of_nat ?N) \<longleftrightarrow> ?N < Suc p"
    using near by (intro sequence_greater_than_seq_at) auto
  then have "sequence_greater_than (of_nat p) (of_nat ?N - 1) \<longleftrightarrow> ?N \<le> p" by (simp add: less_Suc_eq_le)
  then have "am_last_recv_packet_index (ep_manager e') = of_nat (max ?N (Suc p)) - 1"
    using e'(1) r(3) by (cases "?N \<le> p") (simp_all add: am_rest_def am_receive_index_def Let_def max_absorb1 max_absorb2)
  moreover have "sb_ok 33 (max ?N (Suc p)) (insert p ?R) (snd (sb_insert (of_nat p) () ?b))"
    by (rule sb_insert_ok [OF r(1)]) (use near in simp_all)
  moreover have "sb_complete 33 (max ?N (Suc p)) (insert p ?R) (snd (sb_insert (of_nat p) () ?b))"
    by (rule sb_insert_complete [OF r(1,2) _ _ r(4)]) (use near in simp_all)
  moreover have "insert p ?R \<subseteq> {..<max ?N (Suc p)}" "max ?N (Suc p) - 1 \<in> insert p ?R"
    using r(4,5) by (auto simp: max_def)
  ultimately show ?thesis unfolding recv_ok_def e'(2,3) b by simp
qed

lemma deliver_ok:
  assumes e: "send_ok R e" and p: "packet_ok p" "pk_received p \<subseteq> R" "pk_newest p \<le> ep_sent e" "timely p e"
    and d: "distinct d" "set d = {s. (True, s) \<in> set (header_outcomes (pk_header p)) \<and> am_sent_packets (ep_manager e) s = Some Data}"
      "am_sent_packets am' = am_sent_packets (ep_manager e) |` (- snd ` set (header_outcomes (pk_header p)))"
      "lm_fine am'" "am_next_packet_index am' = am_next_packet_index (ep_manager e)"
  shows "send_ok R (e \<lparr> ep_manager := am', ep_newest := N, ep_received := Q,
    ep_delivered := ep_delivered e @ map (last_sent_as (ep_sent e)) d \<rparr>)"
proof -
  let ?n = "ep_sent e" and ?D = "map (last_sent_as (ep_sent e)) d"
  have q: "\<exists>q. s = of_nat q \<and> last_sent_as ?n s = q \<and> q < ?n \<and> ?n \<le> q + 65536 \<and> q \<notin> set (ep_delivered e)"
    if s: "am_sent_packets (ep_manager e) s = Some t" for s t
  proof -
    obtain q where "s = of_nat q" "q < ?n" "?n \<le> q + 65536" "q \<notin> set (ep_delivered e)"
      using e s unfolding send_ok_def by blast
    with last_sent_as_eq [of q ?n] show ?thesis by blast
  qed
  have D: "q < ?n \<and> q \<notin> set (ep_delivered e) \<and> q \<in> R" if qD: "q \<in> set ?D" for q
  proof -
    obtain s where s: "s \<in> set d" "q = last_sent_as ?n s" using qD by auto
    with d(2) q [of s Data] have "s = of_nat q" "q < ?n" "?n \<le> q + 65536" "q \<notin> set (ep_delivered e)"
        "(True, s) \<in> set (header_outcomes (pk_header p))" by auto
    with acked_received [OF p(1), of q ?n] p show ?thesis by (auto simp: timely_def)
  qed
  have "inj_on (last_sent_as ?n) (set d)"
  proof (rule inj_onI)
    fix s t assume "s \<in> set d" "t \<in> set d" "last_sent_as ?n s = last_sent_as ?n t"
    with d(2) q [of s Data] q [of t Data] show "s = t" by auto
  qed
  then have dist: "distinct (ep_delivered e @ ?D)" using e d(1) D by (auto simp: send_ok_def distinct_map)
  have rest: "\<exists>q. s = of_nat q \<and> q < ?n \<and> ?n \<le> q + 65536 \<and> q \<notin> set (ep_delivered e @ ?D)"
    if s: "am_sent_packets am' s = Some t" for s t
  proof -
    have s': "am_sent_packets (ep_manager e) s = Some t" "s \<notin> snd ` set (header_outcomes (pk_header p))"
      using s d(3) by (auto simp: restrict_map_def split: if_splits)
    have "last_sent_as ?n s \<notin> set ?D"
    proof
      assume "last_sent_as ?n s \<in> set ?D"
      then obtain u where u: "u \<in> set d" "last_sent_as ?n s = last_sent_as ?n u" by auto
      with d(2) q [OF s'(1)] q [of u Data] have "u = s" by auto
      with u(1) d(2) s'(2) show False by force
    qed
    with q [OF s'(1)] show ?thesis by auto
  qed
  from dist rest D e d(4,5) show ?thesis by (auto simp: send_ok_def)
qed

text \<open>Receiving a packet: the handler returns, and both halves keep their invariant.\<close>

lemma ep_receive_ok:
  assumes e: "recv_ok e" "send_ok R e" and p: "packet_ok p" "pk_received p \<subseteq> R" "pk_newest p \<le> ep_sent e" "timely p e"
  shows "\<exists>e'. ep_receive p e = Inr e' \<and> recv_ok e' \<and> send_ok R e' \<and> ep_sent e' = ep_sent e \<and>
    ep_newest e' = max (ep_newest e) (Suc (pk_number p)) \<and> ep_received e' = insert (pk_number p) (ep_received e)"
proof -
  have "lm_fine (ep_manager e)" using e(2) by (simp add: send_ok_def)
  from am_process_ok [OF this, of "pk_header p"] obtain d am'
    where d: "am_process_incoming_header (pk_header p) (ep_manager e) = Inr (d, am')" "lm_fine am'" "distinct d"
      "am_rest am' = am_rest (am_receive_index (sh_sender_packet_index (pk_header p)) (ep_manager e))"
      "set d = {s. (True, s) \<in> set (header_outcomes (pk_header p)) \<and> am_sent_packets (ep_manager e) s = Some Data}"
      "am_sent_packets am' = am_sent_packets (ep_manager e) |` (- snd ` set (header_outcomes (pk_header p)))" by blast
  have i: "sh_sender_packet_index (pk_header p) = of_nat (pk_number p)" using p(1) by (simp add: packet_ok_def)
  have n: "am_next_packet_index am' = am_next_packet_index (ep_manager e)"
    using d(4) by (auto simp: am_rest_def am_receive_index_def Let_def split: if_splits)
  let ?e = "e \<lparr> ep_manager := am', ep_newest := max (ep_newest e) (Suc (pk_number p)),
      ep_received := insert (pk_number p) (ep_received e),
      ep_delivered := ep_delivered e @ map (last_sent_as (ep_sent e)) d \<rparr>"
  have "recv_ok ?e" by (rule receive_index_ok [OF e(1)]) (use p(4) d(4) i in \<open>simp_all add: timely_def\<close>)
  moreover have "send_ok R ?e" by (rule deliver_ok [OF e(2) p d(3,5,6,2) n])
  moreover have "ep_receive p e = Inr ?e" using d(1) by (simp add: ep_receive_def)
  ultimately show ?thesis by simp
qed

section \<open>The invariant of the link\<close>

definition flow :: "endpoint \<Rightarrow> endpoint \<Rightarrow> packet set \<Rightarrow> bool" where
  "flow x y net \<longleftrightarrow> send_ok (ep_received y) x \<and> recv_ok y \<and> ep_newest y \<le> ep_sent x \<and>
     (\<forall>p\<in>net. packet_ok p \<and> pk_number p < ep_sent x \<and> pk_received p \<subseteq> ep_received x \<and> pk_newest p \<le> ep_newest x)"

definition link_inv :: "link \<Rightarrow> bool" where
  "link_inv l \<longleftrightarrow> flow (ln_a l) (ln_b l) (ln_to_b l) \<and> flow (ln_b l) (ln_a l) (ln_to_a l)"

lemma link_inv_new: "link_inv link_new"
  by (simp add: link_inv_def link_new_def flow_def send_ok_new recv_ok_new) (simp add: ep_new_def)

lemma send_ok_mono: "send_ok R e \<Longrightarrow> R \<subseteq> R' \<Longrightarrow> send_ok R' e"
  by (auto simp: send_ok_def)

lemma flow_send:
  assumes "flow x y net" "flow y x net'" "ep_send t x = (p, x')"
  shows "flow x' y (insert p net)" "flow y x' net'"
proof -
  have x: "recv_ok x" "send_ok (ep_received y) x" using assms by (simp_all add: flow_def)
  note ok = ep_send_ok [OF x assms(3)] ep_send_packet_ok [OF x assms(3)] ep_send_fields [OF assms(3)]
  from assms(1,2) ok show "flow x' y (insert p net)" "flow y x' net'"
    by (simp_all add: flow_def less_SucI le_SucI)
qed

lemma flow_receive:
  assumes f: "flow x y net" "flow y x net'" and p: "p \<in> net" "timely p y"
  shows "\<exists>y'. ep_receive p y = Inr y' \<and> flow x y' net \<and> flow y' x net'"
proof -
  have "recv_ok y" "send_ok (ep_received x) y" "packet_ok p" "pk_received p \<subseteq> ep_received x" "pk_newest p \<le> ep_sent y"
    using f p(1) by (auto simp: flow_def)
  from ep_receive_ok [OF this p(2)] obtain y' where y': "ep_receive p y = Inr y'" "recv_ok y'" "send_ok (ep_received x) y'"
      "ep_sent y' = ep_sent y" "ep_newest y' = max (ep_newest y) (Suc (pk_number p))"
      "ep_received y' = insert (pk_number p) (ep_received y)" by blast
  moreover have "send_ok (ep_received y') x" using f(1) y'(6) by (auto simp: flow_def intro: send_ok_mono)
  ultimately have "flow x y' net \<and> flow y' x net'" using f p(1) unfolding flow_def by (auto simp: Suc_le_eq le_max_iff_disj)
  with y'(1) show ?thesis by blast
qed

lemma link_step_inv: "link_step l l' \<Longrightarrow> link_inv l \<Longrightarrow> link_inv l'"
proof (induction rule: link_step.induct)
  case (send_a t l p e)
  then show ?case using flow_send [OF _ _ send_a(1)] by (auto simp: link_inv_def)
next
  case (send_b t l p e)
  then show ?case using flow_send [OF _ _ send_b(1)] by (auto simp: link_inv_def)
next
  case (receive_a p l e)
  then show ?case using flow_receive [of "ln_b l" "ln_a l" "ln_to_a l" "ln_to_b l" p] by (simp add: link_inv_def)
next
  case (receive_b p l e)
  then show ?case using flow_receive [of "ln_a l" "ln_b l" "ln_to_b l" "ln_to_a l" p] by (simp add: link_inv_def)
qed

lemma link_reachable_inv: "link_reachable l \<Longrightarrow> link_inv l"
  by (induction rule: rtranclp_induct) (auto intro: link_inv_new link_step_inv)

section \<open>An exchange\<close>

text \<open>A data packet is sent, received, acknowledged and reported.\<close>

lemma exchange_reachable:
  "\<exists>l. link_reachable l \<and> ep_delivered (ln_a l) = [0] \<and> ep_newest (ln_b l) = 1 \<and> ep_received (ln_b l) = {0}"
proof -
  obtain p a where s: "ep_send Data ep_new = (p, a)" by force
  note ok = recv_ok_new send_ok_new [of "{}"]
  note a = ep_send_ok [OF ok s] ep_send_packet_ok [OF ok s] ep_send_fields [OF s]
  have "timely p ep_new" using a(4,5) by (simp add: timely_def ep_new_def)
  then obtain b where b: "ep_receive p ep_new = Inr b" "recv_ok b" "send_ok {} b" "ep_newest b = 1" "ep_received b = {0}" "ep_sent b = 0"
    using ep_receive_ok [OF ok a(3)] a(4-6) by (auto simp: ep_new_def)
  obtain q b' where t: "ep_send Heartbeat b = (q, b')" by force
  note b' = ep_send_packet_ok [OF b(2,3) t] ep_send_fields [OF t]
  have "timely q a" using b'(2,3) a(5,7,8) b(4,6) by (simp add: timely_def ep_new_def)
  have "lm_fine (ep_manager a)" using a(2) by (simp add: send_ok_def)
  from am_process_ok [OF this, of "pk_header q"] obtain d am'
    where d: "am_process_incoming_header (pk_header q) (ep_manager a) = Inr (d, am')" "distinct d"
      "set d = {s. (True, s) \<in> set (header_outcomes (pk_header q)) \<and> am_sent_packets (ep_manager a) s = Some Data}" by blast
  have "am_sent_packets (ep_manager a) = [0 \<mapsto> Data]"
    using s by (auto simp: ep_send_def am_next_outgoing_packet_header_def Let_def am_track_packet_def
        am_increment_local_packet_index_def ep_new_def am_new_def)
  moreover have "(True, 0) \<in> set (header_outcomes (pk_header q))"
    using b'(1,3) b(4) by (simp add: header_outcomes_def packet_ok_def)
  ultimately have "set d = {0}" using d(3) by (auto split: if_splits)
  with d(2) have "d = [0]" by (cases d; cases "tl d") auto
  then obtain a' where a': "ep_receive q a = Inr a'" "ep_delivered a' = [0]"
    using d(1) a(7,10) by (simp add: ep_receive_def ep_new_def last_sent_as_def)
  let ?l1 = "link_new \<lparr> ln_a := a, ln_to_b := insert p (ln_to_b link_new) \<rparr>"
  let ?l2 = "?l1 \<lparr> ln_b := b \<rparr>"
  let ?l3 = "?l2 \<lparr> ln_b := b', ln_to_a := insert q (ln_to_a ?l2) \<rparr>"
  let ?l4 = "?l3 \<lparr> ln_a := a' \<rparr>"
  have "link_step link_new ?l1" by (rule send_a [where t = Data]) (simp add: link_new_def s)
  moreover have "link_step ?l1 ?l2"
    by (rule receive_b [where p = p]) (use \<open>timely p ep_new\<close> b(1) in \<open>simp_all add: link_new_def\<close>)
  moreover have "link_step ?l2 ?l3" by (rule send_b [where t = Heartbeat]) (simp add: t)
  moreover have "link_step ?l3 ?l4" by (rule receive_a [where p = q]) (use \<open>timely q a\<close> a'(1) in simp_all)
  ultimately have "link_reachable ?l4" by (meson converse_rtranclp_into_rtranclp rtranclp.rtrancl_refl)
  with a'(2) b(4,5) b'(6,7) show ?thesis by (intro exI [of _ ?l4]) simp
qed

text \<open>Two packets are sent and received.\<close>

lemma two_received_reachable:
  "\<exists>l. link_reachable l \<and> ep_newest (ln_b l) = 2 \<and> ep_received (ln_b l) = {0, 1}"
proof -
  obtain p a where s: "ep_send Data ep_new = (p, a)" by force
  note ok = recv_ok_new send_ok_new [of "{}"]
  note a = ep_send_ok [OF ok s] ep_send_packet_ok [OF ok s] ep_send_fields [OF s]
  obtain q a' where t: "ep_send Data a = (q, a')" by force
  note a' = ep_send_packet_ok [OF a(1,2) t] ep_send_fields [OF t]
  have p: "timely p ep_new" using a(4,5) by (simp add: timely_def ep_new_def)
  then obtain b where b: "ep_receive p ep_new = Inr b" "recv_ok b" "send_ok {} b" "ep_newest b = 1" "ep_received b = {0}" "ep_sent b = 0"
    using ep_receive_ok [OF ok a(3)] a(4-6) by (auto simp: ep_new_def)
  have q: "pk_number q = 1" "pk_newest q = 0" "pk_received q = {}" using a'(2-4) a(7-9) by (simp_all add: ep_new_def)
  then have q': "timely q b" using b(4,6) by (simp add: timely_def)
  then obtain b' where b': "ep_receive q b = Inr b'" "ep_newest b' = 2" "ep_received b' = {0, 1}"
    using ep_receive_ok [OF b(2,3) a'(1)] b(4-6) q by (auto simp: insert_commute)
  let ?l1 = "link_new \<lparr> ln_a := a, ln_to_b := insert p (ln_to_b link_new) \<rparr>"
  let ?l2 = "?l1 \<lparr> ln_a := a', ln_to_b := insert q (ln_to_b ?l1) \<rparr>"
  let ?l3 = "?l2 \<lparr> ln_b := b \<rparr>"
  let ?l4 = "?l3 \<lparr> ln_b := b' \<rparr>"
  have "link_step link_new ?l1" by (rule send_a [where t = Data]) (simp add: link_new_def s)
  moreover have "link_step ?l1 ?l2" by (rule send_a [where t = Data]) (simp add: t)
  moreover have "link_step ?l2 ?l3" by (rule receive_b [where p = p]) (use p b(1) in \<open>simp_all add: link_new_def\<close>)
  moreover have "link_step ?l3 ?l4" by (rule receive_b [where p = q]) (use q' b'(1) in simp_all)
  ultimately have "link_reachable ?l4" by (meson converse_rtranclp_into_rtranclp rtranclp.rtrancl_refl)
  with b' show ?thesis by (intro exI [of _ ?l4]) simp
qed

section \<open>Properties\<close>

text \<open>
  C7. No false delivery: whatever packets the network between two acknowledgement managers loses,
  duplicates or reorders, and however often the 16-bit indices wrap, a packet is reported as delivered
  at most once and only when the other side has received it.
\<close>

theorem delivered_packets_received:
  assumes "link_reachable l"
  shows "set (ep_delivered (ln_a l)) \<subseteq> ep_received (ln_b l) \<and> distinct (ep_delivered (ln_a l)) \<and>
    set (ep_delivered (ln_b l)) \<subseteq> ep_received (ln_a l) \<and> distinct (ep_delivered (ln_b l))"
  using link_reachable_inv [OF assms] by (simp add: link_inv_def flow_def send_ok_def)

theorem delivered_packets_received_witness:
  "\<exists>l. link_reachable l \<and> ep_delivered (ln_a l) = [0] \<and> set (ep_delivered (ln_a l)) \<subseteq> ep_received (ln_b l) \<and>
    distinct (ep_delivered (ln_a l))"
proof -
  obtain l where l: "link_reachable l" "ep_delivered (ln_a l) = [0]" using exchange_reachable by blast
  with delivered_packets_received [OF l(1)] show ?thesis by blast
qed

text \<open>
  C26. Exactness away from the wrap: a header acknowledges a packet of the last 32 exactly when it has been
  received, for all packets of the first 65536 and for those of a later round of the indices that are
  in the same round as the newest packet and not among its first 33.
\<close>

theorem ack_bitfield_exact:
  assumes "link_reachable l" and "k < 32" and "k + 2 \<le> ep_newest (ln_b l)"
    and "must_hold 33 (ep_newest (ln_b l)) (ep_newest (ln_b l) - (k + 2))"
  shows "bit (am_ack_bitfield (ep_manager (ln_b l))) k \<longleftrightarrow> ep_newest (ln_b l) - (k + 2) \<in> ep_received (ln_b l)"
proof -
  let ?e = "ln_b l" let ?N = "ep_newest ?e" let ?q = "?N - (k + 2)" let ?b = "am_received_packets (ep_manager ?e)"
  have r: "sb_ok 33 ?N (ep_received ?e) ?b" "sb_complete 33 ?N (ep_received ?e) ?b"
      "am_last_recv_packet_index (ep_manager ?e) = of_nat ?N - 1"
    using link_reachable_inv [OF assms(1)] by (simp_all add: link_inv_def flow_def recv_ok_def)
  have i: "(of_nat ?N - 1 - of_nat (k + 1) :: u16) = of_nat ?q" using assms(3) by (simp add: of_nat_diff)
  have b: "bit (am_ack_bitfield (ep_manager ?e)) k \<longleftrightarrow> sb_exists (of_nat ?q) ?b"
    using assms(2) r(3) i by (simp add: ack_bitfield_bit)
  have "?q \<in> ep_received ?e" if ex: "sb_exists (of_nat ?q) ?b"
  proof -
    obtain q where q: "q \<in> ep_received ?e" "(of_nat q :: u16) = of_nat ?q" "q < ?N" "?N \<le> q + 65536"
      using sb_exists_in [OF r(1) _ ex] by auto
    have "q = ?q" using older_index [of q ?N k] q assms(2) i by simp
    with q(1) show ?thesis by simp
  qed
  with b sb_complete_exists [OF r(1,2) _ _ assms(4)] show ?thesis by auto
qed

theorem ack_bitfield_exact_witness:
  "\<exists>l. link_reachable l \<and> ep_newest (ln_b l) = 2 \<and> bit (am_ack_bitfield (ep_manager (ln_b l))) 0"
proof -
  obtain l where l: "link_reachable l" "ep_newest (ln_b l) = 2" "ep_received (ln_b l) = {0, 1}"
    using two_received_reachable by blast
  with ack_bitfield_exact [OF l(1), of 0] show ?thesis by (auto simp: must_hold_def)
qed

text \<open>
  C25. The header handler on every header: no panic, each packet outstanding under one of the 33
  indices the header speaks about is forgotten, and exactly the data packets among them that the header
  acknowledges are reported, each once.
\<close>

theorem process_incoming_header_exact:
  assumes "rfold lm_record outcomes lm_new = Inr (am_loss_monitor am)"
  shows "\<exists>d am'. am_process_incoming_header h am = Inr (d, am') \<and> distinct d \<and>
    set d = {s. am_sent_packets am s = Some Data \<and> (s = sh_sender_ack_index h \<or>
      (\<exists>k<32. bit (sh_sender_ack_bitfield h) k \<and> s = sh_sender_ack_index h - of_nat (k + 1)))} \<and>
    am_sent_packets am' = am_sent_packets am |` (- (\<lambda>k. sh_sender_ack_index h - of_nat k) ` {..32})"
proof -
  have "lm_ok outcomes (am_loss_monitor am)" using lm_records_ok [of outcomes] assms by auto
  then have "lm_fine am" by (auto simp: lm_fine_def)
  from am_process_ok [OF this, of h] show ?thesis unfolding header_outcomes_sets by (auto simp: conj_commute)
qed

theorem process_incoming_header_exact_witness:
  "\<exists>d am'. am_process_incoming_header (sh_new Data 0 5 0)
      (am_new \<lparr> am_sent_packets := [3 \<mapsto> Ping, 4 \<mapsto> Data, 5 \<mapsto> Data, 6 \<mapsto> Data] \<rparr>) = Inr (d, am') \<and>
    set d = {5} \<and> am_sent_packets am' 4 = None \<and> am_sent_packets am' 6 = Some Data"
proof -
  let ?am = "am_new \<lparr> am_sent_packets := [3 \<mapsto> Ping, 4 \<mapsto> Data, 5 \<mapsto> Data, 6 \<mapsto> Data] \<rparr>"
  have "rfold lm_record [] lm_new = Inr (am_loss_monitor ?am)" by (simp add: am_new_def)
  from process_incoming_header_exact [OF this, of "sh_new Data 0 5 0"]
  obtain d am' where d: "am_process_incoming_header (sh_new Data 0 5 0) ?am = Inr (d, am')"
      "set d = {s. am_sent_packets ?am s = Some Data \<and> (s = 5 \<or> (\<exists>k<32. bit (0 :: u32) k \<and> s = 5 - of_nat (k + 1)))}"
      "am_sent_packets am' = am_sent_packets ?am |` (- (\<lambda>k. 5 - of_nat k) ` {..32})" by (auto simp: sh_new_def)
  have "set d = {5}" using d(2) by (auto split: if_splits)
  moreover have "(4 :: u16) \<in> (\<lambda>k. 5 - of_nat k) ` {..32}" by (rule image_eqI [of _ _ 1]) simp_all
  moreover have "(6 :: u16) \<notin> (\<lambda>k. 5 - of_nat k) ` {..32}"
  proof
    assume "(6 :: u16) \<in> (\<lambda>k. 5 - of_nat k) ` {..32}"
    then obtain k where "k \<le> 32" "(of_nat (k + 1) :: u16) = of_nat 0" by (auto simp: algebra_simps)
    with of_nat_u16_eq_iff [of "k + 1" 0] show False by simp
  qed
  ultimately show ?thesis using d(1,3) by (auto simp: restrict_map_def)
qed

text \<open>
  C34. Around the wrap the ring loses a packet: its 33 slots do not divide the 65536 indices, so that
  index 30 falls on the slot of index 65535. When packet 65535 of a round is the newest received and index 30 of the
  next round arrives, the header built afterwards speaks about packet 65535 with bit 30 and does not
  acknowledge it, although it has been received.
\<close>

theorem received_packet_unacked_at_wrap:
  assumes "recv_ok e" and "ep_newest e = 65536 * m" and "0 < m"
  shows "65536 * m - 1 \<in> ep_received e \<and>
    am_last_recv_packet_index (am_receive_index 30 (ep_manager e)) - of_nat (30 + 1) = of_nat (65536 * m - 1) \<and>
    \<not> bit (am_ack_bitfield (am_receive_index 30 (ep_manager e))) 30"
proof -
  let ?b = "am_received_packets (ep_manager e)" and ?am = "am_receive_index 30 (ep_manager e)"
  have r: "length (sb_entry_sequences ?b) = 33" "sb_sequence_num ?b = of_nat (65536 * m)" "ep_newest e - 1 \<in> ep_received e"
      "am_last_recv_packet_index (ep_manager e) = of_nat (65536 * m) - 1"
    using assms by (simp_all add: recv_ok_def sb_ok_def)
  have z: "(of_nat (65536 * m) :: u16) = 0" using of_nat_u16_mod [of "65536 * m"] by simp
  have last: "am_last_recv_packet_index ?am = 30"
    using r(4) z by (simp add: am_receive_index_def Let_def sequence_greater_than_def)
  have len: "length (sb_entry_sequences (sb_advance_sequence 30 ?b)) = 33"
    using r(1) fold_remove [of ?b] by (simp add: sb_advance_sequence_def sb_remove_entries_def Let_def del: upt_Suc)
  have acc: "\<not> sequence_less_than 30 (sb_sequence_num ?b - 33)"
    using r(2) z by (simp add: sequence_less_than_def sequence_greater_than_def)
  have slot: "am_received_packets ?am = snd (sb_insert 30 () ?b)" by (simp add: am_receive_index_def Let_def)
  have "\<not> sb_exists 65535 (am_received_packets ?am)"
    unfolding slot using acc r(1) len by (simp add: sb_insert_def Let_def sb_exists_def sb_index_def)
  moreover have "(30 - of_nat (30 + 1) :: u16) = 65535" by simp
  ultimately have "\<not> bit (am_ack_bitfield ?am) 30" using last by (simp only: ack_bitfield_bit) simp
  moreover have "(of_nat (65536 * m - 1) :: u16) = - 1" using z assms(3) by (simp add: of_nat_diff del: of_nat_mult)
  ultimately show ?thesis using r(3) assms(2) last by simp
qed

theorem received_packet_unacked_at_wrap_witness:
  "\<exists>e :: endpoint. ep_newest e = 65536 \<and> 65535 \<in> ep_received e \<and>
    \<not> bit (am_ack_bitfield (am_receive_index 30 (ep_manager e))) 30"
proof -
  let ?rcv = "\<lambda>p e. e \<lparr> ep_manager := am_receive_index (of_nat p) (ep_manager e),
    ep_newest := max (ep_newest e) (Suc p), ep_received := insert p (ep_received e) \<rparr>"
  let ?e1 = "?rcv 30000 ep_new" let ?e2 = "?rcv 60000 ?e1" let ?e3 = "?rcv 65535 ?e2"
  have "recv_ok ?e1" by (rule receive_index_ok [OF recv_ok_new]) (simp_all add: ep_new_def)
  then have "recv_ok ?e2" by (rule receive_index_ok) (simp_all add: ep_new_def)
  then have "recv_ok ?e3" by (rule receive_index_ok) (simp_all add: ep_new_def)
  moreover have "ep_newest ?e3 = 65536" by (simp add: ep_new_def)
  ultimately obtain e where e: "recv_ok e" "ep_newest e = 65536" by blast
  have "65535 \<in> ep_received e \<and> \<not> bit (am_ack_bitfield (am_receive_index 30 (ep_manager e))) 30"
    using received_packet_unacked_at_wrap [of e 1] e by simp
  with e(2) show ?thesis by blast
qed

end
