(* ===== verification/Server_Authority.thy ===== *)
theory Server_Authority
  imports Entity_Message
begin

text \<open>
  Authority over entities on the server: \<^verbatim>\<open>shared/src/world/delegation/auth_channel.rs\<close> and
  \<^verbatim>\<open>host_auth_handler.rs\<close>, \<^verbatim>\<open>server/src/world/server_auth_handler.rs\<close> and the entity records and
  authority operations of \<^verbatim>\<open>server/src/world/global_world_manager.rs\<close>. A shared cell between mutator
  and accessor is the cell's content; the handlers that track component diffs are not modelled.
\<close>

type_synonym user_key = u64

section \<open>The status cells\<close>

record entity_auth_data =
  ead_host_type :: host_type
  ead_status :: entity_auth_status

definition ead_new :: "host_type \<Rightarrow> entity_auth_data" where
  "ead_new host_type =
     \<lparr> ead_host_type = host_type, ead_status = (case host_type of Server \<Rightarrow> Available | Client \<Rightarrow> Requested) \<rparr>"

definition ead_auth_status :: "entity_auth_data \<Rightarrow> host_entity_auth_status" where
  "ead_auth_status d = \<lparr> heas_host_type = ead_host_type d, heas_auth_status = ead_status d \<rparr>"

definition ead_set_auth_status :: "entity_auth_status \<Rightarrow> entity_auth_data \<Rightarrow> entity_auth_data" where
  "ead_set_auth_status auth_status d = d \<lparr> ead_status := auth_status \<rparr>"

type_synonym host_auth_handler = "global_entity \<rightharpoonup> entity_auth_data"

definition hah_new :: host_auth_handler where
  "hah_new = Map.empty"

definition hah_register_entity :: "host_type \<Rightarrow> global_entity \<Rightarrow> host_auth_handler \<Rightarrow> host_auth_handler res" where
  "hah_register_entity host_type entity h =
     (if h entity \<noteq> None then Inl (Panic ''Entity cannot register with Server more than once!'')
      else Inr (h(entity \<mapsto> ead_new host_type)))"

definition hah_deregister_entity :: "global_entity \<Rightarrow> host_auth_handler \<Rightarrow> host_auth_handler" where
  "hah_deregister_entity entity h = h(entity := None)"

definition hah_get_accessor :: "global_entity \<Rightarrow> host_auth_handler \<Rightarrow> entity_auth_data res" where
  "hah_get_accessor entity h =
     (case h entity of
        None \<Rightarrow> Inl (Panic ''Entity must be registered with Server before it can receive messages!'')
      | Some d \<Rightarrow> Inr d)"

definition hah_auth_status :: "global_entity \<Rightarrow> host_auth_handler \<Rightarrow> host_entity_auth_status option" where
  "hah_auth_status entity h = map_option ead_auth_status (h entity)"

definition hah_set_auth_status :: "global_entity \<Rightarrow> entity_auth_status \<Rightarrow> host_auth_handler \<Rightarrow> host_auth_handler res" where
  "hah_set_auth_status entity auth_status h =
     (case h entity of
        None \<Rightarrow> Inl (Panic ''Entity must be registered with Server before it can be mutated!'')
      | Some d \<Rightarrow> Inr (h(entity \<mapsto> ead_set_auth_status auth_status d)))"

section \<open>The authority handler\<close>

datatype auth_owner = AO_None | AO_Server | AO_Client user_key

datatype authority_error = NotDelegated | NotAvailable | NotHolder | NotInScope | ResourceNotPresent

definition from_user_key :: "user_key option \<Rightarrow> auth_owner" where
  "from_user_key user_key = (case user_key of Some user_key \<Rightarrow> AO_Client user_key | None \<Rightarrow> AO_Server)"

record server_auth_handler =
  sah_host_auth_handler :: host_auth_handler
  sah_entity_auth_map :: "global_entity \<rightharpoonup> auth_owner"
  sah_user_to_entity_map :: "user_key \<rightharpoonup> global_entity set"

definition sah_new :: server_auth_handler where
  "sah_new = \<lparr> sah_host_auth_handler = hah_new, sah_entity_auth_map = Map.empty, sah_user_to_entity_map = Map.empty \<rparr>"

definition sah_register_entity :: "global_entity \<Rightarrow> server_auth_handler \<Rightarrow> server_auth_handler res" where
  "sah_register_entity entity s =
     rbind (hah_register_entity Server entity (sah_host_auth_handler s)) (\<lambda>h.
       Inr (s \<lparr> sah_host_auth_handler := h, sah_entity_auth_map := (sah_entity_auth_map s)(entity \<mapsto> AO_None) \<rparr>))"

definition sah_deregister_entity :: "global_entity \<Rightarrow> server_auth_handler \<Rightarrow> server_auth_handler" where
  "sah_deregister_entity entity s =
     s \<lparr> sah_host_auth_handler := hah_deregister_entity entity (sah_host_auth_handler s),
         sah_entity_auth_map := (sah_entity_auth_map s)(entity := None) \<rparr>"

definition sah_authority_status :: "global_entity \<Rightarrow> server_auth_handler \<Rightarrow> entity_auth_status option" where
  "sah_authority_status entity s = map_option heas_auth_status (hah_auth_status entity (sah_host_auth_handler s))"

definition sah_entity_has_holder :: "global_entity \<Rightarrow> server_auth_handler \<Rightarrow> bool" where
  "sah_entity_has_holder entity s =
     (case sah_entity_auth_map s entity of
        None \<Rightarrow> False | Some AO_None \<Rightarrow> False | Some AO_Server \<Rightarrow> True | Some (AO_Client _) \<Rightarrow> True)"

definition sah_set_status :: "global_entity \<Rightarrow> entity_auth_status \<Rightarrow> server_auth_handler \<Rightarrow> server_auth_handler res" where
  "sah_set_status entity auth_status s =
     rbind (hah_set_auth_status entity auth_status (sah_host_auth_handler s)) (\<lambda>h. Inr (s \<lparr> sah_host_auth_handler := h \<rparr>))"

definition sah_set_owner :: "global_entity \<Rightarrow> auth_owner \<Rightarrow> server_auth_handler \<Rightarrow> server_auth_handler" where
  "sah_set_owner entity owner s = s \<lparr> sah_entity_auth_map := (sah_entity_auth_map s)(entity \<mapsto> owner) \<rparr>"

definition sah_add_user_entity :: "user_key \<Rightarrow> global_entity \<Rightarrow> server_auth_handler \<Rightarrow> server_auth_handler" where
  "sah_add_user_entity user_key entity s =
     s \<lparr> sah_user_to_entity_map := (sah_user_to_entity_map s)(user_key \<mapsto>
           insert entity (case sah_user_to_entity_map s user_key of None \<Rightarrow> {} | Some entities \<Rightarrow> entities)) \<rparr>"

definition sah_client_request_authority ::
    "global_entity \<Rightarrow> auth_owner \<Rightarrow> server_auth_handler \<Rightarrow> ((authority_error + unit) \<times> server_auth_handler) res" where
  "sah_client_request_authority entity requester s =
     (case sah_entity_auth_map s entity of
        None \<Rightarrow> Inr (Inl NotDelegated, s)
      | Some owner \<Rightarrow>
          if owner = AO_None then
            rbind (case requester of
                     AO_Server \<Rightarrow> sah_set_status entity Granted (sah_set_owner entity AO_Server s)
                   | AO_Client user_key \<Rightarrow>
                       sah_set_status entity Denied
                         (sah_add_user_entity user_key entity (sah_set_owner entity (AO_Client user_key) s))
                   | AO_None \<Rightarrow> Inr s)
              (\<lambda>s. Inr (Inr (), s))
          else Inr (Inl NotAvailable, s))"

text \<open>The user's whole set is removed, not only the entity.\<close>

definition sah_release_all_authority :: "global_entity \<Rightarrow> auth_owner \<Rightarrow> server_auth_handler \<Rightarrow> (bool \<times> server_auth_handler) res" where
  "sah_release_all_authority entity owner s =
     (if owner = AO_None then Inr (False, s)
      else
        rbind (sah_set_status entity Available
                (case owner of
                   AO_Client user_key \<Rightarrow>
                     (case sah_user_to_entity_map s user_key of
                        None \<Rightarrow> s
                      | Some entities \<Rightarrow> s \<lparr> sah_user_to_entity_map := (sah_user_to_entity_map s)(user_key := None) \<rparr>)
                 | _ \<Rightarrow> s))
          (\<lambda>s. Inr (True, s)))"

definition sah_client_release_authority ::
    "global_entity \<Rightarrow> auth_owner \<Rightarrow> server_auth_handler \<Rightarrow> ((authority_error + unit) \<times> server_auth_handler) res" where
  "sah_client_release_authority entity releaser s =
     (case sah_entity_auth_map s entity of
        None \<Rightarrow> Inr (Inl NotDelegated, s)
      | Some owner \<Rightarrow>
          (let server_initiated = (releaser = AO_Server) in
           if owner = releaser \<or> server_initiated then
             rbind (sah_release_all_authority entity owner (sah_set_owner entity AO_None s)) (\<lambda>(_, s). Inr (Inr (), s))
           else Inr (Inl NotHolder, s)))"

definition sah_server_give_authority_to_client ::
    "global_entity \<Rightarrow> user_key \<Rightarrow> server_auth_handler \<Rightarrow> ((authority_error + auth_owner) \<times> server_auth_handler) res" where
  "sah_server_give_authority_to_client entity target_user s =
     (case sah_entity_auth_map s entity of
        None \<Rightarrow> Inr (Inl NotDelegated, s)
      | Some previous_owner \<Rightarrow>
          if previous_owner = AO_Client target_user then Inr (Inr previous_owner, s)
          else
            rbind (sah_release_all_authority entity previous_owner (sah_set_owner entity (AO_Client target_user) s)) (\<lambda>(_, s).
            rbind (sah_set_status entity Denied (sah_add_user_entity target_user entity s)) (\<lambda>s.
            Inr (Inr previous_owner, s))))"

definition sah_server_take_authority ::
    "global_entity \<Rightarrow> server_auth_handler \<Rightarrow> ((authority_error + auth_owner) \<times> server_auth_handler) res" where
  "sah_server_take_authority entity s =
     (case sah_entity_auth_map s entity of
        None \<Rightarrow> Inr (Inl NotDelegated, s)
      | Some previous_owner \<Rightarrow>
          if previous_owner = AO_Server then Inr (Inr previous_owner, s)
          else
            rbind (sah_release_all_authority entity previous_owner (sah_set_owner entity AO_Server s)) (\<lambda>(_, s).
            rbind (sah_set_status entity Granted s) (\<lambda>s.
            Inr (Inr previous_owner, s))))"

definition sah_user_all_owned_entities :: "user_key \<Rightarrow> server_auth_handler \<Rightarrow> global_entity set option" where
  "sah_user_all_owned_entities user_key s = sah_user_to_entity_map s user_key"

definition sah_user_is_authority_holder :: "user_key \<Rightarrow> global_entity \<Rightarrow> server_auth_handler \<Rightarrow> bool" where
  "sah_user_is_authority_holder user_key entity s =
     (case sah_entity_auth_map s entity of None \<Rightarrow> False | Some owner \<Rightarrow> owner = AO_Client user_key)"

section \<open>Entity records\<close>

datatype publicity = PUB_Private | PUB_Public | PUB_Delegated

datatype scope_exit = SE_Despawn | SE_Persist

record replication_config =
  rc_publicity :: publicity
  rc_scope_exit :: scope_exit

definition rc_public :: replication_config where
  "rc_public = \<lparr> rc_publicity = PUB_Public, rc_scope_exit = SE_Despawn \<rparr>"

definition rc_private :: replication_config where
  "rc_private = \<lparr> rc_publicity = PUB_Private, rc_scope_exit = SE_Despawn \<rparr>"

datatype entity_owner = EO_Server | EO_Client user_key | EO_ClientWaiting user_key | EO_ClientPublic user_key | EO_Local

definition eo_is_client :: "entity_owner \<Rightarrow> bool" where
  "eo_is_client owner = (case owner of EO_Client _ \<Rightarrow> True | EO_ClientPublic _ \<Rightarrow> True | EO_ClientWaiting _ \<Rightarrow> True | _ \<Rightarrow> False)"

definition eo_is_public :: "entity_owner \<Rightarrow> bool" where
  "eo_is_public owner = (case owner of EO_ClientPublic _ \<Rightarrow> True | EO_Server \<Rightarrow> True | _ \<Rightarrow> False)"

record global_entity_record =
  ger_component_kinds :: "component_kind set"
  ger_owner :: entity_owner
  ger_replication_config :: replication_config
  ger_is_replicating :: bool
  ger_is_static :: bool

definition ger_new :: "entity_owner \<Rightarrow> global_entity_record res" where
  "ger_new owner =
     rbind (case owner of
              EO_Server \<Rightarrow> Inr rc_public
            | EO_Client _ \<Rightarrow> Inr rc_private
            | EO_ClientWaiting _ \<Rightarrow> Inr rc_private
            | EO_ClientPublic _ \<Rightarrow> Inl (Panic ''Should not be able to insert a ClientPublic record this way'')
            | EO_Local \<Rightarrow> Inl (Panic ''Should not be able to insert Local entity in this record''))
       (\<lambda>replication_config. Inr \<lparr> ger_component_kinds = {}, ger_owner = owner,
          ger_replication_config = replication_config, ger_is_replicating = True, ger_is_static = False \<rparr>)"

definition ger_new_static :: "entity_owner \<Rightarrow> global_entity_record res" where
  "ger_new_static owner = rbind (ger_new owner) (\<lambda>record. Inr (record \<lparr> ger_is_static := True \<rparr>))"

section \<open>The global world manager\<close>

record global_world_manager =
  gwm_auth_handler :: server_auth_handler
  gwm_entity_records :: "global_entity \<rightharpoonup> global_entity_record"

definition gwm_new :: global_world_manager where
  "gwm_new = \<lparr> gwm_auth_handler = sah_new, gwm_entity_records = Map.empty \<rparr>"

definition gwm_has_entity :: "global_entity \<Rightarrow> global_world_manager \<Rightarrow> bool" where
  "gwm_has_entity e g = (gwm_entity_records g e \<noteq> None)"

definition gwm_entity_owner :: "global_entity \<Rightarrow> global_world_manager \<Rightarrow> entity_owner option" where
  "gwm_entity_owner e g = map_option ger_owner (gwm_entity_records g e)"

definition gwm_put :: "global_entity \<Rightarrow> global_entity_record \<Rightarrow> global_world_manager \<Rightarrow> global_world_manager" where
  "gwm_put e record g = g \<lparr> gwm_entity_records := (gwm_entity_records g)(e \<mapsto> record) \<rparr>"

definition gwm_get :: "global_entity \<Rightarrow> global_world_manager \<Rightarrow> global_entity_record res" where
  "gwm_get e g =
     (case gwm_entity_records g e of None \<Rightarrow> Inl (Panic ''entity record does not exist!'') | Some record \<Rightarrow> Inr record)"

definition gwm_insert_entity_record :: "global_entity \<Rightarrow> entity_owner \<Rightarrow> global_world_manager \<Rightarrow> global_world_manager res" where
  "gwm_insert_entity_record e owner g =
     (if gwm_has_entity e g then Inl (Panic ''entity already initialized!'')
      else rbind (ger_new owner) (\<lambda>record. Inr (gwm_put e record g)))"

definition gwm_insert_static_entity_record :: "global_entity \<Rightarrow> entity_owner \<Rightarrow> global_world_manager \<Rightarrow> global_world_manager res" where
  "gwm_insert_static_entity_record e owner g =
     (if gwm_has_entity e g then Inl (Panic ''entity already initialized!'')
      else rbind (ger_new_static owner) (\<lambda>record. Inr (gwm_put e record g)))"

definition gwm_mark_entity_as_static :: "global_entity \<Rightarrow> global_world_manager \<Rightarrow> global_world_manager res" where
  "gwm_mark_entity_as_static e g = rbind (gwm_get e g) (\<lambda>record. Inr (gwm_put e (record \<lparr> ger_is_static := True \<rparr>) g))"

definition gwm_remove_entity_record :: "global_entity \<Rightarrow> global_world_manager \<Rightarrow> global_world_manager res" where
  "gwm_remove_entity_record e g =
     (if gwm_has_entity e g then Inr (g \<lparr> gwm_entity_records := (gwm_entity_records g)(e := None) \<rparr>)
      else Inl (Panic ''Cannot despawn non-existant entity!''))"

definition gwm_insert_component_record :: "global_entity \<Rightarrow> component_kind \<Rightarrow> global_world_manager \<Rightarrow> global_world_manager res" where
  "gwm_insert_component_record e component_kind g =
     (case gwm_entity_records g e of
        None \<Rightarrow> Inl (Panic ''entity does not exist!'')
      | Some record \<Rightarrow> Inr (gwm_put e (record \<lparr> ger_component_kinds := insert component_kind (ger_component_kinds record) \<rparr>) g))"

definition gwm_has_component_record :: "global_entity \<Rightarrow> component_kind \<Rightarrow> global_world_manager \<Rightarrow> bool" where
  "gwm_has_component_record e component_kind g =
     (case gwm_entity_records g e of None \<Rightarrow> False | Some record \<Rightarrow> component_kind \<in> ger_component_kinds record)"

definition gwm_remove_component_record :: "global_entity \<Rightarrow> component_kind \<Rightarrow> global_world_manager \<Rightarrow> global_world_manager res" where
  "gwm_remove_component_record e component_kind g =
     (case gwm_entity_records g e of
        None \<Rightarrow> Inl (Panic ''entity does not exist!'')
      | Some record \<Rightarrow>
          if component_kind \<in> ger_component_kinds record
          then Inr (gwm_put e (record \<lparr> ger_component_kinds := ger_component_kinds record - {component_kind} \<rparr>) g)
          else Inl (Panic ''component does not exist!''))"

abbreviation set_publicity :: "publicity \<Rightarrow> global_entity_record \<Rightarrow> global_entity_record" where
  "set_publicity p record \<equiv>
     record \<lparr> ger_replication_config := (ger_replication_config record) \<lparr> rc_publicity := p \<rparr> \<rparr>"

definition gwm_entity_publish :: "global_entity \<Rightarrow> global_world_manager \<Rightarrow> (bool \<times> global_world_manager) res" where
  "gwm_entity_publish e g =
     rbind (gwm_get e g) (\<lambda>record.
       case ger_owner record of
         EO_Local \<Rightarrow> Inl (Panic ''Can only publish an Entity that is owned by a Client!'')
       | EO_Server \<Rightarrow> Inr (False, g)
       | EO_ClientWaiting _ \<Rightarrow>
           Inl (Panic ''Attempting to publish an Entity that is waiting for a Client to take ownership'')
       | EO_Client user_key \<Rightarrow>
           Inr (True, gwm_put e (set_publicity PUB_Public (record \<lparr> ger_owner := EO_ClientPublic user_key \<rparr>)) g)
       | EO_ClientPublic user_key \<Rightarrow>
           Inr (True, gwm_put e (set_publicity PUB_Public (record \<lparr> ger_owner := EO_ClientPublic user_key \<rparr>)) g))"

definition gwm_entity_unpublish :: "global_entity \<Rightarrow> global_world_manager \<Rightarrow> global_world_manager res" where
  "gwm_entity_unpublish e g =
     rbind (gwm_get e g) (\<lambda>record.
       case ger_owner record of
         EO_ClientPublic user_key \<Rightarrow>
           Inr (gwm_put e (set_publicity PUB_Private (record \<lparr> ger_owner := EO_Client user_key \<rparr>)) g)
       | _ \<Rightarrow> Inl (Panic ''Can only unpublish an Entity that is Client-owned and Public!''))"

definition gwm_entity_is_public_and_client_owned :: "global_entity \<Rightarrow> global_world_manager \<Rightarrow> bool" where
  "gwm_entity_is_public_and_client_owned e g =
     (case gwm_entity_records g e of
        None \<Rightarrow> False | Some record \<Rightarrow> (case ger_owner record of EO_ClientPublic _ \<Rightarrow> True | _ \<Rightarrow> False))"

definition gwm_entity_is_public_and_owned_by_user :: "user_key \<Rightarrow> global_entity \<Rightarrow> global_world_manager \<Rightarrow> bool" where
  "gwm_entity_is_public_and_owned_by_user user_key e g =
     (case gwm_entity_records g e of
        None \<Rightarrow> False
      | Some record \<Rightarrow> (case ger_owner record of EO_ClientPublic owning_user_key \<Rightarrow> owning_user_key = user_key | _ \<Rightarrow> False))"

definition gwm_entity_set_scope_exit :: "global_entity \<Rightarrow> scope_exit \<Rightarrow> global_world_manager \<Rightarrow> global_world_manager" where
  "gwm_entity_set_scope_exit e scope_exit g =
     (case gwm_entity_records g e of
        None \<Rightarrow> g
      | Some record \<Rightarrow>
          gwm_put e (record \<lparr> ger_replication_config := (ger_replication_config record) \<lparr> rc_scope_exit := scope_exit \<rparr> \<rparr>) g)"

definition gwm_entity_is_delegated :: "global_entity \<Rightarrow> global_world_manager \<Rightarrow> bool" where
  "gwm_entity_is_delegated e g =
     (case gwm_entity_records g e of
        None \<Rightarrow> False | Some record \<Rightarrow> rc_publicity (ger_replication_config record) = PUB_Delegated)"

definition gwm_entity_enable_delegation :: "global_entity \<Rightarrow> global_world_manager \<Rightarrow> global_world_manager res" where
  "gwm_entity_enable_delegation e g =
     rbind (gwm_get e g) (\<lambda>record.
       if rc_publicity (ger_replication_config record) \<noteq> PUB_Public
       then Inl (Panic ''Can only enable delegation on an Entity that is Public!'')
       else
         (let g = gwm_put e (set_publicity PUB_Delegated record) g in
          rbind (sah_register_entity e (gwm_auth_handler g)) (\<lambda>s. Inr (g \<lparr> gwm_auth_handler := s \<rparr>))))"

definition gwm_migrate_entity_to_server :: "global_entity \<Rightarrow> global_world_manager \<Rightarrow> global_world_manager res" where
  "gwm_migrate_entity_to_server e g =
     rbind (gwm_get e g) (\<lambda>record.
       if eo_is_client (ger_owner record) then Inr (gwm_put e (record \<lparr> ger_owner := EO_Server \<rparr>) g)
       else Inl (Panic ''Can only migrate an Entity that is owned by a Client!''))"

definition gwm_entity_disable_delegation :: "global_entity \<Rightarrow> global_world_manager \<Rightarrow> global_world_manager res" where
  "gwm_entity_disable_delegation e g =
     rbind (gwm_get e g) (\<lambda>record.
       if rc_publicity (ger_replication_config record) \<noteq> PUB_Delegated
       then Inl (Panic ''Can only disable delegation on an Entity that is Delegated!'')
       else
         (let g = gwm_put e (set_publicity PUB_Public record) g
          in Inr (g \<lparr> gwm_auth_handler := sah_deregister_entity e (gwm_auth_handler g) \<rparr>)))"

definition gwm_entity_authority_status :: "global_entity \<Rightarrow> global_world_manager \<Rightarrow> entity_auth_status option" where
  "gwm_entity_authority_status e g = sah_authority_status e (gwm_auth_handler g)"

text \<open>The four authority operations share their guard.\<close>

definition gwm_guarded ::
    "global_entity \<Rightarrow> (server_auth_handler \<Rightarrow> ((authority_error + 'a) \<times> server_auth_handler) res) \<Rightarrow>
     global_world_manager \<Rightarrow> ((authority_error + 'a) \<times> global_world_manager) res" where
  "gwm_guarded e f g =
     (if \<not> gwm_entity_is_delegated e g then Inr (Inl NotDelegated, g)
      else rbind (f (gwm_auth_handler g)) (\<lambda>(r, s). Inr (r, g \<lparr> gwm_auth_handler := s \<rparr>)))"

definition gwm_server_take_authority where
  "gwm_server_take_authority e = gwm_guarded e (sah_server_take_authority e)"

definition gwm_client_request_authority where
  "gwm_client_request_authority e requester = gwm_guarded e (sah_client_request_authority e requester)"

definition gwm_server_give_authority_to_client where
  "gwm_server_give_authority_to_client e target_user = gwm_guarded e (sah_server_give_authority_to_client e target_user)"

definition gwm_client_release_authority where
  "gwm_client_release_authority e releaser = gwm_guarded e (sah_client_release_authority e releaser)"

definition gwm_user_all_owned_entities :: "user_key \<Rightarrow> global_world_manager \<Rightarrow> global_entity set option" where
  "gwm_user_all_owned_entities user_key g = sah_user_all_owned_entities user_key (gwm_auth_handler g)"

definition gwm_user_is_authority_holder :: "user_key \<Rightarrow> global_entity \<Rightarrow> global_world_manager \<Rightarrow> bool" where
  "gwm_user_is_authority_holder user_key e g = sah_user_is_authority_holder user_key e (gwm_auth_handler g)"

definition gwm_entity_has_holder :: "global_entity \<Rightarrow> global_world_manager \<Rightarrow> bool" where
  "gwm_entity_has_holder e g = sah_entity_has_holder e (gwm_auth_handler g)"

definition gwm_set_replicating :: "bool \<Rightarrow> global_entity \<Rightarrow> global_world_manager \<Rightarrow> global_world_manager" where
  "gwm_set_replicating b e g =
     (case gwm_entity_records g e of None \<Rightarrow> g | Some record \<Rightarrow> gwm_put e (record \<lparr> ger_is_replicating := b \<rparr>) g)"

definition gwm_pause_entity_replication :: "global_entity \<Rightarrow> global_world_manager \<Rightarrow> global_world_manager" where
  "gwm_pause_entity_replication e g = gwm_set_replicating False e g"

definition gwm_resume_entity_replication :: "global_entity \<Rightarrow> global_world_manager \<Rightarrow> global_world_manager" where
  "gwm_resume_entity_replication e g = gwm_set_replicating True e g"

definition gwm_entity_can_relate_to_user :: "global_entity \<Rightarrow> user_key \<Rightarrow> global_world_manager \<Rightarrow> bool" where
  "gwm_entity_can_relate_to_user e user_key g =
     (case gwm_entity_records g e of
        None \<Rightarrow> False
      | Some record \<Rightarrow>
          (case ger_owner record of
             EO_Server \<Rightarrow> True
           | EO_ClientPublic _ \<Rightarrow> True
           | EO_Client owning_user_key \<Rightarrow> owning_user_key = user_key
           | EO_ClientWaiting owning_user_key \<Rightarrow> owning_user_key = user_key
           | EO_Local \<Rightarrow> False))"

section \<open>The specification of the authority handler\<close>

text \<open>What the operations do to the holders, the entities open for delegation mapped to theirs.\<close>

type_synonym holders = "global_entity \<rightharpoonup> auth_owner"

fun spec_request :: "global_entity \<Rightarrow> auth_owner \<Rightarrow> holders \<Rightarrow> (authority_error + unit) \<times> holders" where
  "spec_request e requester m =
     (case m e of
        None \<Rightarrow> (Inl NotDelegated, m)
      | Some holder \<Rightarrow> if holder = AO_None then (Inr (), m(e \<mapsto> requester)) else (Inl NotAvailable, m))"

fun spec_release :: "global_entity \<Rightarrow> auth_owner \<Rightarrow> holders \<Rightarrow> (authority_error + unit) \<times> holders" where
  "spec_release e releaser m =
     (case m e of
        None \<Rightarrow> (Inl NotDelegated, m)
      | Some holder \<Rightarrow>
          if holder = releaser \<or> releaser = AO_Server then (Inr (), m(e \<mapsto> AO_None)) else (Inl NotHolder, m))"

fun spec_assign :: "global_entity \<Rightarrow> auth_owner \<Rightarrow> holders \<Rightarrow> (authority_error + auth_owner) \<times> holders" where
  "spec_assign e target m =
     (case m e of None \<Rightarrow> (Inl NotDelegated, m) | Some holder \<Rightarrow> (Inr holder, m(e \<mapsto> target)))"

text \<open>The server's own status on an entity, by its holder.\<close>

fun status_of :: "auth_owner \<Rightarrow> entity_auth_status" where
  "status_of AO_None = Available"
| "status_of AO_Server = Granted"
| "status_of (AO_Client _) = Denied"

locale authority_registry =
  fixes inv :: "'s \<Rightarrow> bool"
    and holders :: "'s \<Rightarrow> holders"
    and status :: "global_entity \<Rightarrow> 's \<Rightarrow> entity_auth_status option"
    and register :: "global_entity \<Rightarrow> 's \<Rightarrow> 's res"
    and deregister :: "global_entity \<Rightarrow> 's \<Rightarrow> 's"
    and request release :: "global_entity \<Rightarrow> auth_owner \<Rightarrow> 's \<Rightarrow> ((authority_error + unit) \<times> 's) res"
    and give :: "global_entity \<Rightarrow> user_key \<Rightarrow> 's \<Rightarrow> ((authority_error + auth_owner) \<times> 's) res"
    and take :: "global_entity \<Rightarrow> 's \<Rightarrow> ((authority_error + auth_owner) \<times> 's) res"
  assumes status_law: "inv s \<Longrightarrow> status e s = map_option status_of (holders s e)"
    and register_law: "inv s \<Longrightarrow> holders s e = None \<Longrightarrow> \<exists>s'. register e s = Inr s' \<and> inv s' \<and> holders s' = (holders s)(e \<mapsto> AO_None)"
    and register_twice_law: "inv s \<Longrightarrow> holders s e \<noteq> None \<Longrightarrow> \<exists>msg. register e s = Inl (Panic msg)"
    and deregister_law: "inv s \<Longrightarrow> inv (deregister e s) \<and> holders (deregister e s) = (holders s)(e := None)"
    and request_law: "inv s \<Longrightarrow> \<exists>r s'. request e w s = Inr (r, s') \<and> inv s' \<and> (r, holders s') = spec_request e w (holders s)"
    and release_law: "inv s \<Longrightarrow> \<exists>r s'. release e w s = Inr (r, s') \<and> inv s' \<and> (r, holders s') = spec_release e w (holders s)"
    and give_law: "inv s \<Longrightarrow> \<exists>r s'. give e u s = Inr (r, s') \<and> inv s' \<and> (r, holders s') = spec_assign e (AO_Client u) (holders s)"
    and take_law: "inv s \<Longrightarrow> \<exists>r s'. take e s = Inr (r, s') \<and> inv s' \<and> (r, holders s') = spec_assign e AO_Server (holders s)"
begin

text \<open>A request is granted at most once until the holder gives the entity up or the server intervenes.\<close>

lemma held_request_refused:
  assumes "inv s" "holders s e = Some h" "h \<noteq> AO_None"
  shows "\<exists>s'. request e w s = Inr (Inl NotAvailable, s') \<and> inv s' \<and> holders s' = holders s"
  using request_law [OF assms(1), of e w] assms(2,3) by auto

lemma request_then_refused:
  assumes "inv s" "holders s e = Some AO_None" "w \<noteq> AO_None"
  shows "\<exists>s' s''. request e w s = Inr (Inr (), s') \<and> request e v s' = Inr (Inl NotAvailable, s'') \<and>
    status e s'' = Some (status_of w)"
proof -
  obtain s' where s': "request e w s = Inr (Inr (), s')" "inv s'" "holders s' = (holders s)(e \<mapsto> w)"
    using request_law [OF assms(1), of e w] assms(2) by auto
  obtain s'' where "request e v s' = Inr (Inl NotAvailable, s'')" "inv s''" "holders s'' = holders s'"
    using held_request_refused [OF s'(2), of e w v] s'(3) assms(3) by auto
  with s' status_law [of s'' e] show ?thesis by auto
qed

end

definition sah_inv :: "server_auth_handler \<Rightarrow> bool" where
  "sah_inv s \<longleftrightarrow> (\<forall>e. sah_host_auth_handler s e =
     map_option (\<lambda>w. \<lparr> ead_host_type = Server, ead_status = status_of w \<rparr>) (sah_entity_auth_map s e))"

lemma sah_inv_new: "sah_inv sah_new"
  by (simp add: sah_inv_def sah_new_def hah_new_def)

text \<open>While an operation is under way the status of its entity may lag behind the holder.\<close>

definition sah_near :: "global_entity \<Rightarrow> server_auth_handler \<Rightarrow> bool" where
  "sah_near e s \<longleftrightarrow> (\<exists>w st. sah_entity_auth_map s e = Some w \<and>
      sah_host_auth_handler s e = Some \<lparr> ead_host_type = Server, ead_status = st \<rparr>) \<and>
     (\<forall>e'. e' \<noteq> e \<longrightarrow> sah_host_auth_handler s e' =
        map_option (\<lambda>w. \<lparr> ead_host_type = Server, ead_status = status_of w \<rparr>) (sah_entity_auth_map s e'))"

lemma near_set_owner:
  "sah_inv s \<Longrightarrow> sah_entity_auth_map s e = Some w \<Longrightarrow> sah_near e (sah_set_owner e v s)"
  by (simp add: sah_inv_def sah_near_def sah_set_owner_def)

lemma near_add_user: "sah_near e (sah_add_user_entity u e' s) = sah_near e s"
  by (simp add: sah_near_def sah_add_user_entity_def)

lemma near_set_status:
  assumes "sah_near e s"
  shows "\<exists>s'. sah_set_status e st s = Inr s' \<and> sah_near e s' \<and> sah_entity_auth_map s' = sah_entity_auth_map s \<and>
    (\<forall>w. sah_entity_auth_map s e = Some w \<longrightarrow> st = status_of w \<longrightarrow> sah_inv s')"
  using assms
  by (auto simp: sah_near_def sah_set_status_def hah_set_auth_status_def ead_set_auth_status_def sah_inv_def)

lemma near_release_all:
  assumes "sah_near e s"
  shows "\<exists>b s'. sah_release_all_authority e w s = Inr (b, s') \<and> sah_near e s' \<and> sah_entity_auth_map s' = sah_entity_auth_map s \<and>
    (w \<noteq> AO_None \<longrightarrow> sah_entity_auth_map s e = Some AO_None \<longrightarrow> sah_inv s')"
proof (cases "w = AO_None")
  case False
  let ?s = "case w of AO_Client user_key \<Rightarrow>
      (case sah_user_to_entity_map s user_key of
         None \<Rightarrow> s
       | Some entities \<Rightarrow> s \<lparr> sah_user_to_entity_map := (sah_user_to_entity_map s)(user_key := None) \<rparr>) | _ \<Rightarrow> s"
  have "sah_near e ?s" "sah_entity_auth_map ?s = sah_entity_auth_map s"
    using assms by (auto simp: sah_near_def split: auth_owner.splits option.splits)
  with near_set_status [of e ?s Available] False show ?thesis
    by (auto simp: sah_release_all_authority_def)
qed (use assms in \<open>auto simp: sah_release_all_authority_def\<close>)

lemma set_owner_map [simp]:
  "sah_entity_auth_map (sah_set_owner e w s) = (sah_entity_auth_map s)(e \<mapsto> w)"
  "sah_entity_auth_map (sah_add_user_entity u e' s) = sah_entity_auth_map s"
  by (simp_all add: sah_set_owner_def sah_add_user_entity_def)

lemma sah_request_refines:
  assumes "sah_inv s"
  shows "\<exists>r s'. sah_client_request_authority e w s = Inr (r, s') \<and> sah_inv s' \<and>
    (r, sah_entity_auth_map s') = spec_request e w (sah_entity_auth_map s)"
proof (cases "sah_entity_auth_map s e = Some AO_None")
  case True
  show ?thesis
  proof (cases w)
    case AO_None
    with True assms show ?thesis by (auto simp: sah_client_request_authority_def)
  next
    case AO_Server
    with near_set_status [OF near_set_owner [OF assms True, of AO_Server], of Granted] True show ?thesis
      by (auto simp: sah_client_request_authority_def)
  next
    case (AO_Client u)
    have "sah_near e (sah_add_user_entity u e (sah_set_owner e w s))"
      by (simp add: near_add_user near_set_owner [OF assms True])
    from near_set_status [OF this, of Denied] AO_Client True show ?thesis
      by (auto simp: sah_client_request_authority_def)
  qed
qed (use assms in \<open>auto simp: sah_client_request_authority_def split: option.splits\<close>)

lemma sah_release_refines:
  assumes "sah_inv s"
  shows "\<exists>r s'. sah_client_release_authority e w s = Inr (r, s') \<and> sah_inv s' \<and>
    (r, sah_entity_auth_map s') = spec_release e w (sah_entity_auth_map s)"
proof (cases "sah_entity_auth_map s e")
  case (Some v)
  have n: "sah_near e (sah_set_owner e AO_None s)" by (rule near_set_owner [OF assms Some])
  have "\<exists>b s'. sah_release_all_authority e v (sah_set_owner e AO_None s) = Inr (b, s') \<and> sah_inv s' \<and>
      sah_entity_auth_map s' = (sah_entity_auth_map s)(e \<mapsto> AO_None)"
  proof (cases "v = AO_None")
    case True
    with assms Some show ?thesis by (auto simp: sah_release_all_authority_def sah_inv_def sah_set_owner_def)
  qed (use near_release_all [OF n, of v] in auto)
  with assms Some show ?thesis by (auto simp: sah_client_release_authority_def Let_def)
qed (use assms in \<open>simp add: sah_client_release_authority_def\<close>)

text \<open>Giving and taking: release the previous holder, then set the status of the new one.\<close>

lemma sah_reassign:
  assumes "sah_inv s" "sah_entity_auth_map s e = Some v"
  shows "\<exists>b s1. sah_release_all_authority e v (sah_set_owner e w s) = Inr (b, s1) \<and> sah_near e s1 \<and>
    sah_entity_auth_map s1 = (sah_entity_auth_map s)(e \<mapsto> w)"
  using near_release_all [OF near_set_owner [OF assms], of v w] by auto

lemma sah_give_refines:
  assumes "sah_inv s"
  shows "\<exists>r s'. sah_server_give_authority_to_client e u s = Inr (r, s') \<and> sah_inv s' \<and>
    (r, sah_entity_auth_map s') = spec_assign e (AO_Client u) (sah_entity_auth_map s)"
proof (cases "sah_entity_auth_map s e")
  case (Some v)
  show ?thesis
  proof (cases "v = AO_Client u")
    case False
    obtain b s1 where 1: "sah_release_all_authority e v (sah_set_owner e (AO_Client u) s) = Inr (b, s1)" "sah_near e s1"
        "sah_entity_auth_map s1 = (sah_entity_auth_map s)(e \<mapsto> AO_Client u)"
      using sah_reassign [OF assms Some] by blast
    have "sah_near e (sah_add_user_entity u e s1)" using 1(2) by (simp add: near_add_user)
    from near_set_status [OF this, of Denied] 1 Some False show ?thesis
      by (auto simp: sah_server_give_authority_to_client_def)
  qed (use assms Some in \<open>auto simp: sah_server_give_authority_to_client_def\<close>)
qed (use assms in \<open>simp add: sah_server_give_authority_to_client_def\<close>)

lemma sah_take_refines:
  assumes "sah_inv s"
  shows "\<exists>r s'. sah_server_take_authority e s = Inr (r, s') \<and> sah_inv s' \<and>
    (r, sah_entity_auth_map s') = spec_assign e AO_Server (sah_entity_auth_map s)"
proof (cases "sah_entity_auth_map s e")
  case (Some v)
  show ?thesis
  proof (cases "v = AO_Server")
    case False
    obtain b s1 where 1: "sah_release_all_authority e v (sah_set_owner e AO_Server s) = Inr (b, s1)" "sah_near e s1"
        "sah_entity_auth_map s1 = (sah_entity_auth_map s)(e \<mapsto> AO_Server)"
      using sah_reassign [OF assms Some] by blast
    from near_set_status [OF 1(2), of Granted] 1 Some False show ?thesis
      by (auto simp: sah_server_take_authority_def)
  qed (use assms Some in \<open>auto simp: sah_server_take_authority_def\<close>)
qed (use assms in \<open>simp add: sah_server_take_authority_def\<close>)

interpretation sah: authority_registry sah_inv sah_entity_auth_map sah_authority_status sah_register_entity
  sah_deregister_entity sah_client_request_authority sah_client_release_authority
  sah_server_give_authority_to_client sah_server_take_authority
proof
  fix s e assume i: "sah_inv s"
  show "sah_authority_status e s = map_option status_of (sah_entity_auth_map s e)"
    using i by (cases "sah_entity_auth_map s e")
      (simp_all add: sah_authority_status_def hah_auth_status_def ead_auth_status_def sah_inv_def)
  show "\<exists>s'. sah_register_entity e s = Inr s' \<and> sah_inv s' \<and> sah_entity_auth_map s' = (sah_entity_auth_map s)(e \<mapsto> AO_None)"
    if "sah_entity_auth_map s e = None"
    using i that by (simp add: sah_register_entity_def hah_register_entity_def ead_new_def sah_inv_def)
  show "\<exists>msg. sah_register_entity e s = Inl (Panic msg)" if "sah_entity_auth_map s e \<noteq> None"
    using i that by (auto simp: sah_register_entity_def hah_register_entity_def sah_inv_def)
  show "sah_inv (sah_deregister_entity e s) \<and> sah_entity_auth_map (sah_deregister_entity e s) = (sah_entity_auth_map s)(e := None)"
    using i by (simp add: sah_deregister_entity_def hah_deregister_entity_def sah_inv_def)
qed (fact sah_request_refines sah_release_refines sah_give_refines sah_take_refines)+

section \<open>Runs of the global world manager\<close>

datatype gwm_op =
    Op_Insert global_entity entity_owner
  | Op_InsertStatic global_entity entity_owner
  | Op_MarkStatic global_entity
  | Op_Remove global_entity
  | Op_InsertComponent global_entity component_kind
  | Op_RemoveComponent global_entity component_kind
  | Op_Publish global_entity
  | Op_Unpublish global_entity
  | Op_ScopeExit global_entity scope_exit
  | Op_EnableDelegation global_entity
  | Op_DisableDelegation global_entity
  | Op_Migrate global_entity
  | Op_Request global_entity auth_owner
  | Op_Release global_entity auth_owner
  | Op_Give global_entity user_key
  | Op_Take global_entity
  | Op_Pause global_entity
  | Op_Resume global_entity

fun gwm_step :: "gwm_op \<Rightarrow> global_world_manager \<Rightarrow> global_world_manager res" where
  "gwm_step (Op_Insert e owner) g = gwm_insert_entity_record e owner g"
| "gwm_step (Op_InsertStatic e owner) g = gwm_insert_static_entity_record e owner g"
| "gwm_step (Op_MarkStatic e) g = gwm_mark_entity_as_static e g"
| "gwm_step (Op_Remove e) g = gwm_remove_entity_record e g"
| "gwm_step (Op_InsertComponent e k) g = gwm_insert_component_record e k g"
| "gwm_step (Op_RemoveComponent e k) g = gwm_remove_component_record e k g"
| "gwm_step (Op_Publish e) g = rbind (gwm_entity_publish e g) (\<lambda>(_, g). Inr g)"
| "gwm_step (Op_Unpublish e) g = gwm_entity_unpublish e g"
| "gwm_step (Op_ScopeExit e x) g = Inr (gwm_entity_set_scope_exit e x g)"
| "gwm_step (Op_EnableDelegation e) g = gwm_entity_enable_delegation e g"
| "gwm_step (Op_DisableDelegation e) g = gwm_entity_disable_delegation e g"
| "gwm_step (Op_Migrate e) g = gwm_migrate_entity_to_server e g"
| "gwm_step (Op_Request e w) g = rbind (gwm_client_request_authority e w g) (\<lambda>(_, g). Inr g)"
| "gwm_step (Op_Release e w) g = rbind (gwm_client_release_authority e w g) (\<lambda>(_, g). Inr g)"
| "gwm_step (Op_Give e u) g = rbind (gwm_server_give_authority_to_client e u g) (\<lambda>(_, g). Inr g)"
| "gwm_step (Op_Take e) g = rbind (gwm_server_take_authority e g) (\<lambda>(_, g). Inr g)"
| "gwm_step (Op_Pause e) g = Inr (gwm_pause_entity_replication e g)"
| "gwm_step (Op_Resume e) g = Inr (gwm_resume_entity_replication e g)"

definition gwm_run :: "gwm_op list \<Rightarrow> global_world_manager \<Rightarrow> global_world_manager res" where
  "gwm_run = rfold gwm_step"

abbreviation gwm_holders :: "global_world_manager \<Rightarrow> holders" where
  "gwm_holders g \<equiv> sah_entity_auth_map (gwm_auth_handler g)"

definition gwm_inv :: "global_world_manager \<Rightarrow> bool" where
  "gwm_inv g \<longleftrightarrow> sah_inv (gwm_auth_handler g) \<and> (\<forall>e. gwm_entity_is_delegated e g \<longrightarrow> gwm_holders g e \<noteq> None)"

lemma gwm_inv_new: "gwm_inv gwm_new"
  by (simp add: gwm_inv_def gwm_new_def sah_inv_new gwm_entity_is_delegated_def)

text \<open>The operations on the records alone: no entity becomes delegated.\<close>

definition records_only :: "global_world_manager \<Rightarrow> global_world_manager \<Rightarrow> bool" where
  "records_only g g' \<longleftrightarrow> gwm_auth_handler g' = gwm_auth_handler g \<and>
     (\<forall>e. gwm_entity_is_delegated e g' \<longrightarrow> gwm_entity_is_delegated e g)"

lemma records_only_inv: "records_only g g' \<Longrightarrow> gwm_inv g \<Longrightarrow> gwm_inv g'"
  by (simp add: records_only_def gwm_inv_def)

lemma records_only_put:
  "(rc_publicity (ger_replication_config r) = PUB_Delegated \<Longrightarrow> gwm_entity_is_delegated e g) \<Longrightarrow> records_only g (gwm_put e r g)"
  by (auto simp: records_only_def gwm_put_def gwm_entity_is_delegated_def)

lemma gwm_get_Inr: "gwm_get e g = Inr r \<Longrightarrow> gwm_entity_records g e = Some r"
  by (auto simp: gwm_get_def split: option.splits)

lemma ger_new_publicity: "ger_new owner = Inr r \<Longrightarrow> rc_publicity (ger_replication_config r) \<noteq> PUB_Delegated"
  by (auto simp: ger_new_def rbind_eq_Inr rc_public_def rc_private_def split: entity_owner.splits)

lemma records_only_keep:
  "gwm_entity_records g e = Some r \<Longrightarrow>
   rc_publicity (ger_replication_config r') = PUB_Delegated \<longrightarrow> rc_publicity (ger_replication_config r) = PUB_Delegated \<Longrightarrow>
   records_only g (gwm_put e r' g)"
  by (rule records_only_put) (simp add: gwm_entity_is_delegated_def)

lemma records_only_refl: "records_only g g"
  by (simp add: records_only_def)

lemma publish_records_only: "gwm_entity_publish e g = Inr (b, g') \<Longrightarrow> records_only g g'"
  unfolding gwm_entity_publish_def rbind_eq_Inr
proof (elim exE conjE)
  fix r assume r: "gwm_get e g = Inr r" and g': "(case ger_owner r of
       EO_Server \<Rightarrow> Inr (False, g)
     | EO_Client user_key \<Rightarrow> Inr (True, gwm_put e (set_publicity PUB_Public (r \<lparr> ger_owner := EO_ClientPublic user_key \<rparr>)) g)
     | EO_ClientWaiting _ \<Rightarrow> Inl (Panic ''Attempting to publish an Entity that is waiting for a Client to take ownership'')
     | EO_ClientPublic user_key \<Rightarrow> Inr (True, gwm_put e (set_publicity PUB_Public (r \<lparr> ger_owner := EO_ClientPublic user_key \<rparr>)) g)
     | EO_Local \<Rightarrow> Inl (Panic ''Can only publish an Entity that is owned by a Client!'')) = Inr (b, g')"
  show ?thesis using g' by (cases "ger_owner r") (auto intro: records_only_refl records_only_keep [OF gwm_get_Inr [OF r]])
qed

lemma unpublish_records_only:
  assumes "gwm_entity_unpublish e g = Inr g'"
  shows "records_only g g'"
proof -
  obtain r where r: "gwm_get e g = Inr r" using assms by (auto simp: gwm_entity_unpublish_def rbind_eq_Inr)
  with assms show ?thesis
    by (cases "ger_owner r") (auto simp: gwm_entity_unpublish_def intro: records_only_keep [OF gwm_get_Inr [OF r]])
qed

lemma other_records_only:
  "gwm_insert_entity_record e owner g = Inr g' \<Longrightarrow> records_only g g'"
  "gwm_insert_static_entity_record e owner g = Inr g' \<Longrightarrow> records_only g g'"
  "gwm_mark_entity_as_static e g = Inr g' \<Longrightarrow> records_only g g'"
  "gwm_remove_entity_record e g = Inr g' \<Longrightarrow> records_only g g'"
  "gwm_insert_component_record e k g = Inr g' \<Longrightarrow> records_only g g'"
  "gwm_remove_component_record e k g = Inr g' \<Longrightarrow> records_only g g'"
  "gwm_migrate_entity_to_server e g = Inr g' \<Longrightarrow> records_only g g'"
  "records_only g (gwm_entity_set_scope_exit e x g)"
  "records_only g (gwm_set_replicating b e g)"
  by (auto simp: gwm_insert_entity_record_def gwm_insert_static_entity_record_def ger_new_static_def
      gwm_mark_entity_as_static_def gwm_remove_entity_record_def gwm_insert_component_record_def
      gwm_remove_component_record_def gwm_migrate_entity_to_server_def gwm_entity_set_scope_exit_def
      gwm_set_replicating_def rbind_eq_Inr dest: ger_new_publicity dest!: gwm_get_Inr
      intro!: records_only_put intro: records_only_refl records_only_keep split: if_splits option.splits)
    (auto simp: records_only_def gwm_entity_is_delegated_def split: if_splits)

lemmas records_only_steps = publish_records_only unpublish_records_only other_records_only

text \<open>What a step does to the holders, when it does anything.\<close>

fun spec_op :: "gwm_op \<Rightarrow> holders \<Rightarrow> holders" where
  "spec_op (Op_EnableDelegation e) m = m(e \<mapsto> AO_None)"
| "spec_op (Op_DisableDelegation e) m = m(e := None)"
| "spec_op (Op_Request e w) m = snd (spec_request e w m)"
| "spec_op (Op_Release e w) m = snd (spec_release e w m)"
| "spec_op (Op_Give e u) m = snd (spec_assign e (AO_Client u) m)"
| "spec_op (Op_Take e) m = snd (spec_assign e AO_Server m)"
| "spec_op _ m = m"

definition step_ok :: "gwm_op \<Rightarrow> global_world_manager \<Rightarrow> global_world_manager \<Rightarrow> bool" where
  "step_ok op g g' \<longleftrightarrow> gwm_inv g' \<and> (gwm_holders g' = gwm_holders g \<or> gwm_holders g' = spec_op op (gwm_holders g))"

lemma records_only_step_ok: "gwm_inv g \<Longrightarrow> records_only g g' \<Longrightarrow> step_ok op g g'"
  using records_only_inv by (auto simp: step_ok_def records_only_def)

lemma guarded_ok:
  assumes g: "gwm_inv g"
    and f: "\<exists>r s'. f (gwm_auth_handler g) = Inr (r, s') \<and> sah_inv s' \<and> (r, sah_entity_auth_map s') = a (gwm_holders g)"
    and a: "spec_op op (gwm_holders g) = snd (a (gwm_holders g))"
    and dom: "\<And>e'. gwm_holders g e' \<noteq> None \<Longrightarrow> snd (a (gwm_holders g)) e' \<noteq> None"
  shows "\<exists>r g'. gwm_guarded e f g = Inr (r, g') \<and> step_ok op g g'"
proof (cases "gwm_entity_is_delegated e g")
  case True
  obtain r s' where s': "f (gwm_auth_handler g) = Inr (r, s')" "sah_inv s'" "(r, sah_entity_auth_map s') = a (gwm_holders g)"
    using f by blast
  have h: "sah_entity_auth_map s' = snd (a (gwm_holders g))" by (simp flip: s'(3))
  let ?g = "g \<lparr> gwm_auth_handler := s' \<rparr>"
  have "gwm_holders ?g e' \<noteq> None" if "gwm_entity_is_delegated e' ?g" for e'
    using that g dom [of e'] h by (simp add: gwm_inv_def gwm_entity_is_delegated_def)
  with s'(1,2) True h a show ?thesis by (simp add: gwm_guarded_def step_ok_def gwm_inv_def)
qed (use g in \<open>simp add: gwm_guarded_def step_ok_def\<close>)

text \<open>The authority operations never fail with a panic.\<close>

lemma authority_steps:
  assumes "gwm_inv g"
  shows "\<exists>r g'. gwm_client_request_authority e w g = Inr (r, g') \<and> step_ok (Op_Request e w) g g'"
    and "\<exists>r g'. gwm_client_release_authority e w g = Inr (r, g') \<and> step_ok (Op_Release e w) g g'"
    and "\<exists>r g'. gwm_server_give_authority_to_client e u g = Inr (r, g') \<and> step_ok (Op_Give e u) g g'"
    and "\<exists>r g'. gwm_server_take_authority e g = Inr (r, g') \<and> step_ok (Op_Take e) g g'"
proof -
  have i: "sah_inv (gwm_auth_handler g)" using assms by (simp add: gwm_inv_def)
  show "\<exists>r g'. gwm_client_request_authority e w g = Inr (r, g') \<and> step_ok (Op_Request e w) g g'"
    unfolding gwm_client_request_authority_def
    by (rule guarded_ok [where a = "spec_request e w" and f = "sah_client_request_authority e w", OF assms sah.request_law [OF i]]) (auto split: option.splits)
  show "\<exists>r g'. gwm_client_release_authority e w g = Inr (r, g') \<and> step_ok (Op_Release e w) g g'"
    unfolding gwm_client_release_authority_def
    by (rule guarded_ok [where a = "spec_release e w" and f = "sah_client_release_authority e w", OF assms sah.release_law [OF i]]) (auto split: option.splits)
  show "\<exists>r g'. gwm_server_give_authority_to_client e u g = Inr (r, g') \<and> step_ok (Op_Give e u) g g'"
    unfolding gwm_server_give_authority_to_client_def
    by (rule guarded_ok [where a = "spec_assign e (AO_Client u)" and f = "sah_server_give_authority_to_client e u", OF assms sah.give_law [OF i]]) (auto split: option.splits)
  show "\<exists>r g'. gwm_server_take_authority e g = Inr (r, g') \<and> step_ok (Op_Take e) g g'"
    unfolding gwm_server_take_authority_def
    by (rule guarded_ok [where a = "spec_assign e AO_Server" and f = "sah_server_take_authority e", OF assms sah.take_law [OF i]]) (auto split: option.splits)
qed

lemma enable_step_ok:
  assumes "gwm_inv g" "gwm_entity_enable_delegation e g = Inr g'"
  shows "step_ok (Op_EnableDelegation e) g g'"
proof -
  obtain r s' where r: "gwm_get e g = Inr r" and s': "sah_register_entity e (gwm_auth_handler g) = Inr s'"
      "g' = (gwm_put e (set_publicity PUB_Delegated r) g) \<lparr> gwm_auth_handler := s' \<rparr>"
    using assms(2) by (auto simp: gwm_entity_enable_delegation_def rbind_eq_Inr Let_def gwm_put_def split: if_splits)
  have i: "sah_inv (gwm_auth_handler g)" using assms(1) by (simp add: gwm_inv_def)
  have "gwm_holders g e = None"
  proof (rule ccontr)
    assume "gwm_holders g e \<noteq> None"
    from sah.register_twice_law [OF i this] s'(1) show False by auto
  qed
  from sah.register_law [OF i this] s'(1) have "sah_inv s'" "sah_entity_auth_map s' = (gwm_holders g)(e \<mapsto> AO_None)" by auto
  with assms(1) s'(2) show ?thesis
    by (auto simp: step_ok_def gwm_inv_def gwm_entity_is_delegated_def gwm_put_def split: if_splits)
qed

lemma disable_step_ok:
  assumes "gwm_inv g" "gwm_entity_disable_delegation e g = Inr g'"
  shows "step_ok (Op_DisableDelegation e) g g'"
proof -
  obtain r where "g' = (gwm_put e (set_publicity PUB_Public r) g) \<lparr> gwm_auth_handler := sah_deregister_entity e (gwm_auth_handler g) \<rparr>"
    using assms(2) by (auto simp: gwm_entity_disable_delegation_def rbind_eq_Inr Let_def gwm_put_def split: if_splits)
  with assms(1) sah.deregister_law [of "gwm_auth_handler g" e] show ?thesis
    by (auto simp: step_ok_def gwm_inv_def gwm_entity_is_delegated_def gwm_put_def split: if_splits)
qed

lemma gwm_step_ok:
  assumes g: "gwm_inv g" and step: "gwm_step op g = Inr g'"
  shows "step_ok op g g'"
proof (cases op)
  case (Op_Request e w)
  with step authority_steps(1) [OF g, of e w] show ?thesis by auto
next
  case (Op_Release e w)
  with step authority_steps(2) [OF g, of e w] show ?thesis by auto
next
  case (Op_Give e u)
  with step authority_steps(3) [OF g, of e u] show ?thesis by auto
next
  case (Op_Take e)
  with step authority_steps(4) [OF g, of e] show ?thesis by auto
qed (use step in \<open>auto simp: rbind_eq_Inr gwm_pause_entity_replication_def gwm_resume_entity_replication_def
    intro: enable_step_ok [OF g] disable_step_ok [OF g] records_only_step_ok [OF g] records_only_steps\<close>)

lemma gwm_run_inv: "gwm_run ops gwm_new = Inr g \<Longrightarrow> gwm_inv g"
proof (induction ops arbitrary: g rule: rev_induct)
  case (snoc op ops)
  then show ?case using gwm_step_ok by (auto simp: gwm_run_def rfold_append rbind_eq_Inr step_ok_def)
qed (simp add: gwm_run_def gwm_inv_new)

lemmas gwm_ops_simps = gwm_run_def gwm_insert_entity_record_def ger_new_def rc_public_def gwm_has_entity_def gwm_new_def
  gwm_put_def gwm_get_def gwm_entity_enable_delegation_def gwm_entity_is_delegated_def gwm_guarded_def
  gwm_client_request_authority_def gwm_client_release_authority_def gwm_server_give_authority_to_client_def
  gwm_user_is_authority_holder_def gwm_user_all_owned_entities_def
  sah_new_def hah_new_def sah_register_entity_def hah_register_entity_def ead_new_def sah_client_request_authority_def
  sah_set_status_def hah_set_auth_status_def ead_set_auth_status_def sah_set_owner_def sah_add_user_entity_def
  sah_client_release_authority_def sah_release_all_authority_def sah_server_give_authority_to_client_def
  sah_user_all_owned_entities_def sah_user_is_authority_holder_def Let_def

section \<open>Properties\<close>

text \<open>
  C13. Invariant: after any run of the server's entity and authority operations, the server's own
  status on an entity is the one its holder calls for, Available without a holder, Granted when the server
  holds it and Denied when a client does; every delegated entity has a status; and none of the four
  authority operations can panic.
\<close>

theorem authority_status_tracks_holder:
  assumes "gwm_run ops gwm_new = Inr g"
  shows "gwm_entity_authority_status e g = map_option status_of (sah_entity_auth_map (gwm_auth_handler g) e) \<and>
    (gwm_entity_is_delegated e g \<longrightarrow> gwm_entity_authority_status e g \<noteq> None) \<and>
    (\<exists>r g'. gwm_client_request_authority e w g = Inr (r, g')) \<and>
    (\<exists>r g'. gwm_client_release_authority e w g = Inr (r, g')) \<and>
    (\<exists>r g'. gwm_server_give_authority_to_client e u g = Inr (r, g')) \<and>
    (\<exists>r g'. gwm_server_take_authority e g = Inr (r, g'))"
proof -
  have g: "gwm_inv g" by (rule gwm_run_inv [OF assms])
  then have s: "gwm_entity_authority_status e g = map_option status_of (gwm_holders g e)"
    using sah.status_law by (simp add: gwm_inv_def gwm_entity_authority_status_def)
  moreover have "gwm_entity_is_delegated e g \<longrightarrow> gwm_entity_authority_status e g \<noteq> None"
    using g s by (auto simp: gwm_inv_def)
  ultimately show ?thesis using authority_steps [OF g] by blast
qed

theorem authority_status_tracks_holder_witness:
  "\<exists>g. gwm_run [Op_Insert 7 EO_Server, Op_EnableDelegation 7, Op_Request 7 (AO_Client 3)] gwm_new = Inr g \<and>
     gwm_entity_is_delegated 7 g \<and> gwm_entity_authority_status 7 g = Some Denied \<and>
     (\<exists>r g'. gwm_server_take_authority 7 g = Inr (r, g'))"
proof -
  let ?r = "gwm_run [Op_Insert 7 EO_Server, Op_EnableDelegation 7, Op_Request 7 (AO_Client 3)] gwm_new"
  obtain g where g: "?r = Inr g" "gwm_entity_is_delegated 7 g" "sah_entity_auth_map (gwm_auth_handler g) 7 = Some (AO_Client 3)"
    by (simp add: gwm_ops_simps)
  with authority_status_tracks_holder [OF g(1), of 7 AO_None 0] show ?thesis by auto
qed

text \<open>
  C14. A client's authority is not stolen: in a step of any run, a client that holds an entity stops holding it only
  because it released the entity itself, or because the server released, took or reassigned it or ended its
  delegation.
\<close>

theorem authority_not_stolen:
  assumes "gwm_run ops gwm_new = Inr g" and "gwm_step op g = Inr g'"
    and "gwm_user_is_authority_holder u e g" and "\<not> gwm_user_is_authority_holder u e g'"
  shows "op \<in> {Op_Release e (AO_Client u), Op_Release e AO_Server, Op_Take e, Op_DisableDelegation e} \<or>
    (\<exists>v. v \<noteq> u \<and> op = Op_Give e v)"
proof -
  have h: "gwm_holders g e = Some (AO_Client u)" "gwm_holders g' e \<noteq> Some (AO_Client u)"
    using assms(3,4) by (auto simp: gwm_user_is_authority_holder_def sah_user_is_authority_holder_def split: option.splits)
  have step: "step_ok op g g'" by (rule gwm_step_ok [OF gwm_run_inv [OF assms(1)] assms(2)])
  with h have n: "spec_op op (gwm_holders g) e \<noteq> Some (AO_Client u)" by (auto simp: step_ok_def)
  have "op \<noteq> Op_EnableDelegation e"
  proof
    assume op: "op = Op_EnableDelegation e"
    have "\<exists>msg. sah_register_entity e (gwm_auth_handler g) = Inl (Panic msg)"
      by (rule sah.register_twice_law) (use gwm_run_inv [OF assms(1)] h in \<open>auto simp: gwm_inv_def\<close>)
    with op assms(2) show False
      by (auto simp: gwm_entity_enable_delegation_def gwm_put_def rbind_eq_Inr split: if_splits)
  qed
  with n h(1) show ?thesis by (cases op) (auto split: option.splits if_splits)
qed

theorem authority_not_stolen_witness:
  "\<exists>g g'. gwm_run [Op_Insert 7 EO_Server, Op_EnableDelegation 7, Op_Request 7 (AO_Client 3)] gwm_new = Inr g \<and>
     gwm_step (Op_Give 7 4) g = Inr g' \<and> gwm_user_is_authority_holder 3 7 g \<and> \<not> gwm_user_is_authority_holder 3 7 g' \<and>
     gwm_user_is_authority_holder 4 7 g'"
proof -
  let ?r = "gwm_run [Op_Insert 7 EO_Server, Op_EnableDelegation 7, Op_Request 7 (AO_Client 3)] gwm_new"
  obtain g where g: "?r = Inr g" by (simp add: gwm_ops_simps)
  then obtain g' where g': "gwm_step (Op_Give 7 4) g = Inr g'" "gwm_user_is_authority_holder 3 7 g"
      "\<not> gwm_user_is_authority_holder 3 7 g'" "gwm_user_is_authority_holder 4 7 g'"
    by (auto simp: gwm_ops_simps)
  from authority_not_stolen [OF g g'(1-3)] g g' show ?thesis by blast
qed


end
