(* ===== verification/Kind_Registry.thy ===== *)
theory Kind_Registry
  imports Serde
begin

text \<open>
  \<^verbatim>\<open>channel_kinds.rs\<close>, \<^verbatim>\<open>message_kinds.rs\<close> and \<^verbatim>\<open>component_kinds.rs\<close> of \<^verbatim>\<open>shared/src\<close>: the registries that give every
  channel, message and component type a net id, its number in the order of registration, and the tag with which the
  id goes over the wire. The three registries have the same code; they differ in what they keep of a type
  (the settings of a channel, the builder that reads a message or a component).
  The kind of a type is its \<^verbatim>\<open>TypeId\<close>, here a type variable.
\<close>

unbundle bit_operations_syntax

section \<open>The width of a tag\<close>

definition next_power_of_two :: "nat \<Rightarrow> nat" where
  "next_power_of_two n = (if n \<le> 1 then 1 else 2 ^ bit_width (n - 1))"

fun trailing_zeros :: "nat \<Rightarrow> nat" where
  "trailing_zeros n = (if n = 0 then 32 else if odd n then 0 else Suc (trailing_zeros (n div 2)))"

declare trailing_zeros.simps [simp del]

definition bit_width_for_kind_count :: "u16 \<Rightarrow> nat" where
  "bit_width_for_kind_count c = (if c < 2 then 0 else trailing_zeros (next_power_of_two (unat c)))"

section \<open>The registry\<close>

record ('k, 'v) kinds =
  current_net_id :: u16
  kind_bit_width :: nat
  kind_map :: "('k \<times> u16 \<times> 'v \<times> string) list"
  net_id_map :: "u16 \<rightharpoonup> 'k"

definition kinds_new :: "('k, 'v) kinds" where
  "kinds_new = \<lparr> current_net_id = 0, kind_bit_width = 0, kind_map = [], net_id_map = Map.empty \<rparr>"

text \<open>\<^verbatim>\<open>HashMap::insert\<close> on a map that is iterated over elsewhere.\<close>

fun alist_insert :: "'k \<Rightarrow> 'v \<Rightarrow> ('k \<times> 'v) list \<Rightarrow> ('k \<times> 'v) list" where
  "alist_insert k v [] = [(k, v)]"
| "alist_insert k v ((k', v') # m) = (if k' = k then (k, v) # m else (k', v') # alist_insert k v m)"

definition kinds_add :: "'k \<Rightarrow> 'v \<Rightarrow> string \<Rightarrow> ('k, 'v) kinds \<Rightarrow> ('k, 'v) kinds res" where
  "kinds_add kind v name ks =
     (let net_id = current_net_id ks;
          ks = ks \<lparr> kind_map := alist_insert kind (net_id, v, name) (kind_map ks),
                    net_id_map := (net_id_map ks)(net_id \<mapsto> kind) \<rparr>
      in if net_id = - 1 then Inl (Panic ''NetId overflow'')
         else Inr (ks \<lparr> current_net_id := net_id + 1, kind_bit_width := bit_width_for_kind_count (net_id + 1) \<rparr>))"

definition kind_to_net_id :: "('k, 'v) kinds \<Rightarrow> 'k \<Rightarrow> u16 res" where
  "kind_to_net_id ks kind = (case map_of (kind_map ks) kind of
     None \<Rightarrow> Inl (Panic ''Must properly initialize with Protocol'') | Some (net_id, _, _) \<Rightarrow> Inr net_id)"

definition net_id_to_kind :: "('k, 'v) kinds \<Rightarrow> u16 \<Rightarrow> 'k res" where
  "net_id_to_kind ks net_id = (case net_id_map ks net_id of
     None \<Rightarrow> Inl (Panic ''Must properly initialize with Protocol'') | Some kind \<Rightarrow> Inr kind)"

definition kind_to_builder :: "('k, 'v) kinds \<Rightarrow> 'k \<Rightarrow> 'v res" where
  "kind_to_builder ks kind = (case map_of (kind_map ks) kind of
     None \<Rightarrow> Inl (Panic ''Must properly initialize with Protocol'') | Some (_, v, _) \<Rightarrow> Inr v)"

definition kind_ser :: "('k, 'v) kinds \<Rightarrow> 'k \<Rightarrow> bit_write \<Rightarrow> bit_write res" where
  "kind_ser ks kind w =
     rbind (kind_to_net_id ks kind) (\<lambda>net_id.
       rfold (\<lambda>i. write_bit (drop_bit i net_id AND 1 \<noteq> 0)) [0..<kind_bit_width ks] w)"

definition kind_de :: "('k, 'v) kinds \<Rightarrow> bit_reader \<Rightarrow> ('k \<times> bit_reader) res" where
  "kind_de ks r =
     rbind (acc_bits 0 (kind_bit_width ks) (0 :: u16) r) (\<lambda>(net_id, r).
     rbind (net_id_to_kind ks net_id) (\<lambda>kind. Inr (kind, r)))"

text \<open>Reading a value: the tag, then the builder registered for the kind.\<close>

definition kinds_read ::
    "('k, bit_reader \<Rightarrow> ('m \<times> bit_reader) res) kinds \<Rightarrow> bit_reader \<Rightarrow> ('m \<times> bit_reader) res" where
  "kinds_read ks r = rbind (kind_de ks r) (\<lambda>(kind, r). rbind (kind_to_builder ks kind) (\<lambda>builder. builder r))"

section \<open>Tags are wide enough\<close>

lemma trailing_zeros_power: "trailing_zeros (2 ^ k) = k"
  by (induction k) (simp_all add: trailing_zeros.simps)

lemma trailing_zeros_next_power: "1 < n \<Longrightarrow> trailing_zeros (next_power_of_two n) = bit_width (n - 1)"
  by (simp add: next_power_of_two_def trailing_zeros_power)

lemma bit_width_for_kind_count_bounds:
  assumes "i < c"
  shows "unat i < 2 ^ bit_width_for_kind_count c" "bit_width_for_kind_count c \<le> 16"
proof -
  have i: "unat i < unat c" using assms by (simp add: word_less_nat_alt)
  have "bit_width (unat c - 1) \<le> 16"
    using unsigned_less [of c, where ?'a = nat] by (intro bit_width_le) simp
  moreover have "unat i < 2 ^ bit_width (unat c - 1)" using i bit_width_bound [of "unat c - 1"] by linarith
  moreover have "c < 2 \<longleftrightarrow> unat c \<le> 1" by (auto simp: word_less_nat_alt)
  ultimately show "unat i < 2 ^ bit_width_for_kind_count c" "bit_width_for_kind_count c \<le> 16"
    using i by (auto simp: bit_width_for_kind_count_def trailing_zeros_next_power)
qed

section \<open>The invariant of a registry\<close>

text \<open>
  Registering a type again keeps its old net id readable but gives it a new one, so the ids below
  \<open>current_net_id\<close> are exactly the readable ones, and the id a kind is written with reads as that kind.
\<close>

definition kinds_ok :: "('k, 'v) kinds \<Rightarrow> bool" where
  "kinds_ok ks \<longleftrightarrow> dom (net_id_map ks) = {..<current_net_id ks} \<and>
     (\<forall>kind e. map_of (kind_map ks) kind = Some e \<longrightarrow> net_id_map ks (fst e) = Some kind) \<and>
     kind_bit_width ks = bit_width_for_kind_count (current_net_id ks)"

lemma map_of_alist_insert: "map_of (alist_insert k v m) = (map_of m)(k \<mapsto> v)"
  by (induction m) auto

lemma kinds_okD: "kinds_ok ks \<Longrightarrow> map_of (kind_map ks) kind = Some e \<Longrightarrow> net_id_map ks (fst e) = Some kind"
  unfolding kinds_ok_def by blast

lemma kinds_ok_new: "kinds_ok kinds_new"
  by (auto simp: kinds_ok_def kinds_new_def bit_width_for_kind_count_def)

lemma kinds_add_ok:
  assumes "kinds_ok ks" "kinds_add kind v name ks = Inr ks'"
  shows "kinds_ok ks'"
    and "map_of (kind_map ks') = (map_of (kind_map ks))(kind \<mapsto> (current_net_id ks, v, name))"
proof -
  have n: "current_net_id ks \<noteq> - 1" and ks': "ks' = ks \<lparr>
      kind_map := alist_insert kind (current_net_id ks, v, name) (kind_map ks),
      net_id_map := (net_id_map ks)(current_net_id ks \<mapsto> kind), current_net_id := current_net_id ks + 1,
      kind_bit_width := bit_width_for_kind_count (current_net_id ks + 1) \<rparr>"
    using assms(2) by (auto simp: kinds_add_def Let_def split: if_splits)
  show "map_of (kind_map ks') = (map_of (kind_map ks))(kind \<mapsto> (current_net_id ks, v, name))"
    by (simp add: ks' map_of_alist_insert)
  have new: "fst e \<noteq> current_net_id ks" if k: "map_of (kind_map ks) k = Some e" for k e
  proof -
    have "fst e \<in> dom (net_id_map ks)" using kinds_okD [OF assms(1) k] by blast
    then show ?thesis using assms(1) by (auto simp: kinds_ok_def)
  qed
  have "net_id_map ks' (fst e) = Some k" if "map_of (kind_map ks') k = Some e" for k e
    using that new [of k e] kinds_okD [OF assms(1), of k e] by (auto simp: ks' map_of_alist_insert split: if_splits)
  moreover have "dom (net_id_map ks') = {..<current_net_id ks'}"
    using assms(1) lessThan_Suc_u16 [OF n] by (simp add: ks' kinds_ok_def)
  moreover have "kind_bit_width ks' = bit_width_for_kind_count (current_net_id ks')" by (simp add: ks')
  ultimately show "kinds_ok ks'" unfolding kinds_ok_def by blast
qed

definition kind_enc :: "('k, 'v) kinds \<Rightarrow> 'k \<Rightarrow> bool list" where
  "kind_enc ks kind = (case map_of (kind_map ks) kind of None \<Rightarrow> [] | Some (net_id, _, _) \<Rightarrow> wbits (kind_bit_width ks) net_id)"

definition registered :: "('k, 'v) kinds \<Rightarrow> 'k \<Rightarrow> bool" where
  "registered ks kind \<longleftrightarrow> map_of (kind_map ks) kind \<noteq> None"

lemma net_id_bounds:
  assumes "kinds_ok ks" "net_id_map ks n = Some kind"
  shows "unat n < 2 ^ kind_bit_width ks" "kind_bit_width ks \<le> 16"
  using bit_width_for_kind_count_bounds [of n "current_net_id ks"] assms by (auto simp: kinds_ok_def)

lemma clear_above_tag:
  fixes n :: u16
  assumes "unat n < 2 ^ b" "b \<le> 16"
  shows "clear_above b n"
proof -
  have "take_bit b n = n"
    using assms by (intro unsigned_word_eqI [where ?'a = nat]) (simp add: unsigned_take_bit_eq take_bit_nat_eq_self)
  then show ?thesis by (simp add: clear_above_iff_take)
qed

lemma kind_de_reads:
  assumes "clear_above (kind_bit_width ks) n" "kind_bit_width ks \<le> 16" "net_id_to_kind ks n = Inr kind"
  shows "reads (kind_de ks) (wbits (kind_bit_width ks) n) kind"
proof -
  have "reads (acc_bits 0 (kind_bit_width ks) 0) (wbits (kind_bit_width ks) n) n"
    using acc_bits_word [of "kind_bit_width ks" n] assms by simp
  from reads_bind [where g = "\<lambda>net_id r. rbind (net_id_to_kind ks net_id) (\<lambda>kind. Inr (kind, r))", OF this, of "[]" kind]
  show ?thesis by (simp add: kind_de_def [abs_def] assms(3) reads_return)
qed

text \<open>The tag of a registered kind is a \<open>codec\<close>.\<close>

lemma kinds_codec:
  assumes ok: "kinds_ok ks"
  shows "codec (kind_ser ks) (kind_de ks) (kind_enc ks) (registered ks)"
proof
  fix kind assume "registered ks kind"
  then obtain n v name where n: "map_of (kind_map ks) kind = Some (n, v, name)" by (auto simp: registered_def)
  then have k: "net_id_map ks n = Some kind" using kinds_okD [OF ok n] by simp
  note b = net_id_bounds [OF ok k]
  have e: "concat (map (\<lambda>i. [drop_bit i n AND 1 \<noteq> 0]) [0..<kind_bit_width ks]) = wbits (kind_bit_width ks) n"
    by (simp add: wbits_def and_1_ne_0 bit_drop_bit_eq)
  have "sink.writes (rfold (\<lambda>i. write_bit (drop_bit i n AND 1 \<noteq> 0)) [0..<kind_bit_width ks])
      (concat (map (\<lambda>i. [drop_bit i n AND 1 \<noteq> 0]) [0..<kind_bit_width ks]))"
    by (rule sink.writes_rfold) (rule sink.writes_bit)
  then show "sink.writes (kind_ser ks kind) (kind_enc ks kind)"
    unfolding e by (simp add: kind_ser_def [abs_def] kind_to_net_id_def kind_enc_def n)
  have "reads (kind_de ks) (wbits (kind_bit_width ks) n) kind"
    by (rule kind_de_reads [OF clear_above_tag [OF b] b(2)]) (simp add: net_id_to_kind_def k)
  then show "reads (kind_de ks) (kind_enc ks kind) kind" by (simp add: kind_enc_def n)
qed

section \<open>Properties\<close>

text \<open>
  C37. A corrupt tag crashes the reader: the tag of a registry whose size is not a power of two can hold a net id that was
  never given out, and reading one panics instead of returning \<^verbatim>\<open>SerdeErr\<close>.
\<close>

theorem corrupt_kind_tag_panics:
  assumes "kinds_ok ks" "current_net_id ks \<le> n" "unat n < 2 ^ kind_bit_width ks" "kind_bit_width ks \<le> 16"
    and "br_ok r" "br_bits r = wbits (kind_bit_width ks) n @ rest"
  shows "kind_de ks r = Inl (Panic ''Must properly initialize with Protocol'')"
proof -
  have "reads (acc_bits 0 (kind_bit_width ks) 0) (wbits (kind_bit_width ks) n) n"
    using acc_bits_word [of "kind_bit_width ks" n] clear_above_tag [OF assms(3,4)] assms(4) by simp
  from readsD [OF this assms(5,6)] obtain r' where "acc_bits 0 (kind_bit_width ks) 0 r = Inr (n, r')" by blast
  moreover have "n \<notin> dom (net_id_map ks)" using assms(1,2) by (auto simp: kinds_ok_def)
  ultimately show ?thesis by (auto simp: kind_de_def net_id_to_kind_def split: option.split)
qed

theorem corrupt_kind_tag_panics_witness:
  "\<exists>ks. rbind (kinds_add (0 :: nat) () ''A'' kinds_new) (\<lambda>ks. rbind (kinds_add 1 () ''B'' ks) (kinds_add 2 () ''C'')) = Inr ks \<and>
    kind_de ks (br_new [3]) = Inl (Panic ''Must properly initialize with Protocol'')"
proof -
  obtain k1 where k1: "kinds_add (0 :: nat) () ''A'' kinds_new = Inr k1" "current_net_id k1 = 1"
    by (simp add: kinds_add_def kinds_new_def Let_def)
  obtain k2 where k2: "kinds_add 1 () ''B'' k1 = Inr k2" "current_net_id k2 = 2"
    using k1(2) by (simp add: kinds_add_def Let_def)
  obtain k3 where k3: "kinds_add 2 () ''C'' k2 = Inr k3" "current_net_id k3 = 3" "kind_bit_width k3 = bit_width_for_kind_count 3"
    using k2(2) by (simp add: kinds_add_def Let_def)
  have ok: "kinds_ok k3" by (rule kinds_add_ok(1) [OF kinds_add_ok(1) [OF kinds_add_ok(1) [OF kinds_ok_new k1(1)] k2(1)] k3(1)])
  have w: "kind_bit_width k3 = 2"
    by (simp add: k3(3) bit_width_for_kind_count_def trailing_zeros_next_power bit_width.simps)
  have b: "br_bits (br_new [3]) = wbits 2 (3 :: u16) @ wbits 6 (0 :: u8)"
    by (simp add: br_new_ok wbits_def upt_rec numeral_eq_Suc)
  have "kind_de k3 (br_new [3]) = Inl (Panic ''Must properly initialize with Protocol'')"
    by (rule corrupt_kind_tag_panics [OF ok, of 3]) (use k3(2) w b br_new_ok(1) in simp_all)
  with k1 k2 k3 show ?thesis by simp
qed

end
