(* ===== verification/Channels.thy ===== *)
theory Channels
  imports Complex_Main Kind_Registry
begin

text \<open>
  \<^verbatim>\<open>shared/src/messages/channels/channel.rs\<close> and \<^verbatim>\<open>channel_kinds.rs\<close>: the settings of a channel and the registry of
  channels. A setting that is a \<^verbatim>\<open>f32\<close> literal is the rational number it denotes.
\<close>

record reliable_settings =
  rtt_resend_factor :: rat
  max_messages_per_tick :: "u16 option"
  max_queue_depth :: "nat option"

definition reliable_settings_default :: reliable_settings where
  "reliable_settings_default = \<lparr> rtt_resend_factor = 3 / 2, max_messages_per_tick = None, max_queue_depth = Some 1024 \<rparr>"

record tick_buffer_settings =
  message_capacity :: nat

definition tick_buffer_settings_default :: tick_buffer_settings where
  "tick_buffer_settings_default = \<lparr> message_capacity = 64 \<rparr>"

datatype channel_mode =
    UnorderedUnreliable
  | SequencedUnreliable
  | UnorderedReliable reliable_settings
  | SequencedReliable reliable_settings
  | OrderedReliable reliable_settings
  | TickBuffered tick_buffer_settings

fun mode_tick_buffered :: "channel_mode \<Rightarrow> bool" where
  "mode_tick_buffered (TickBuffered _) = True"
| "mode_tick_buffered _ = False"

datatype channel_direction = ClientToServer | ServerToClient | Bidirectional

datatype channel_criticality = Low | Normal | High

fun criticality_default_for :: "channel_mode \<Rightarrow> channel_criticality" where
  "criticality_default_for (TickBuffered _) = High"
| "criticality_default_for _ = Normal"

fun base_gain :: "channel_criticality \<Rightarrow> rat" where
  "base_gain Low = 1 / 2"
| "base_gain Normal = 1"
| "base_gain High = 10"

record channel_settings =
  cs_mode :: channel_mode
  cs_direction :: channel_direction
  cs_criticality :: channel_criticality

definition cs_new :: "channel_mode \<Rightarrow> channel_direction \<Rightarrow> channel_settings res" where
  "cs_new mode direction =
     (if mode_tick_buffered mode \<and> direction \<noteq> ClientToServer
      then Inl (Panic ''TickBuffered Messages are only allowed to be sent from Client to Server'')
      else Inr \<lparr> cs_mode = mode, cs_direction = direction, cs_criticality = criticality_default_for mode \<rparr>)"

definition cs_with_criticality :: "channel_criticality \<Rightarrow> channel_settings \<Rightarrow> channel_settings" where
  "cs_with_criticality criticality s = s \<lparr> cs_criticality := criticality \<rparr>"

definition cs_reliable :: "channel_settings \<Rightarrow> bool" where
  "cs_reliable s = (case cs_mode s of
       UnorderedUnreliable \<Rightarrow> False
     | SequencedUnreliable \<Rightarrow> False
     | UnorderedReliable _ \<Rightarrow> True
     | SequencedReliable _ \<Rightarrow> True
     | OrderedReliable _ \<Rightarrow> True
     | TickBuffered _ \<Rightarrow> False)"

definition cs_can_send_to_server :: "channel_settings \<Rightarrow> bool" where
  "cs_can_send_to_server s = (case cs_direction s of ClientToServer \<Rightarrow> True | ServerToClient \<Rightarrow> False | Bidirectional \<Rightarrow> True)"

definition cs_can_send_to_client :: "channel_settings \<Rightarrow> bool" where
  "cs_can_send_to_client s = (case cs_direction s of ClientToServer \<Rightarrow> False | ServerToClient \<Rightarrow> True | Bidirectional \<Rightarrow> True)"

definition cs_can_request_and_respond :: "channel_settings \<Rightarrow> bool" where
  "cs_can_request_and_respond s = (cs_reliable s \<and> cs_can_send_to_server s \<and> cs_can_send_to_client s)"

text \<open>The channel types of \<^verbatim>\<open>default_channels.rs\<close> and those of the application.\<close>

datatype 'c channel_kind =
    UnorderedUnreliableChannel
  | SequencedUnreliableChannel
  | UnorderedReliableChannel
  | SequencedReliableChannel
  | OrderedReliableChannel
  | TickBufferedChannel
  | Application_Channel 'c

type_synonym 'c channel_kinds = "('c channel_kind, channel_settings) kinds"

definition channels :: "'c channel_kinds \<Rightarrow> ('c channel_kind \<times> channel_settings) list" where
  "channels ks = map (\<lambda>(kind, _, settings, _). (kind, settings)) (kind_map ks)"

definition channel :: "'c channel_kinds \<Rightarrow> 'c channel_kind \<Rightarrow> channel_settings res" where
  "channel ks kind = kind_to_builder ks kind"

end
