(* ===== verification/Message_Kinds.thy ===== *)
theory Message_Kinds
  imports Kind_Registry
begin

text \<open>
  The messages of \<^verbatim>\<open>shared/src/messages\<close>: \<^verbatim>\<open>message_container.rs\<close>, the wire formats of \<^verbatim>\<open>fragment.rs\<close> and of the requests
  and responses of \<^verbatim>\<open>channels/senders/request_sender.rs\<close>, and how the registry of \<^verbatim>\<open>message_kinds.rs\<close> reads a message.
  The message types of an application are generated by a derive macro, as are these two; their code is an argument of
  type \<open>message_types\<close> with the contract \<open>message_types_ok\<close>.
\<close>

section \<open>Fragments on the wire\<close>

definition fragment_id_ser :: "fragment_id \<Rightarrow> bit_write \<Rightarrow> bit_write res" where
  "fragment_id_ser i w = rbind (si_new False False FRAGMENT_ID_BITS (uint i)) (\<lambda>integer. si_ser integer w)"

definition fragment_id_de :: "bit_reader \<Rightarrow> (fragment_id \<times> bit_reader) res" where
  "fragment_id_de r = rbind (si_de False False FRAGMENT_ID_BITS r) (\<lambda>(integer, r). Inr (of_int (si_get integer), r))"

definition fragment_index_ser :: "fragment_index \<Rightarrow> bit_write \<Rightarrow> bit_write res" where
  "fragment_index_ser i w = rbind (si_new False False FRAGMENT_INDEX_BITS (uint i)) (\<lambda>integer. si_ser integer w)"

definition fragment_index_de :: "bit_reader \<Rightarrow> (fragment_index \<times> bit_reader) res" where
  "fragment_index_de r = rbind (si_de False False FRAGMENT_INDEX_BITS r) (\<lambda>(integer, r). Inr (of_int (si_get integer), r))"

text \<open>The fields in the order of the struct, as the derive macro writes and reads them.\<close>

definition fm_ser :: "fragmented_message \<Rightarrow> bit_write \<Rightarrow> bit_write res" where
  "fm_ser m w =
     rbind (fragment_id_ser (fm_id m) w) (\<lambda>w.
     rbind (fragment_index_ser (fm_index m) w) (\<lambda>w.
     rbind (fragment_index_ser (fm_total m) w) (bytes_ser (fm_bytes m))))"

definition fm_de :: "bit_reader \<Rightarrow> (fragmented_message \<times> bit_reader) res" where
  "fm_de r =
     rbind (fragment_id_de r) (\<lambda>(i, r).
     rbind (fragment_index_de r) (\<lambda>(index, r).
     rbind (fragment_index_de r) (\<lambda>(n, r).
     rbind (bytes_de r) (\<lambda>(bytes, r).
     Inr (\<lparr> fm_id = i, fm_index = index, fm_total = n, fm_bytes = bytes \<rparr>, r)))))"

section \<open>Requests and responses on the wire\<close>

datatype local_request_id = LocalRequestId u8

datatype local_response_id = LocalResponseId u8

datatype local_request_or_response_id = RequestId local_request_id | ResponseId local_response_id

record request_or_response =
  ror_id :: local_request_or_response_id
  ror_bytes :: "u8 list"

fun ror_id_ser :: "local_request_or_response_id \<Rightarrow> bit_write \<Rightarrow> bit_write res" where
  "ror_id_ser (RequestId (LocalRequestId i)) w = rbind (enum_index_ser 2 0 w) (u8_ser i)"
| "ror_id_ser (ResponseId (LocalResponseId i)) w = rbind (enum_index_ser 2 1 w) (u8_ser i)"

definition ror_id_de :: "bit_reader \<Rightarrow> (local_request_or_response_id \<times> bit_reader) res" where
  "ror_id_de r =
     rbind (enum_index_de 2 r) (\<lambda>(variant, r).
     rbind (u8_de r) (\<lambda>(i, r).
     Inr (if variant = 0 then RequestId (LocalRequestId i) else ResponseId (LocalResponseId i), r)))"

definition ror_ser :: "request_or_response \<Rightarrow> bit_write \<Rightarrow> bit_write res" where
  "ror_ser m w = rbind (ror_id_ser (ror_id m) w) (bytes_ser (ror_bytes m))"

definition ror_de :: "bit_reader \<Rightarrow> (request_or_response \<times> bit_reader) res" where
  "ror_de r = rbind (ror_id_de r) (\<lambda>(i, r). rbind (bytes_de r) (\<lambda>(bytes, r). Inr (\<lparr> ror_id = i, ror_bytes = bytes \<rparr>, r)))"

section \<open>Messages\<close>

text \<open>A \<^verbatim>\<open>MessageContainer\<close> holds a fragment, a request or response, or a message of the application.\<close>

datatype 'm message = Fragment fragmented_message | Request_Or_Response request_or_response | Application 'm

datatype 'k message_kind = FragmentedMessageKind | RequestOrResponseKind | Application_Kind 'k

fun is_fragment :: "'m message \<Rightarrow> bool" where
  "is_fragment (Fragment _) = True"
| "is_fragment _ = False"

fun is_request_or_response :: "'m message \<Rightarrow> bool" where
  "is_request_or_response (Request_Or_Response _) = True"
| "is_request_or_response _ = False"

text \<open>What the derive macro generates for the messages of the application.\<close>

record ('k, 'm) message_types =
  mt_kind :: "'m \<Rightarrow> 'k"
  mt_ser :: "'m \<Rightarrow> bit_write \<Rightarrow> bit_write res"
  mt_de :: "'k \<Rightarrow> bit_reader \<Rightarrow> ('m \<times> bit_reader) res"
  mt_bit_length :: "'m \<Rightarrow> nat res"

fun message_kind_of :: "('k, 'm) message_types \<Rightarrow> 'm message \<Rightarrow> 'k message_kind" where
  "message_kind_of mt (Fragment _) = FragmentedMessageKind"
| "message_kind_of mt (Request_Or_Response _) = RequestOrResponseKind"
| "message_kind_of mt (Application m) = Application_Kind (mt_kind mt m)"

type_synonym ('k, 'm) message_builder = "bit_reader \<Rightarrow> ('m message \<times> bit_reader) res"

type_synonym ('k, 'm) message_kinds = "('k message_kind, ('k, 'm) message_builder) kinds"

fun message_fields_ser :: "('k, 'm) message_types \<Rightarrow> 'm message \<Rightarrow> bit_write \<Rightarrow> bit_write res" where
  "message_fields_ser mt (Fragment f) w = fm_ser f w"
| "message_fields_ser mt (Request_Or_Response r) w = ror_ser r w"
| "message_fields_ser mt (Application m) w = mt_ser mt m w"

definition message_write ::
    "('k, 'm) message_types \<Rightarrow> ('k, 'm) message_kinds \<Rightarrow> 'm message \<Rightarrow> bit_write \<Rightarrow> bit_write res" where
  "message_write mt ks m w = rbind (kind_ser ks (message_kind_of mt m) w) (message_fields_ser mt m)"

definition message_read :: "('k, 'm) message_kinds \<Rightarrow> bit_reader \<Rightarrow> ('m message \<times> bit_reader) res" where
  "message_read ks r = kinds_read ks r"

text \<open>\<^verbatim>\<open>create_builder\<close> of a type: the builder reads the fields and wraps the result.\<close>

definition builder_of :: "(bit_reader \<Rightarrow> ('a \<times> bit_reader) res) \<Rightarrow> ('a \<Rightarrow> 'm message) \<Rightarrow> ('k, 'm) message_builder" where
  "builder_of de wrap r = rbind (de r) (\<lambda>(x, r). Inr (wrap x, r))"

fun create_builder :: "('k, 'm) message_types \<Rightarrow> 'k message_kind \<Rightarrow> ('k, 'm) message_builder" where
  "create_builder mt FragmentedMessageKind = builder_of fm_de Fragment"
| "create_builder mt RequestOrResponseKind = builder_of ror_de Request_Or_Response"
| "create_builder mt (Application_Kind k) = builder_of (mt_de mt k) Application"

definition add_message ::
    "('k, 'm) message_types \<Rightarrow> 'k message_kind \<Rightarrow> string \<Rightarrow> ('k, 'm) message_kinds \<Rightarrow> ('k, 'm) message_kinds res" where
  "add_message mt kind name ks = kinds_add kind (create_builder mt kind) name ks"

section \<open>Bit lengths\<close>

definition fm_bit_length :: "fragmented_message \<Rightarrow> nat res" where
  "fm_bit_length m = rbind (bytes_bit_length (fm_bytes m)) (\<lambda>n.
     Inr (FRAGMENT_ID_BITS + FRAGMENT_INDEX_BITS + FRAGMENT_INDEX_BITS + n))"

definition ror_bit_length :: "request_or_response \<Rightarrow> nat res" where
  "ror_bit_length m = rbind (bytes_bit_length (ror_bytes m)) (\<lambda>n. Inr (bits_needed_for 2 + 8 + n))"

fun message_bit_length :: "('k, 'm) message_types \<Rightarrow> ('k, 'm) message_kinds \<Rightarrow> 'm message \<Rightarrow> nat res" where
  "message_bit_length mt ks (Fragment f) = rbind (fm_bit_length f) (\<lambda>n. Inr (kind_bit_width ks + n))"
| "message_bit_length mt ks (Request_Or_Response r) = rbind (ror_bit_length r) (\<lambda>n. Inr (kind_bit_width ks + n))"
| "message_bit_length mt ks (Application m) = rbind (mt_bit_length mt m) (\<lambda>n. Inr (kind_bit_width ks + n))"

section \<open>Round trips\<close>

text \<open>A field of \<^verbatim>\<open>UnsignedInteger<bits>\<close>.\<close>

definition uint_enc :: "nat \<Rightarrow> 'a :: len word \<Rightarrow> bool list" where
  "uint_enc b x = sn_enc (sn_new_unchecked False False b 0 (uint x))"

lemma length_uint_enc [simp]: "length (uint_enc b x) = b"
  by (simp add: uint_enc_def sn_enc_def sn_new_unchecked_def)

lemma uint_field:
  fixes x :: "'a :: len word"
  assumes b: "0 < b" "b \<le> 32" and x: "uint x < 2 ^ b"
  shows "sink.writes (\<lambda>w. rbind (si_new False False b (uint x)) (\<lambda>integer. si_ser integer w)) (uint_enc b x)"
    and "reads (\<lambda>r. rbind (si_de False False b r) (\<lambda>(integer, r). Inr (of_int (si_get integer), r))) (uint_enc b x) x"
proof -
  let ?x = "sn_new_unchecked False False b 0 (uint x)"
  have num: "si_new False False b (uint x) = Inr ?x" using b x by (simp add: si_new_def sn_new_def)
  have v: "sn_ok ?x \<and> sn_signed ?x = False \<and> sn_variable ?x = False \<and> sn_bits ?x = b \<and> sn_fraction_digits ?x = 0"
    using b x by (simp add: sn_ok_def sn_new_unchecked_def)
  show "sink.writes (\<lambda>w. rbind (si_new False False b (uint x)) (\<lambda>integer. si_ser integer w)) (uint_enc b x)"
    using integer_serde.ser_writes [OF v] by (simp add: num uint_enc_def)
  have "reads (si_de False False b) (uint_enc b x) ?x" unfolding uint_enc_def by (rule integer_serde.de_reads [OF v])
  from reads_bind [where g = "\<lambda>integer r. Inr (of_int (si_get integer), r)", OF this, of "[]" x]
  show "reads (\<lambda>r. rbind (si_de False False b r) (\<lambda>(integer, r). Inr (of_int (si_get integer), r))) (uint_enc b x) x"
    by (simp add: si_get_def sn_get_def sn_new_unchecked_def reads_return)
qed

definition fm_valid :: "fragmented_message \<Rightarrow> bool" where
  "fm_valid m \<longleftrightarrow> uint (fm_id m) < 2 ^ 10 \<and> uint (fm_index m) < 2 ^ 20 \<and> uint (fm_total m) < 2 ^ 20 \<and> length (fm_bytes m) < 2 ^ 63"

definition bytes_enc :: "u8 list \<Rightarrow> bool list" where
  "bytes_enc bytes = len_enc 9 (length bytes) @ bytes_bits bytes"

definition fm_enc :: "fragmented_message \<Rightarrow> bool list" where
  "fm_enc m = uint_enc 10 (fm_id m) @ uint_enc 20 (fm_index m) @ uint_enc 20 (fm_total m) @ bytes_enc (fm_bytes m)"

lemmas fragment_field_defs = fragment_id_ser_def fragment_id_de_def fragment_index_ser_def fragment_index_de_def
  FRAGMENT_ID_BITS_def FRAGMENT_INDEX_BITS_def

lemma fragment_fields:
  "uint i < 2 ^ 10 \<Longrightarrow> sink.writes (fragment_id_ser i) (uint_enc 10 i)"
  "uint i < 2 ^ 10 \<Longrightarrow> reads fragment_id_de (uint_enc 10 i) i"
  "uint n < 2 ^ 20 \<Longrightarrow> sink.writes (fragment_index_ser n) (uint_enc 20 n)"
  "uint n < 2 ^ 20 \<Longrightarrow> reads fragment_index_de (uint_enc 20 n) n"
  using uint_field [of 10 i] uint_field [of 20 n] by (simp_all add: fragment_field_defs [abs_def])

interpretation fragment_codec: codec fm_ser fm_de fm_enc fm_valid
proof
  fix m assume v: "fm_valid m"
  note s = fragment_fields(1) [of "fm_id m"] fragment_fields(3) [of "fm_index m"] fragment_fields(3) [of "fm_total m"]
  show "sink.writes (fm_ser m) (fm_enc m)"
    unfolding fm_ser_def [abs_def] fm_enc_def bytes_enc_def
    by (intro sink.writes_bind bytes_serde.ser_writes s) (use v in \<open>simp_all add: fm_valid_def\<close>)
  have b: "reads bytes_de (bytes_enc (fm_bytes m)) (fm_bytes m)"
    unfolding bytes_enc_def by (rule bytes_serde.de_reads) (use v in \<open>simp add: fm_valid_def\<close>)
  have "reads fm_de (uint_enc 10 (fm_id m) @ uint_enc 20 (fm_index m) @ uint_enc 20 (fm_total m) @ bytes_enc (fm_bytes m) @ []) m"
    unfolding fm_de_def
    apply (rule reads_bind [OF fragment_fields(2)], use v in \<open>simp add: fm_valid_def\<close>)
    apply (rule reads_bind [OF fragment_fields(4)], use v in \<open>simp add: fm_valid_def\<close>)
    apply (rule reads_bind [OF fragment_fields(4)], use v in \<open>simp add: fm_valid_def\<close>)
    apply (rule reads_bind [OF b])
    by (cases m) (simp add: reads_return)
  then show "reads fm_de (fm_enc m) m" by (simp add: fm_enc_def)
qed

fun ror_id_enc :: "local_request_or_response_id \<Rightarrow> bool list" where
  "ror_id_enc (RequestId (LocalRequestId i)) = enum_enc 2 0 @ byte_bits i"
| "ror_id_enc (ResponseId (LocalResponseId i)) = enum_enc 2 1 @ byte_bits i"

lemma enum2_laws: "serde (enum_index_ser 2) (enum_index_de 2) (\<lambda>_. Inr (bits_needed_for 2)) (enum_enc 2) (\<lambda>i. i < 2)"
  by (rule enum_serde_laws) simp

interpretation ror_id_codec: codec ror_id_ser ror_id_de ror_id_enc "\<lambda>_. True"
proof
  fix x
  note codec = serde.axioms(1) [OF enum2_laws]
  have w: "sink.writes (\<lambda>w. rbind (enum_index_ser 2 v w) (u8_ser i)) (enum_enc 2 v @ byte_bits i)" if "v < 2" for v i
    by (rule sink.writes_bind [OF codec.ser_writes [OF codec that] u8_serde.ser_writes [OF TrueI]])
  have e: "ror_id_ser (RequestId (LocalRequestId i)) = (\<lambda>w. rbind (enum_index_ser 2 0 w) (u8_ser i))"
    "ror_id_ser (ResponseId (LocalResponseId i)) = (\<lambda>w. rbind (enum_index_ser 2 1 w) (u8_ser i))" for i
    by (rule ext, simp)+
  show "sink.writes (ror_id_ser x) (ror_id_enc x)"
    by (cases x rule: ror_id_enc.cases) (simp_all only: e ror_id_enc.simps, simp_all add: w)
  have "reads ror_id_de (enum_enc 2 v @ byte_bits i @ [])
      (if v = 0 then RequestId (LocalRequestId i) else ResponseId (LocalResponseId i))" if "v < 2" for v i
    unfolding ror_id_de_def
    apply (rule reads_bind [OF codec.de_reads [OF codec that]])
    apply (rule reads_bind [OF u8_serde.de_reads [OF TrueI]])
    by (rule reads_return)
  from this [of 0] this [of 1] show "reads ror_id_de (ror_id_enc x) x"
    by (cases x rule: ror_id_enc.cases) simp_all
qed

definition ror_enc :: "request_or_response \<Rightarrow> bool list" where
  "ror_enc m = ror_id_enc (ror_id m) @ bytes_enc (ror_bytes m)"

interpretation ror_codec: codec ror_ser ror_de ror_enc "\<lambda>m. length (ror_bytes m) < 2 ^ 63"
proof
  fix m :: request_or_response assume v: "length (ror_bytes m) < 2 ^ 63"
  show "sink.writes (ror_ser m) (ror_enc m)"
    unfolding ror_ser_def [abs_def] ror_enc_def bytes_enc_def
    by (intro sink.writes_bind bytes_serde.ser_writes ror_id_codec.ser_writes v TrueI)
  have b: "reads bytes_de (bytes_enc (ror_bytes m)) (ror_bytes m)"
    unfolding bytes_enc_def by (rule bytes_serde.de_reads [OF v])
  have "reads ror_de (ror_id_enc (ror_id m) @ bytes_enc (ror_bytes m) @ []) m"
    unfolding ror_de_def
    apply (rule reads_bind [OF ror_id_codec.de_reads [OF TrueI]])
    apply (rule reads_bind [OF b])
    by (cases m) (simp add: reads_return)
  then show "reads ror_de (ror_enc m) m" by (simp add: ror_enc_def)
qed

text \<open>The contract of the application's message types: what one writes, the builder of its kind reads.\<close>

definition message_types_ok :: "('k, 'm) message_types \<Rightarrow> ('m \<Rightarrow> bool list) \<Rightarrow> ('m \<Rightarrow> bool) \<Rightarrow> bool" where
  "message_types_ok mt enc valid \<longleftrightarrow> (\<forall>m. valid m \<longrightarrow>
     sink.writes (mt_ser mt m) (enc m) \<and> reads (mt_de mt (mt_kind mt m)) (enc m) m \<and>
     mt_bit_length mt m = Inr (length (enc m)))"

definition message_kinds_ok :: "('k, 'm) message_types \<Rightarrow> ('k, 'm) message_kinds \<Rightarrow> bool" where
  "message_kinds_ok mt ks \<longleftrightarrow> kinds_ok ks \<and>
     (\<forall>kind n b name. map_of (kind_map ks) kind = Some (n, b, name) \<longrightarrow> b = create_builder mt kind)"

lemma message_kinds_ok_new: "message_kinds_ok mt kinds_new"
  using kinds_ok_new by (auto simp: message_kinds_ok_def kinds_new_def)

lemma add_message_ok:
  "message_kinds_ok mt ks \<Longrightarrow> add_message mt kind name ks = Inr ks' \<Longrightarrow> message_kinds_ok mt ks'"
  using kinds_add_ok [of ks kind "create_builder mt kind" name ks']
  by (auto simp: message_kinds_ok_def add_message_def split: if_splits)

fun fields_enc :: "('m \<Rightarrow> bool list) \<Rightarrow> 'm message \<Rightarrow> bool list" where
  "fields_enc enc (Fragment f) = fm_enc f"
| "fields_enc enc (Request_Or_Response r) = ror_enc r"
| "fields_enc enc (Application m) = enc m"

fun fields_valid :: "('m \<Rightarrow> bool) \<Rightarrow> 'm message \<Rightarrow> bool" where
  "fields_valid valid (Fragment f) = fm_valid f"
| "fields_valid valid (Request_Or_Response r) = (length (ror_bytes r) < 2 ^ 63)"
| "fields_valid valid (Application m) = valid m"

definition message_enc ::
    "('k, 'm) message_types \<Rightarrow> ('k, 'm) message_kinds \<Rightarrow> ('m \<Rightarrow> bool list) \<Rightarrow> 'm message \<Rightarrow> bool list" where
  "message_enc mt ks enc m = kind_enc ks (message_kind_of mt m) @ fields_enc enc m"

definition message_valid :: "('k, 'm) message_types \<Rightarrow> ('k, 'm) message_kinds \<Rightarrow> ('m \<Rightarrow> bool) \<Rightarrow> 'm message \<Rightarrow> bool" where
  "message_valid mt ks valid m \<longleftrightarrow> registered ks (message_kind_of mt m) \<and> fields_valid valid m"

lemma builder_of_reads: "reads de bs x \<Longrightarrow> reads (builder_of de wrap) bs (wrap x)"
  using reads_bind [where g = "\<lambda>x r. Inr (wrap x, r)", of de bs x "[]" "wrap x"]
  by (simp add: builder_of_def [abs_def] reads_return)

lemma message_codec:
  assumes mt: "message_types_ok mt enc valid" and ks: "message_kinds_ok mt ks"
  shows "codec (message_write mt ks) (message_read ks) (message_enc mt ks enc) (message_valid mt ks valid)"
proof
  fix m assume m: "message_valid mt ks valid m"
  let ?kind = "message_kind_of mt m"
  have c: "codec (kind_ser ks) (kind_de ks) (kind_enc ks) (registered ks)"
    using ks by (intro kinds_codec) (simp add: message_kinds_ok_def)
  have reg: "registered ks ?kind" and v: "fields_valid valid m" using m by (simp_all add: message_valid_def)
  have e: "message_fields_ser mt (Fragment f) = fm_ser f" "message_fields_ser mt (Request_Or_Response r) = ror_ser r"
      "message_fields_ser mt (Application a) = mt_ser mt a" for f r a
    by (rule ext, simp)+
  have f: "sink.writes (message_fields_ser mt m) (fields_enc enc m)"
    using v mt fragment_codec.ser_writes ror_codec.ser_writes
    by (cases m) (auto simp: e message_types_ok_def)
  show "sink.writes (message_write mt ks m) (message_enc mt ks enc m)"
    unfolding message_write_def [abs_def] message_enc_def
    by (rule sink.writes_bind [OF codec.ser_writes [OF c reg] f])
  have b: "reads (create_builder mt ?kind) (fields_enc enc m) m"
    using v mt fragment_codec.de_reads ror_codec.de_reads
    by (cases m) (auto simp: message_types_ok_def intro: builder_of_reads)
  have "kind_to_builder ks ?kind = Inr (create_builder mt ?kind)"
    using reg ks by (auto simp: registered_def kind_to_builder_def message_kinds_ok_def)
  with b reads_bind [where g = "\<lambda>kind r. rbind (kind_to_builder ks kind) (\<lambda>builder. builder r)",
      OF codec.de_reads [OF c reg], of "fields_enc enc m" m]
  show "reads (message_read ks) (message_enc mt ks enc m) m"
    by (simp add: message_read_def [abs_def] kinds_read_def message_enc_def)
qed

end
