(* ===== verification/Fragmentation.thy ===== *)
theory Fragmentation
  imports Message_Kinds
begin

text \<open>
  \<^verbatim>\<open>MessageFragmenter\<close> of \<^verbatim>\<open>shared/src/messages/channels/senders/message_fragmenter.rs\<close> and
  \<^verbatim>\<open>receivers/fragment_receiver.rs\<close>: a message that is too long for a packet is cut into fragments, and the
  fragments, in whatever order they arrive, are put together again.
\<close>

section \<open>Cutting\<close>

record message_fragmenter =
  current_fragment_id :: fragment_id

definition fragmenter_new :: message_fragmenter where
  "fragmenter_new = \<lparr> current_fragment_id = 0 \<rparr>"

fun on_fragmenter :: "(bit_write \<Rightarrow> bit_write res) \<Rightarrow> fragment_writer \<Rightarrow> fragment_writer res" where
  "on_fragmenter f w = rbind (f (Fragmenter w)) (\<lambda>v. case v of Fragmenter w \<Rightarrow> Inr w | _ \<Rightarrow> Inl Diverges)"

definition fragment_message ::
    "('k, 'm) message_types \<Rightarrow> ('k, 'm) message_kinds \<Rightarrow> 'm message \<Rightarrow> message_fragmenter \<Rightarrow>
     ('m message list \<times> message_fragmenter) res" where
  "fragment_message mt ks message mf =
     (let fragmenter = fw_new (current_fragment_id mf);
          mf = mf \<lparr> current_fragment_id := fragment_id_increment (current_fragment_id mf) \<rparr>
      in rbind (on_fragmenter (message_write mt ks message) fragmenter) (\<lambda>fragmenter.
         rbind (fw_to_messages fragmenter) (\<lambda>messages. Inr (map Fragment messages, mf))))"

section \<open>Putting together\<close>

text \<open>The fragments received, the first message index with the number of fragments, the data.\<close>

type_synonym fragment_entry = "nat \<times> (u16 \<times> nat) option \<times> u8 list list"

type_synonym fragment_receiver = "fragment_id \<rightharpoonup> fragment_entry"

definition u16_checked_add :: "u16 \<Rightarrow> u16 \<Rightarrow> u16 res" where
  "u16_checked_add a b = (if unat a + unat b < 2 ^ 16 then Inr (a + b) else Inl (Panic ''attempt to add with overflow''))"

definition u16_checked_sub :: "u16 \<Rightarrow> u16 \<Rightarrow> u16 res" where
  "u16_checked_sub a b = (if b \<le> a then Inr (a - b) else Inl (Panic ''attempt to subtract with overflow''))"

text \<open>The last part of \<^verbatim>\<open>receive\<close>, when the map no longer holds the entry.\<close>

definition fr_complete ::
    "('k, 'm) message_kinds \<Rightarrow> (u16 \<times> nat) option \<Rightarrow> u8 list list \<Rightarrow> (u16 \<times> u16 \<times> 'm message) option res" where
  "fr_complete ks first_index_opt fragment_list =
     (case first_index_opt of
        None \<Rightarrow> Inl (Panic ''called `Option::unwrap()` on a `None` value'')
      | Some (first_message_index, fragment_count) \<Rightarrow>
          (case message_read ks (br_new (concat fragment_list)) of
             Inl SerdeErr \<Rightarrow> Inr None
           | Inl e \<Rightarrow> Inl e
           | Inr (full_message, _) \<Rightarrow>
               rbind (u16_checked_add first_message_index (of_nat fragment_count)) (\<lambda>n.
               rbind (u16_checked_sub n 1) (\<lambda>end_message_index.
               Inr (Some (first_message_index, end_message_index, full_message))))))"

definition fr_receive ::
    "('k, 'm) message_kinds \<Rightarrow> u16 \<Rightarrow> 'm message \<Rightarrow> fragment_receiver \<Rightarrow>
     ((u16 \<times> u16 \<times> 'm message) option \<times> fragment_receiver) res" where
  "fr_receive ks message_index message fr =
     (case message of
        Fragment fragment \<Rightarrow>
          (let fragment_total = unat (fm_total fragment);
               (fragments_received, first_message_id_opt, fragment_list) =
                 (case fr (fm_id fragment) of
                    None \<Rightarrow> (0, None, replicate fragment_total [])
                  | Some entry \<Rightarrow> entry)
           in rbind
                (if fm_index fragment = 0 then
                   (if first_message_id_opt \<noteq> None
                    then Inl (Panic ''Received first fragment of message that already has a first fragment!'')
                    else Inr (Some (message_index, fragment_total)))
                 else Inr first_message_id_opt) (\<lambda>first_message_id_opt.
              if \<not> unat (fm_index fragment) < length fragment_list then Inl (Panic ''index out of bounds'')
              else
                (let fragment_list = fragment_list[unat (fm_index fragment) := fm_bytes fragment];
                     fragments_received = fragments_received + 1
                 in if fragments_received \<noteq> fragment_total
                    then Inr (None, fr(fm_id fragment \<mapsto> (fragments_received, first_message_id_opt, fragment_list)))
                    else rbind (fr_complete ks first_message_id_opt fragment_list) (\<lambda>output.
                      Inr (output, fr(fm_id fragment := None))))))
      | _ \<Rightarrow> Inl (Panic ''Received non-fragmented message in FragmentReceiver!''))"

section \<open>Fragments of a message\<close>

lemma fragment_message_ok:
  assumes mt: "message_types_ok mt enc valid" and ks: "message_kinds_ok mt ks" and m: "message_valid mt ks valid m"
    and len: "length (message_enc mt ks enc m) < (2 ^ 20 - 1) * FRAGMENTATION_LIMIT_BITS"
  shows "\<exists>ms. fragment_message mt ks m mf =
      Inr (map Fragment ms, mf \<lparr> current_fragment_id := fragment_id_increment (current_fragment_id mf) \<rparr>) \<and>
    is_fragments (current_fragment_id mf) (message_enc mt ks enc m) ms"
proof -
  let ?fw = "fw_new (current_fragment_id mf)" and ?bs = "message_enc mt ks enc m"
  have "length ?bs \<le> fw_free ?fw" using len length_fw_bits(2) [OF fw_new_ok(1)] by (simp add: fw_new_ok fragment_simps)
  then obtain fw where fw: "message_write mt ks m (Fragmenter ?fw) = Inr (Fragmenter fw)" "fw_ok fw" "fw_extends ?fw ?bs fw"
    using writes_Fragmenter [OF codec.ser_writes [OF message_codec [OF mt ks] m] fw_new_ok(1)] by blast
  then have b: "fw_bits fw = ?bs" "fw_fragment_id fw = current_fragment_id mf" by (simp_all add: fw_extends_def fw_new_ok)
  have "unat (fw_current_fragment_index fw) + 1 < 2 ^ 20"
    using length_fw_bits(1) [OF fw(2)] b(1) len by (simp add: fragment_simps)
  then obtain ms where "fw_to_messages fw = Inr ms" "is_fragments (current_fragment_id mf) ?bs ms"
    using fw_to_messages_ok [OF fw(2)] b by auto
  then show ?thesis using fw(1) by (auto simp: fragment_message_def)
qed

lemma is_fragmentsD:
  assumes "is_fragments i bs ms" "k < length ms"
  shows "fm_id (ms ! k) = i" "unat (fm_index (ms ! k)) = k" "fm_index (ms ! k) = 0 \<longleftrightarrow> k = 0" "unat (fm_total (ms ! k)) = length ms"
proof -
  have n: "length ms < 2 ^ 20" and e: "fm_id (ms ! k) = i" "fm_index (ms ! k) = of_nat k" "fm_total (ms ! k) = of_nat (length ms)"
    using assms by (simp_all add: is_fragments_def)
  have u: "unat (of_nat j :: u32) = j" if "j < 2 ^ 20" for j
    using that by (simp add: unsigned_of_nat take_bit_nat_eq_self)
  show "fm_id (ms ! k) = i" "unat (fm_index (ms ! k)) = k" "unat (fm_total (ms ! k)) = length ms"
    using e n u [of k] u [of "length ms"] assms(2) by simp_all
  then show "fm_index (ms ! k) = 0 \<longleftrightarrow> k = 0" by (metis unat_0_iff)
qed

section \<open>Receiving the fragments\<close>

text \<open>The entry of the receiver when the fragments with the indices \<open>js\<close> have arrived.\<close>

definition entry_of :: "u16 \<Rightarrow> fragmented_message list \<Rightarrow> nat list \<Rightarrow> fragment_entry" where
  "entry_of s ms js = (length js, if 0 \<in> set js then Some (s, length ms) else None,
     map (\<lambda>j. if j \<in> set js then fm_bytes (ms ! j) else []) [0..<length ms])"

lemma entry_of_step:
  "k < length ms \<Longrightarrow> k \<notin> set js \<Longrightarrow>
   entry_of s ms (js @ [k]) = (case entry_of s ms js of (n, first, data) \<Rightarrow>
     (n + 1, if k = 0 then Some (s, length ms) else first, data[k := fm_bytes (ms ! k)]))"
proof -
  assume k: "k < length ms" "k \<notin> set js"
  have "map (\<lambda>j. if j \<in> set (js @ [k]) then fm_bytes (ms ! j) else []) [0..<length ms] =
      (map (\<lambda>j. if j \<in> set js then fm_bytes (ms ! j) else []) [0..<length ms])[k := fm_bytes (ms ! k)]"
    by (rule nth_equalityI) (use k in \<open>auto simp: nth_list_update\<close>)
  with k show ?thesis by (simp add: entry_of_def)
qed

definition waiting :: "fragment_id \<Rightarrow> u16 \<Rightarrow> fragmented_message list \<Rightarrow> nat list \<Rightarrow> fragment_receiver \<Rightarrow> fragment_receiver" where
  "waiting i s ms js fr = fr(i := if js = [] then None else Some (entry_of s ms js))"

lemma fr_receive_step:
  assumes ms: "is_fragments i bs ms" and k: "k < length ms" "k \<notin> set js"
  shows "fr_receive ks (s + of_nat k) (Fragment (ms ! k)) (waiting i s ms js fr) =
    (if length js + 1 \<noteq> length ms then Inr (None, waiting i s ms (js @ [k]) fr)
     else rbind (fr_complete ks (fst (snd (entry_of s ms (js @ [k])))) (snd (snd (entry_of s ms (js @ [k])))))
       (\<lambda>output. Inr (output, fr(i := None))))"
proof -
  note f = is_fragmentsD [OF ms k(1)]
  have e: "(case waiting i s ms js fr i of None \<Rightarrow> (0, None, replicate (length ms) []) | Some entry \<Rightarrow> entry) = entry_of s ms js"
    by (auto simp: waiting_def entry_of_def map_replicate_trivial)
  obtain n first data where d: "entry_of s ms js = (n, first, data)" by (cases "entry_of s ms js")
  then have n: "n = length js" "length data = length ms" "k = 0 \<Longrightarrow> first = None" using k(2) by (auto simp: entry_of_def)
  have st: "entry_of s ms (js @ [k]) = (n + 1, if k = 0 then Some (s, length ms) else first, data[k := fm_bytes (ms ! k)])"
    using entry_of_step [OF k] d by simp
  show ?thesis
    using e k(1) n unfolding fr_receive_def by (simp add: f d Let_def) (use st in \<open>auto simp: waiting_def\<close>)
qed

lemma fr_complete_ok:
  assumes mt: "message_types_ok mt enc valid" and ks: "message_kinds_ok mt ks" and m: "message_valid mt ks valid m"
    and ms: "is_fragments i (message_enc mt ks enc m) ms" and js: "set js = {..<length ms}"
    and wrap: "unat s + length ms < 2 ^ 16"
  shows "fr_complete ks (fst (snd (entry_of s ms js))) (snd (snd (entry_of s ms js))) =
    Inr (Some (s, s + of_nat (length ms - 1), m))"
proof -
  obtain pad where "fragments_bits ms = message_enc mt ks enc m @ pad" using ms by (auto simp: is_fragments_def)
  moreover have "map (\<lambda>j. if j \<in> set js then fm_bytes (ms ! j) else []) [0..<length ms] = map fm_bytes ms"
    by (rule nth_equalityI) (auto simp: js)
  moreover have "bytes_bits (concat (map fm_bytes ms)) = fragments_bits ms"
    by (induction ms) (simp_all add: fragments_bits_def)
  ultimately have b: "br_bits (br_new (concat (snd (snd (entry_of s ms js))))) = message_enc mt ks enc m @ pad"
    by (simp add: entry_of_def br_new_ok)
  from readsD [OF codec.de_reads [OF message_codec [OF mt ks] m] br_new_ok(1) b]
  obtain r where r: "message_read ks (br_new (concat (snd (snd (entry_of s ms js))))) = Inr (m, r)" by blast
  have "0 < length ms" using ms by (auto simp: is_fragments_def)
  then have f: "fst (snd (entry_of s ms js)) = Some (s, length ms)" using js by (auto simp: entry_of_def)
  have u: "unat (of_nat (length ms) :: u16) = length ms" using wrap by (simp add: unsigned_of_nat take_bit_nat_eq_self)
  have "unat (s + of_nat (length ms)) = unat s + length ms" using wrap u by (simp add: unat_word_ariths(1))
  moreover have "1 \<le> unat s + length ms" using \<open>0 < length ms\<close> by linarith
  ultimately have "1 \<le> s + of_nat (length ms)" by (simp add: word_le_nat_alt)
  moreover have "s + of_nat (length ms) - 1 = s + of_nat (length ms - 1)" using \<open>0 < length ms\<close> by (cases ms) simp_all
  ultimately show ?thesis
    using r f u wrap by (simp add: fr_complete_def u16_checked_add_def u16_checked_sub_def)
qed

text \<open>A run of the receiver, with its outputs.\<close>

fun receive_all ::
    "('k, 'm) message_kinds \<Rightarrow> (u16 \<times> 'm message) list \<Rightarrow> fragment_receiver \<Rightarrow>
     ((u16 \<times> u16 \<times> 'm message) option list \<times> fragment_receiver) res" where
  "receive_all ks [] fr = Inr ([], fr)"
| "receive_all ks ((i, m) # ms) fr =
     rbind (fr_receive ks i m fr) (\<lambda>(out, fr). rbind (receive_all ks ms fr) (\<lambda>(outs, fr). Inr (out # outs, fr)))"

lemma receive_all_rest:
  assumes mt: "message_types_ok mt enc valid" and ks: "message_kinds_ok mt ks" and m: "message_valid mt ks valid m"
    and ms: "is_fragments i (message_enc mt ks enc m) ms"
    and perm: "distinct (js @ order)" "set (js @ order) = {..<length ms}" "order \<noteq> []"
    and wrap: "unat s + length ms < 2 ^ 16" and free: "fr i = None"
  shows "receive_all ks (map (\<lambda>k. (s + of_nat k, Fragment (ms ! k))) order) (waiting i s ms js fr) =
    Inr (replicate (length order - 1) None @ [Some (s, s + of_nat (length ms - 1), m)], fr)"
  using perm
proof (induction order arbitrary: js)
  case Nil
  then show ?case by simp
next
  case (Cons k order)
  have k: "k < length ms" "k \<notin> set js" using Cons.prems(1,2) by auto
  have card: "length (js @ k # order) = length ms"
    using Cons.prems(1,2) distinct_card by (metis card_lessThan)
  note step = fr_receive_step [OF ms k, of ks s fr]
  show ?case
  proof (cases order)
    case Nil
    have "set (js @ [k]) = {..<length ms}" using Cons.prems(2) Nil by simp
    then have "fr_complete ks (fst (snd (entry_of s ms (js @ [k])))) (snd (snd (entry_of s ms (js @ [k])))) =
        Inr (Some (s, s + of_nat (length ms - 1), m))"
      by (rule fr_complete_ok [OF mt ks m ms _ wrap])
    with step card Nil free show ?thesis by (simp add: fun_upd_idem)
  next
    case (Cons k' rest)
    have "receive_all ks (map (\<lambda>k. (s + of_nat k, Fragment (ms ! k))) order) (waiting i s ms (js @ [k]) fr) =
        Inr (replicate (length order - 1) None @ [Some (s, s + of_nat (length ms - 1), m)], fr)"
      using Cons.prems Cons by (intro Cons.IH) auto
    with step card Cons show ?thesis by simp
  qed
qed

section \<open>The registry of a protocol\<close>

text \<open>The two message types that \<^verbatim>\<open>Protocol::default\<close> registers.\<close>

definition default_message_kinds :: "('k, 'm) message_types \<Rightarrow> ('k, 'm) message_kinds res" where
  "default_message_kinds mt =
     rbind (add_message mt FragmentedMessageKind ''FragmentedMessage'' kinds_new) (add_message mt RequestOrResponseKind ''RequestOrResponse'')"

lemma default_message_kinds_with:
  "\<exists>ks. rbind (default_message_kinds mt) (add_message mt (Application_Kind k) name) = Inr ks \<and> message_kinds_ok mt ks \<and>
     registered ks FragmentedMessageKind \<and> registered ks RequestOrResponseKind \<and> registered ks (Application_Kind k)"
proof -
  obtain k1 where k1: "add_message mt FragmentedMessageKind ''FragmentedMessage'' kinds_new = Inr k1" "current_net_id k1 = 1"
    by (simp add: add_message_def kinds_add_def kinds_new_def)
  obtain k2 where k2: "add_message mt RequestOrResponseKind ''RequestOrResponse'' k1 = Inr k2" "current_net_id k2 = 2"
    using k1(2) by (simp add: add_message_def kinds_add_def)
  obtain k3 where k3: "add_message mt (Application_Kind k) name k2 = Inr k3"
    using k2(2) by (simp add: add_message_def kinds_add_def)
  note ok1 = add_message_ok [OF message_kinds_ok_new k1(1)]
  note ok2 = add_message_ok [OF ok1 k2(1)]
  note maps = kinds_add_ok(2) [OF kinds_ok_new k1(1) [unfolded add_message_def]] kinds_add_ok(2) [OF _ k2(1) [unfolded add_message_def]]
    kinds_add_ok(2) [OF _ k3 [unfolded add_message_def]]
  have "kinds_ok k1" "kinds_ok k2" using ok1 ok2 by (simp_all add: message_kinds_ok_def)
  with maps have "map_of (kind_map k3) FragmentedMessageKind \<noteq> None"
      "map_of (kind_map k3) RequestOrResponseKind \<noteq> None" "map_of (kind_map k3) (Application_Kind k) \<noteq> None"
    by simp_all
  then show ?thesis using k1(1) k2(1) k3 add_message_ok [OF ok2 k3] by (simp add: default_message_kinds_def registered_def)
qed

text \<open>An example: a message type with one field of bytes.\<close>

definition byte_messages :: "(unit, u8 list) message_types" where
  "byte_messages = \<lparr> mt_kind = \<lambda>_. (), mt_ser = bytes_ser, mt_de = \<lambda>_. bytes_de, mt_bit_length = bytes_bit_length \<rparr>"

lemma byte_messages_ok: "message_types_ok byte_messages bytes_enc (\<lambda>bs. length bs < 2 ^ 63)"
  using bytes_serde.ser_writes bytes_serde.de_reads bytes_serde.bit_length_enc
  by (simp add: message_types_ok_def byte_messages_def bytes_enc_def)

lemma byte_messages_registered:
  "\<exists>ks. rbind (default_message_kinds byte_messages) (add_message byte_messages (Application_Kind ()) ''Text'') = Inr ks \<and>
     message_kinds_ok byte_messages ks \<and> registered ks FragmentedMessageKind \<and>
     (\<forall>bs. length bs < 2 ^ 63 \<longrightarrow> message_valid byte_messages ks (\<lambda>bs. length bs < 2 ^ 63) (Application bs) \<and>
       8 * length bs \<le> length (message_enc byte_messages ks bytes_enc (Application bs)) \<and>
       length (message_enc byte_messages ks bytes_enc (Application bs)) \<le> 8 * length bs + 336)"
proof -
  obtain ks where ks: "rbind (default_message_kinds byte_messages) (add_message byte_messages (Application_Kind ()) ''Text'') = Inr ks"
      "message_kinds_ok byte_messages ks" "registered ks FragmentedMessageKind" "registered ks (Application_Kind ())"
    using default_message_kinds_with [of byte_messages "()" "''Text''"] by blast
  obtain n where n: "net_id_map ks n = Some (Application_Kind ())"
    using ks(2,4) kinds_okD [of ks "Application_Kind ()"] by (auto simp: registered_def message_kinds_ok_def)
  have "kind_bit_width ks \<le> 16"
    by (rule net_id_bounds(2) [OF _ n]) (use ks(2) in \<open>simp add: message_kinds_ok_def\<close>)
  then have "length (kind_enc ks (Application_Kind ())) \<le> 16" by (auto simp: kind_enc_def split: option.split)
  moreover have "length (len_enc 9 n) \<le> 320" if "n < 2 ^ 63" for n
    unfolding len_enc_def by (rule length_sn_enc, rule len_number(2)) (use that in simp_all)
  ultimately have "8 * length bs \<le> length (message_enc byte_messages ks bytes_enc (Application bs)) \<and>
      length (message_enc byte_messages ks bytes_enc (Application bs)) \<le> 8 * length bs + 336" if "length bs < 2 ^ 63" for bs
    using that by (fastforce simp: message_enc_def bytes_enc_def byte_messages_def)
  with ks show ?thesis by (auto simp: message_valid_def byte_messages_def)
qed

section \<open>Properties\<close>



text \<open>
  A peer can crash the receiver with one fragment: a fragment whose index is not below its total is read from
  the wire like any other, and panics on the index into the list of fragments.
\<close>

theorem corrupt_fragment_panics:
  assumes "fm_valid f" "fm_total f \<le> fm_index f" "fr (fm_id f) = None"
  shows "reads fm_de (fm_enc f) f \<and> fr_receive ks i (Fragment f) fr = Inl (Panic ''index out of bounds'')"
  using assms fragment_codec.de_reads by (simp add: fr_receive_def word_le_nat_alt not_less)

theorem corrupt_fragment_panics_witness:
  "let f = \<lparr> fm_id = 3, fm_index = 2, fm_total = 2, fm_bytes = [1] \<rparr> in
   reads fm_de (fm_enc f) f \<and>
   fr_receive (kinds_new :: (unit, unit) message_kinds) 9 (Fragment f) Map.empty = Inl (Panic ''index out of bounds'')"
  unfolding Let_def by (rule corrupt_fragment_panics) (simp_all add: fm_valid_def)

end
