(* ===== verification/Protocol.thy ===== *)
theory Protocol
  imports Channels Fragmentation "HOL-Library.List_Lexorder" "HOL-Library.Char_ord"
begin

text \<open>
  \<^verbatim>\<open>shared/src/protocol.rs\<close> and \<^verbatim>\<open>world/resource/resource_kinds.rs\<close>: the protocol that a client and a server share, its
  registrations, and the protocol id that the handshake compares. The BLAKE3 hash is the argument \<open>blake3\<close>: it maps the
  bytes it has been fed to a digest. The settings of the socket, the tick interval and the compression are not part
  of the model; nothing here depends on them.
\<close>

section \<open>Resource kinds\<close>

text \<open>A \<^verbatim>\<open>HashSet\<close> that is iterated over: a list without repetitions.\<close>

type_synonym 'c resource_kinds = "'c list"

definition resource_register :: "'c \<Rightarrow> 'c resource_kinds \<Rightarrow> 'c resource_kinds" where
  "resource_register kind rk = (if kind \<in> set rk then rk else rk @ [kind])"

definition is_resource :: "'c resource_kinds \<Rightarrow> 'c \<Rightarrow> bool" where
  "is_resource rk kind = (kind \<in> set rk)"

section \<open>Protocols\<close>

text \<open>\<open>'h\<close>, \<open>'k\<close> and \<open>'c\<close> are the channel, message and component types of the application, \<open>'b\<close> a component's builder.\<close>

record ('h, 'k, 'm, 'c, 'b) protocol =
  channel_kinds :: "'h channel_kinds"
  message_kinds :: "('k, 'm) message_kinds"
  component_kinds :: "('c, 'b) kinds"
  resource_kinds :: "'c resource_kinds"
  client_authoritative_entities :: bool
  cached_protocol_id :: "u64 option"
  locked :: bool

definition protocol_default :: "('k, 'm) message_types \<Rightarrow> ('h, 'k, 'm, 'c, 'b) protocol res" where
  "protocol_default mt =
     rbind (default_message_kinds mt) (\<lambda>message_kinds.
       Inr \<lparr> channel_kinds = kinds_new, message_kinds = message_kinds, component_kinds = kinds_new,
             resource_kinds = [], client_authoritative_entities = False, cached_protocol_id = None, locked = False \<rparr>)"

definition check_lock :: "('h, 'k, 'm, 'c, 'b) protocol \<Rightarrow> unit res" where
  "check_lock p = (if locked p then Inl (Panic ''Protocol already locked!'') else Inr ())"

definition enable_client_authoritative_entities :: "('h, 'k, 'm, 'c, 'b) protocol \<Rightarrow> ('h, 'k, 'm, 'c, 'b) protocol res" where
  "enable_client_authoritative_entities p =
     rbind (check_lock p) (\<lambda>_. Inr (p \<lparr> client_authoritative_entities := True \<rparr>))"

definition add_channel_settings ::
    "'h channel_kind \<Rightarrow> string \<Rightarrow> channel_settings \<Rightarrow> ('h, 'k, 'm, 'c, 'b) protocol \<Rightarrow> ('h, 'k, 'm, 'c, 'b) protocol res" where
  "add_channel_settings kind name settings p =
     rbind (check_lock p) (\<lambda>_.
     rbind (kinds_add kind settings name (channel_kinds p)) (\<lambda>ks. Inr (p \<lparr> channel_kinds := ks \<rparr>)))"

definition add_channel ::
    "'h channel_kind \<Rightarrow> string \<Rightarrow> channel_direction \<Rightarrow> channel_mode \<Rightarrow> ('h, 'k, 'm, 'c, 'b) protocol \<Rightarrow>
     ('h, 'k, 'm, 'c, 'b) protocol res" where
  "add_channel kind name direction mode p =
     rbind (check_lock p) (\<lambda>_.
     rbind (cs_new mode direction) (\<lambda>settings.
     rbind (kinds_add kind settings name (channel_kinds p)) (\<lambda>ks. Inr (p \<lparr> channel_kinds := ks \<rparr>))))"

definition default_channels_build :: "('h, 'k, 'm, 'c, 'b) protocol \<Rightarrow> ('h, 'k, 'm, 'c, 'b) protocol res" where
  "default_channels_build p =
     rfold (\<lambda>(kind, name, direction, mode). add_channel kind name direction mode)
       [(UnorderedUnreliableChannel, ''UnorderedUnreliableChannel'', Bidirectional, UnorderedUnreliable),
        (SequencedUnreliableChannel, ''SequencedUnreliableChannel'', Bidirectional, SequencedUnreliable),
        (UnorderedReliableChannel, ''UnorderedReliableChannel'', Bidirectional, UnorderedReliable reliable_settings_default),
        (SequencedReliableChannel, ''SequencedReliableChannel'', Bidirectional, SequencedReliable reliable_settings_default),
        (OrderedReliableChannel, ''OrderedReliableChannel'', Bidirectional, OrderedReliable reliable_settings_default),
        (TickBufferedChannel, ''TickBufferedChannel'', ClientToServer, TickBuffered tick_buffer_settings_default)] p"

definition add_default_channels :: "('h, 'k, 'm, 'c, 'b) protocol \<Rightarrow> ('h, 'k, 'm, 'c, 'b) protocol res" where
  "add_default_channels p = rbind (check_lock p) (\<lambda>_. default_channels_build p)"

definition protocol_add_message ::
    "('k, 'm) message_types \<Rightarrow> 'k \<Rightarrow> string \<Rightarrow> ('h, 'k, 'm, 'c, 'b) protocol \<Rightarrow> ('h, 'k, 'm, 'c, 'b) protocol res" where
  "protocol_add_message mt kind name p =
     rbind (check_lock p) (\<lambda>_.
     rbind (add_message mt (Application_Kind kind) name (message_kinds p)) (\<lambda>ks. Inr (p \<lparr> message_kinds := ks \<rparr>)))"

definition protocol_add_request ::
    "('k, 'm) message_types \<Rightarrow> 'k \<Rightarrow> string \<Rightarrow> 'k \<Rightarrow> string \<Rightarrow> ('h, 'k, 'm, 'c, 'b) protocol \<Rightarrow>
     ('h, 'k, 'm, 'c, 'b) protocol res" where
  "protocol_add_request mt request name response response_name p =
     rbind (check_lock p) (\<lambda>_.
     rbind (add_message mt (Application_Kind request) name (message_kinds p)) (\<lambda>ks.
     rbind (add_message mt (Application_Kind response) response_name ks) (\<lambda>ks. Inr (p \<lparr> message_kinds := ks \<rparr>))))"

definition add_component ::
    "'c \<Rightarrow> 'b \<Rightarrow> string \<Rightarrow> ('h, 'k, 'm, 'c, 'b) protocol \<Rightarrow> ('h, 'k, 'm, 'c, 'b) protocol res" where
  "add_component kind builder name p =
     rbind (check_lock p) (\<lambda>_.
     rbind (kinds_add kind builder name (component_kinds p)) (\<lambda>ks. Inr (p \<lparr> component_kinds := ks \<rparr>)))"

definition add_resource ::
    "'c \<Rightarrow> 'b \<Rightarrow> string \<Rightarrow> ('h, 'k, 'm, 'c, 'b) protocol \<Rightarrow> ('h, 'k, 'm, 'c, 'b) protocol res" where
  "add_resource kind builder name p =
     rbind (check_lock p) (\<lambda>_.
     rbind (kinds_add kind builder name (component_kinds p)) (\<lambda>ks.
     Inr (p \<lparr> component_kinds := ks, resource_kinds := resource_register kind (resource_kinds p) \<rparr>)))"

section \<open>The protocol id\<close>

definition as_bytes :: "string \<Rightarrow> u8 list" where
  "as_bytes s = map of_char s"

definition all_names :: "('k, 'v) kinds \<Rightarrow> string list" where
  "all_names ks = sort (map (\<lambda>(_, _, _, name). name) (kind_map ks))"

text \<open>The bytes fed to the hasher.\<close>

definition hashed_bytes :: "('h, 'k, 'm, 'c, 'b) protocol \<Rightarrow> u8 list" where
  "hashed_bytes p =
     concat (map as_bytes (all_names (channel_kinds p))) @
     concat (map as_bytes (all_names (message_kinds p))) @
     concat (map as_bytes (all_names (component_kinds p))) @
     as_bytes ''naia:resources:'' @
     to_le_bytes (of_nat (length (resource_kinds p)) :: u32)"

definition compute_protocol_id :: "(u8 list \<Rightarrow> u8 list) \<Rightarrow> ('h, 'k, 'm, 'c, 'b) protocol \<Rightarrow> u64" where
  "compute_protocol_id blake3 p = from_le_bytes (take 8 (blake3 (hashed_bytes p)))"

definition lock :: "(u8 list \<Rightarrow> u8 list) \<Rightarrow> ('h, 'k, 'm, 'c, 'b) protocol \<Rightarrow> ('h, 'k, 'm, 'c, 'b) protocol res" where
  "lock blake3 p =
     rbind (check_lock p) (\<lambda>_. Inr (p \<lparr> cached_protocol_id := Some (compute_protocol_id blake3 p), locked := True \<rparr>))"

definition protocol_id :: "('h, 'k, 'm, 'c, 'b) protocol \<Rightarrow> u64 res" where
  "protocol_id p = (case cached_protocol_id p of
     None \<Rightarrow> Inl (Panic ''Protocol must be locked before calling protocol_id()'') | Some i \<Rightarrow> Inr i)"

section \<open>Names and order\<close>

lemma alist_insert_new: "k \<notin> fst ` set m \<Longrightarrow> alist_insert k v m = m @ [(k, v)]"
  by (induction m) auto

lemma kinds_add_new:
  assumes "k \<notin> fst ` set (kind_map ks)" "current_net_id ks \<noteq> - 1"
  shows "kinds_add k v name ks = Inr (ks \<lparr> kind_map := kind_map ks @ [(k, current_net_id ks, v, name)],
    net_id_map := (net_id_map ks)(current_net_id ks \<mapsto> k), current_net_id := current_net_id ks + 1,
    kind_bit_width := bit_width_for_kind_count (current_net_id ks + 1) \<rparr>)"
  using assms by (simp add: kinds_add_def Let_def alist_insert_new)

lemma sort_swap: "sort ((xs :: 'a :: linorder list) @ [a, b]) = sort (xs @ [b, a])"
proof -
  have "insort a [b] = insort b [a]" by auto
  then show ?thesis by (simp add: sort_key_def)
qed

text \<open>Two components registered in either order: the same names, the net ids swapped.\<close>

lemma swapped_kinds:
  assumes "k1 \<noteq> k2" "k1 \<notin> fst ` set (kind_map ks)" "k2 \<notin> fst ` set (kind_map ks)"
    and "unat (current_net_id ks) + 2 < 2 ^ 16"
  obtains ks1 ks2 where
    "rbind (kinds_add k1 v1 n1 ks) (kinds_add k2 v2 n2) = Inr ks1"
    "rbind (kinds_add k2 v2 n2 ks) (kinds_add k1 v1 n1) = Inr ks2"
    "all_names ks1 = all_names ks2" "kind_bit_width ks1 = kind_bit_width ks2"
    "kind_to_net_id ks1 k1 = Inr (current_net_id ks)" "net_id_to_kind ks2 (current_net_id ks) = Inr k2"
proof -
  let ?n = "current_net_id ks"
  have "unat (?n + 1) = unat ?n + 1" using assms(4) by (simp add: unat_word_ariths(1))
  then have n: "?n \<noteq> - 1" "?n + 1 \<noteq> - 1" "?n \<noteq> ?n + 1"
    using assms(4) by (auto simp: word_unat_eq_iff unsigned_minus_1_eq_mask mask_eq_exp_minus_1)
  let ?add = "\<lambda>k v name ks. ks \<lparr> kind_map := kind_map ks @ [(k, current_net_id ks, v, name)],
    net_id_map := (net_id_map ks)(current_net_id ks \<mapsto> k), current_net_id := current_net_id ks + 1,
    kind_bit_width := bit_width_for_kind_count (current_net_id ks + 1) \<rparr> :: ('k, 'v) kinds"
  have 1: "kinds_add k1 v1 n1 ks = Inr (?add k1 v1 n1 ks)" "kinds_add k2 v2 n2 ks = Inr (?add k2 v2 n2 ks)"
    using assms n by (simp_all add: kinds_add_new)
  have 2: "kinds_add k2 v2 n2 (?add k1 v1 n1 ks) = Inr (?add k2 v2 n2 (?add k1 v1 n1 ks))"
      "kinds_add k1 v1 n1 (?add k2 v2 n2 ks) = Inr (?add k1 v1 n1 (?add k2 v2 n2 ks))"
    using assms n by (simp_all add: kinds_add_new)
  have "map_of (kind_map ks) k1 = None" using assms(2) by (simp add: map_of_eq_None_iff)
  show thesis
    by (rule that [of "?add k2 v2 n2 (?add k1 v1 n1 ks)" "?add k1 v1 n1 (?add k2 v2 n2 ks)"])
      (use 1 2 n assms(1) \<open>map_of (kind_map ks) k1 = None\<close> in
        \<open>simp_all add: all_names_def sort_swap kind_to_net_id_def net_id_to_kind_def map_add_Some_iff map_add_def split: option.split\<close>)
qed

lemma add_two:
  assumes "rbind (kinds_add k1 b1 n1 (component_kinds p)) (kinds_add k2 b2 n2) = Inr ks" "\<not> locked p"
  shows "rbind (add_component k1 b1 n1 p) (add_component k2 b2 n2) = Inr (p \<lparr> component_kinds := ks \<rparr>)"
    and "rbind (add_resource k1 b1 n1 p) (add_component k2 b2 n2) =
      Inr (p \<lparr> component_kinds := ks, resource_kinds := resource_register k1 (resource_kinds p) \<rparr>)"
    and "rbind (add_component k1 b1 n1 p) (add_resource k2 b2 n2) =
      Inr (p \<lparr> component_kinds := ks, resource_kinds := resource_register k2 (resource_kinds p) \<rparr>)"
  using assms by (cases "kinds_add k1 b1 n1 (component_kinds p)"; simp add: add_component_def add_resource_def check_lock_def)+

section \<open>Properties\<close>

text \<open>
  C20. The protocol id does not detect a wire mismatch: two components registered in different orders on the two
  sides give the same id, for every hash, but what one side writes as the first component the other reads as the second.
\<close>

theorem protocol_id_ignores_order:
  assumes "k1 \<noteq> k2" "k1 \<notin> fst ` set (kind_map (component_kinds p))" "k2 \<notin> fst ` set (kind_map (component_kinds p))"
    and "unat (current_net_id (component_kinds p)) + 2 < 2 ^ 16" "kinds_ok (component_kinds p)" "\<not> locked p"
  shows "\<exists>p1 p2 bs. rbind (add_component k1 b1 n1 p) (add_component k2 b2 n2) = Inr p1 \<and>
    rbind (add_component k2 b2 n2 p) (add_component k1 b1 n1) = Inr p2 \<and>
    compute_protocol_id blake3 p1 = compute_protocol_id blake3 p2 \<and>
    sink.writes (kind_ser (component_kinds p1) k1) bs \<and> reads (kind_de (component_kinds p2)) bs k2"
proof -
  let ?ks = "component_kinds p"
  obtain ks1 ks2 where ks:
    "rbind (kinds_add k1 b1 n1 ?ks) (kinds_add k2 b2 n2) = Inr ks1"
    "rbind (kinds_add k2 b2 n2 ?ks) (kinds_add k1 b1 n1) = Inr ks2"
    "all_names ks1 = all_names ks2" "kind_bit_width ks1 = kind_bit_width ks2"
    "kind_to_net_id ks1 k1 = Inr (current_net_id ?ks)" "net_id_to_kind ks2 (current_net_id ?ks) = Inr k2"
    by (rule swapped_kinds [OF assms(1-4)])
  have ok: "kinds_ok ks1" "kinds_ok ks2"
    using ks(1,2) unfolding rbind_eq_Inr by (blast intro: kinds_add_ok(1) [OF kinds_add_ok(1) [OF assms(5)]])+
  have enc: "registered ks1 k1" "kind_enc ks1 k1 = wbits (kind_bit_width ks1) (current_net_id ?ks)"
    using ks(5) by (auto simp: kind_to_net_id_def registered_def kind_enc_def split: option.splits)
  have "clear_above (kind_bit_width ks2) (current_net_id ?ks)"
    using net_id_bounds [OF ok(2), of "current_net_id ?ks" k2] ks(6)
    by (intro clear_above_tag) (auto simp: net_id_to_kind_def split: option.splits)
  moreover have "kind_bit_width ks2 \<le> 16"
    using net_id_bounds(2) [OF ok(2), of "current_net_id ?ks" k2] ks(6) by (auto simp: net_id_to_kind_def split: option.splits)
  ultimately have "reads (kind_de ks2) (wbits (kind_bit_width ks2) (current_net_id ?ks)) k2"
    using ks(6) by (intro kind_de_reads)
  then have "reads (kind_de ks2) (kind_enc ks1 k1) k2" by (simp add: enc ks(4))
  moreover have "sink.writes (kind_ser ks1 k1) (kind_enc ks1 k1)"
    by (rule codec.ser_writes [OF kinds_codec [OF ok(1)] enc(1)])
  moreover have "rbind (add_component k1 b1 n1 p) (add_component k2 b2 n2) = Inr (p \<lparr> component_kinds := ks1 \<rparr>)"
      "rbind (add_component k2 b2 n2 p) (add_component k1 b1 n1) = Inr (p \<lparr> component_kinds := ks2 \<rparr>)"
    using add_two [OF ks(1) assms(6)] add_two [OF ks(2) assms(6)] by simp_all
  moreover have "compute_protocol_id blake3 (p \<lparr> component_kinds := ks1 \<rparr>) = compute_protocol_id blake3 (p \<lparr> component_kinds := ks2 \<rparr>)"
    by (simp add: compute_protocol_id_def hashed_bytes_def ks(3))
  ultimately show ?thesis
    by (intro exI [of _ "p \<lparr> component_kinds := ks1 \<rparr>"] exI [of _ "p \<lparr> component_kinds := ks2 \<rparr>"]
        exI [of _ "kind_enc ks1 k1"]) simp
qed

definition empty_protocol :: "('h, 'k, 'm, 'c, 'b) protocol" where
  "empty_protocol = \<lparr> channel_kinds = kinds_new, message_kinds = kinds_new, component_kinds = kinds_new,
     resource_kinds = [], client_authoritative_entities = False, cached_protocol_id = None, locked = False \<rparr>"

theorem protocol_id_ignores_order_witness:
  "\<exists>(p1 :: (unit, unit, unit, bool, unit) protocol) (p2 :: (unit, unit, unit, bool, unit) protocol) bs.
    rbind (add_component True () ''Position'' empty_protocol) (add_component False () ''Velocity'') = Inr p1 \<and>
    rbind (add_component False () ''Velocity'' empty_protocol) (add_component True () ''Position'') = Inr p2 \<and>
    compute_protocol_id (\<lambda>bytes. bytes) p1 = compute_protocol_id (\<lambda>bytes. bytes) p2 \<and>
    sink.writes (kind_ser (component_kinds p1) True) bs \<and> reads (kind_de (component_kinds p2)) bs False"
  by (rule protocol_id_ignores_order) (simp_all add: empty_protocol_def kinds_ok_new, simp_all add: kinds_new_def)

text \<open>
  Which kinds are marked as resources is not in the protocol id either, only their number: a protocol that marks one
  of two components and a protocol that marks the other have the same id and tell the receivers different things.
\<close>

theorem protocol_id_ignores_resource_marks:
  assumes "k1 \<noteq> k2" "k1 \<notin> fst ` set (kind_map (component_kinds p))" "k2 \<notin> fst ` set (kind_map (component_kinds p))"
    and "unat (current_net_id (component_kinds p)) + 2 < 2 ^ 16" "\<not> locked p"
    and "k1 \<notin> set (resource_kinds p)" "k2 \<notin> set (resource_kinds p)"
  shows "\<exists>p1 p2. rbind (add_resource k1 b1 n1 p) (add_component k2 b2 n2) = Inr p1 \<and>
    rbind (add_component k1 b1 n1 p) (add_resource k2 b2 n2) = Inr p2 \<and>
    compute_protocol_id blake3 p1 = compute_protocol_id blake3 p2 \<and>
    is_resource (resource_kinds p1) k1 \<and> \<not> is_resource (resource_kinds p2) k1"
proof -
  obtain ks where "rbind (kinds_add k1 b1 n1 (component_kinds p)) (kinds_add k2 b2 n2) = Inr ks"
    by (rule swapped_kinds [OF assms(1-4)])
  from add_two(2,3) [OF this assms(5)] show ?thesis using assms(1,6,7)
    by (simp add: resource_register_def is_resource_def compute_protocol_id_def hashed_bytes_def)
qed

theorem protocol_id_ignores_resource_marks_witness:
  "\<exists>(p1 :: (unit, unit, unit, bool, unit) protocol) (p2 :: (unit, unit, unit, bool, unit) protocol).
    rbind (add_resource True () ''Score'' empty_protocol) (add_component False () ''Clock'') = Inr p1 \<and>
    rbind (add_component True () ''Score'' empty_protocol) (add_resource False () ''Clock'') = Inr p2 \<and>
    compute_protocol_id (\<lambda>bytes. bytes) p1 = compute_protocol_id (\<lambda>bytes. bytes) p2 \<and>
    is_resource (resource_kinds p1) True \<and> \<not> is_resource (resource_kinds p2) True"
  by (rule protocol_id_ignores_resource_marks) (simp_all add: empty_protocol_def kinds_new_def)

text \<open>
  Registering a resource twice is not idempotent: the second registration takes another net id, and so moves the ids of
  all kinds registered later.
\<close>

theorem add_resource_not_idempotent:
  assumes "kind \<notin> fst ` set (kind_map (component_kinds p))" "unat (current_net_id (component_kinds p)) + 2 < 2 ^ 16"
    and "kinds_ok (component_kinds p)" "\<not> locked p"
  shows "\<exists>p1 p2. add_resource kind b name p = Inr p1 \<and> add_resource kind b name p1 = Inr p2 \<and>
    kind_to_net_id (component_kinds p2) kind \<noteq> kind_to_net_id (component_kinds p1) kind \<and>
    current_net_id (component_kinds p2) = current_net_id (component_kinds p1) + 1"
proof -
  let ?ks = "component_kinds p" and ?n = "current_net_id (component_kinds p)"
  have "unat (?n + 1) = unat ?n + 1" using assms(2) by (simp add: unat_word_ariths(1))
  then have n: "?n \<noteq> - 1" "?n + 1 \<noteq> - 1"
    using assms(2) by (auto simp: word_unat_eq_iff unsigned_minus_1_eq_mask mask_eq_exp_minus_1)
  obtain ks1 where ks1: "kinds_add kind b name ?ks = Inr ks1" "current_net_id ks1 = ?n + 1"
    using n(1) by (simp add: kinds_add_def Let_def)
  obtain ks2 where ks2: "kinds_add kind b name ks1 = Inr ks2" "current_net_id ks2 = current_net_id ks1 + 1"
    using n(2) ks1(2) by (simp add: kinds_add_def Let_def)
  have "kind_to_net_id ks1 kind = Inr ?n" "kind_to_net_id ks2 kind = Inr (?n + 1)"
    using kinds_add_ok [OF assms(3) ks1(1)] kinds_add_ok(2) [OF _ ks2(1)] ks1(2) by (simp_all add: kind_to_net_id_def)
  with ks1 ks2 assms(4) show ?thesis by (simp add: add_resource_def check_lock_def)
qed

theorem add_resource_not_idempotent_witness:
  "\<exists>(p1 :: (unit, unit, unit, bool, unit) protocol) (p2 :: (unit, unit, unit, bool, unit) protocol).
    add_resource True () ''Score'' empty_protocol = Inr p1 \<and> add_resource True () ''Score'' p1 = Inr p2 \<and>
    kind_to_net_id (component_kinds p2) True \<noteq> kind_to_net_id (component_kinds p1) True \<and>
    current_net_id (component_kinds p2) = current_net_id (component_kinds p1) + 1"
  by (rule add_resource_not_idempotent) (simp_all add: empty_protocol_def kinds_ok_new, simp_all add: kinds_new_def)

end
