(* ===== verification/Reliable_Sender.thy ===== *)
theory Reliable_Sender
  imports Naia_Prelude
begin

text \<open>
  \<^verbatim>\<open>shared/src/messages/channels/senders/reliable_sender.rs\<close>: the queue of messages that are sent
  again until their delivery is reported. An instant is a number; the product of the resend factor and the
  round trip time, two floats, is the argument \<open>resend_duration\<close>.
\<close>

section \<open>The sender\<close>

record 'p reliable_sender =
  rs_sending_messages :: "(u16 \<times> instant option \<times> 'p) option list"
  rs_next_send_message_index :: u16
  rs_outgoing_messages :: "(u16 \<times> 'p) list"
  rs_min_last_sent :: "instant option"
  rs_has_unsent :: bool
  rs_max_queue_depth :: "nat option"

definition rs_new :: "nat option \<Rightarrow> 'p reliable_sender" where
  "rs_new max_queue_depth =
     \<lparr> rs_sending_messages = [], rs_next_send_message_index = 0, rs_outgoing_messages = [],
       rs_min_last_sent = None, rs_has_unsent = False, rs_max_queue_depth = max_queue_depth \<rparr>"

text \<open>Popping the empty slots off the front.\<close>

fun rs_cleanup :: "'a option list \<Rightarrow> 'a option list" where
  "rs_cleanup (None # ms) = rs_cleanup ms"
| "rs_cleanup ms = ms"

definition rs_cleanup_sent_messages :: "'p reliable_sender \<Rightarrow> 'p reliable_sender" where
  "rs_cleanup_sent_messages s = s \<lparr> rs_sending_messages := rs_cleanup (rs_sending_messages s) \<rparr>"

definition rs_take_next_messages :: "'p reliable_sender \<Rightarrow> (u16 \<times> 'p) list \<times> 'p reliable_sender" where
  "rs_take_next_messages s = (rs_outgoing_messages s, s \<lparr> rs_outgoing_messages := [] \<rparr>)"

text \<open>The search loop: the slot of the message, from position \<open>index\<close> on.\<close>

fun rs_find :: "u16 \<Rightarrow> nat \<Rightarrow> (u16 \<times> instant option \<times> 'p) option list \<Rightarrow> nat option" where
  "rs_find message_index index [] = None"
| "rs_find message_index index (m # ms) =
     (case m of
        Some (old_message_index, _, _) \<Rightarrow>
          if message_index = old_message_index then Some index else rs_find message_index (index + 1) ms
      | None \<Rightarrow> rs_find message_index (index + 1) ms)"

definition rs_deliver_message :: "u16 \<Rightarrow> 'p reliable_sender \<Rightarrow> 'p option \<times> 'p reliable_sender" where
  "rs_deliver_message message_index s =
     (case rs_find message_index 0 (rs_sending_messages s) of
        None \<Rightarrow> (None, s)
      | Some index \<Rightarrow>
          (map_option (\<lambda>(_, _, message). message) (rs_sending_messages s ! index),
           rs_cleanup_sent_messages (s \<lparr> rs_sending_messages := (rs_sending_messages s)[index := None] \<rparr>)))"

definition rs_send_message :: "'p \<Rightarrow> 'p reliable_sender \<Rightarrow> bool \<times> 'p reliable_sender" where
  "rs_send_message message s =
     (if (case rs_max_queue_depth s of Some depth \<Rightarrow> depth \<le> length (rs_sending_messages s) | None \<Rightarrow> False)
      then (False, s)
      else
        (True, s \<lparr> rs_sending_messages := rs_sending_messages s @ [Some (rs_next_send_message_index s, None, message)],
                   rs_next_send_message_index := rs_next_send_message_index s + 1,
                   rs_has_unsent := True \<rparr>))"

text \<open>The scan over the queue: the messages due are put into the outgoing queue and stamped.\<close>

definition rs_due :: "instant \<Rightarrow> nat \<Rightarrow> instant option \<Rightarrow> bool" where
  "rs_due now resend_duration last_sent_opt =
     (case last_sent_opt of Some last_sent \<Rightarrow> resend_duration \<le> elapsed last_sent now | None \<Rightarrow> True)"

definition rs_new_min :: "instant option \<Rightarrow> instant option \<Rightarrow> instant option" where
  "rs_new_min last_sent_opt new_min =
     (case last_sent_opt of
        None \<Rightarrow> new_min
      | Some t \<Rightarrow> Some (case new_min of None \<Rightarrow> t | Some cur \<Rightarrow> if t < cur then t else cur))"

fun rs_scan :: "instant \<Rightarrow> nat \<Rightarrow> (u16 \<times> instant option \<times> 'p) option list \<Rightarrow> (u16 \<times> 'p) list \<Rightarrow> instant option \<Rightarrow>
    (u16 \<times> instant option \<times> 'p) option list \<times> (u16 \<times> 'p) list \<times> instant option" where
  "rs_scan now resend_duration [] outgoing new_min = ([], outgoing, new_min)"
| "rs_scan now resend_duration (None # ms) outgoing new_min =
     (let (ms, outgoing, new_min) = rs_scan now resend_duration ms outgoing new_min in (None # ms, outgoing, new_min))"
| "rs_scan now resend_duration (Some (message_index, last_sent_opt, message) # ms) outgoing new_min =
     (let should_send = rs_due now resend_duration last_sent_opt;
          outgoing = (if should_send then outgoing @ [(message_index, message)] else outgoing);
          last_sent_opt = (if should_send then Some now else last_sent_opt);
          (ms, outgoing, new_min) = rs_scan now resend_duration ms outgoing (rs_new_min last_sent_opt new_min)
      in (Some (message_index, last_sent_opt, message) # ms, outgoing, new_min))"

definition rs_collect_messages :: "instant \<Rightarrow> nat \<Rightarrow> 'p reliable_sender \<Rightarrow> 'p reliable_sender" where
  "rs_collect_messages now resend_duration s =
     (if \<not> rs_has_unsent s \<and> (rs_sending_messages s = [] \<or>
           (case rs_min_last_sent s of Some earliest \<Rightarrow> elapsed earliest now < resend_duration | None \<Rightarrow> False))
      then s
      else
        (let (sending, outgoing, new_min) = rs_scan now resend_duration (rs_sending_messages s) (rs_outgoing_messages s) None
         in s \<lparr> rs_sending_messages := sending, rs_outgoing_messages := outgoing,
                rs_min_last_sent := new_min, rs_has_unsent := False \<rparr>))"

definition rs_has_messages :: "'p reliable_sender \<Rightarrow> bool" where
  "rs_has_messages s = (rs_outgoing_messages s \<noteq> [])"

definition rs_notify_message_delivered :: "u16 \<Rightarrow> 'p reliable_sender \<Rightarrow> 'p reliable_sender" where
  "rs_notify_message_delivered message_index s = snd (rs_deliver_message message_index s)"

section \<open>The specification\<close>

text \<open>The messages not yet delivered, without the empty slots.\<close>

definition pending :: "'p reliable_sender \<Rightarrow> (u16 \<times> instant option \<times> 'p) list" where
  "pending s = List.map_filter (\<lambda>m. m) (rs_sending_messages s)"

fun spec_deliver :: "u16 \<Rightarrow> (u16 \<times> instant option \<times> 'p) list \<Rightarrow> (u16 \<times> instant option \<times> 'p) list" where
  "spec_deliver i [] = []"
| "spec_deliver i (m # ms) = (if fst m = i then ms else m # spec_deliver i ms)"

definition spec_stamp :: "instant \<Rightarrow> nat \<Rightarrow> u16 \<times> instant option \<times> 'p \<Rightarrow> u16 \<times> instant option \<times> 'p" where
  "spec_stamp now d = (\<lambda>(i, t, m). (i, if rs_due now d t then Some now else t, m))"

definition spec_offers :: "instant \<Rightarrow> nat \<Rightarrow> (u16 \<times> instant option \<times> 'p) list \<Rightarrow> (u16 \<times> 'p) list" where
  "spec_offers now d ms = map (\<lambda>(i, t, m). (i, m)) (filter (\<lambda>(i, t, m). rs_due now d t) ms)"

lemma pending_simps [simp]:
  "List.map_filter (\<lambda>m. m) (None # ms) = List.map_filter (\<lambda>m. m) ms"
  "List.map_filter (\<lambda>m. m) (Some x # ms) = x # List.map_filter (\<lambda>m. m) ms"
  "List.map_filter (\<lambda>m. m) [] = []"
  "List.map_filter (\<lambda>m. m) (xs @ ys) = List.map_filter (\<lambda>m. m) xs @ List.map_filter (\<lambda>m. m) ys"
  by (simp_all add: List.map_filter_def)

lemma pending_cleanup: "List.map_filter (\<lambda>m. m) (rs_cleanup ms) = List.map_filter (\<lambda>m. m) ms"
  by (induction ms rule: rs_cleanup.induct) simp_all

lemma rs_scan_spec:
  "rs_scan now d ms out mn = (ms', out', mn') \<Longrightarrow>
   List.map_filter (\<lambda>m. m) ms' = map (spec_stamp now d) (List.map_filter (\<lambda>m. m) ms) \<and>
   out' = out @ spec_offers now d (List.map_filter (\<lambda>m. m) ms)"
  by (induction now d ms out mn arbitrary: ms' out' mn' rule: rs_scan.induct)
    (auto simp: Let_def spec_stamp_def spec_offers_def split: prod.splits)

text \<open>
  When no message is new, the recorded minimum bounds the time stamps of all pending messages from below.
\<close>

definition rs_inv :: "'p reliable_sender \<Rightarrow> bool" where
  "rs_inv s \<longleftrightarrow> rs_has_unsent s \<or>
     (\<forall>i t m. (i, t, m) \<in> set (pending s) \<longrightarrow> (\<exists>u mn. t = Some u \<and> rs_min_last_sent s = Some mn \<and> mn \<le> u))"

lemma rs_scan_min:
  "rs_scan now d ms out mn = (ms', out', mn') \<Longrightarrow>
   (\<forall>x. mn = Some x \<longrightarrow> (\<exists>y. mn' = Some y \<and> y \<le> x)) \<and>
   (\<forall>i t m. (i, t, m) \<in> set (List.map_filter (\<lambda>m. m) ms') \<longrightarrow> (\<exists>u y. t = Some u \<and> mn' = Some y \<and> y \<le> u))"
proof (induction now d ms out mn arbitrary: ms' out' mn' rule: rs_scan.induct)
  case (3 now d i t m ms out mn)
  let ?t = "if rs_due now d t then Some now else t"
  let ?out = "if rs_due now d t then out @ [(i, m)] else out"
  obtain ms1 where r: "rs_scan now d ms ?out (rs_new_min ?t mn) = (ms1, out', mn')" "ms' = Some (i, ?t, m) # ms1"
    using 3(2) by (auto simp: Let_def split: prod.splits)
  note IH = 3(1) [OF refl refl refl r(1)]
  have "\<exists>u. ?t = Some u" by (auto simp: rs_due_def split: option.splits)
  then obtain u where u: "?t = Some u" by blast
  obtain x where x: "rs_new_min ?t mn = Some x" "x \<le> u" "\<forall>z. mn = Some z \<longrightarrow> x \<le> z"
    unfolding u rs_new_min_def by (cases mn) auto
  obtain y where y: "mn' = Some y" "y \<le> x" using conjunct1 [OF IH] x(1) by auto
  have "\<forall>z. mn = Some z \<longrightarrow> (\<exists>y. mn' = Some y \<and> y \<le> z)" using x(3) y by auto
  moreover have "\<forall>i t m. (i, t, m) \<in> set (List.map_filter (\<lambda>m. m) ms') \<longrightarrow> (\<exists>u y. t = Some u \<and> mn' = Some y \<and> y \<le> u)"
    unfolding r(2) u using conjunct2 [OF IH] x(2) y by auto
  ultimately show ?case by blast
qed (auto split: prod.splits, blast)

lemma not_due_stamp: "\<not> rs_due now d t \<Longrightarrow> spec_stamp now d (i, t, m) = (i, t, m)"
  by (simp add: spec_stamp_def)

text \<open>The fast path skips the scan only when the scan would find nothing.\<close>

lemma rs_collect_spec:
  assumes "rs_inv s"
  shows "pending (rs_collect_messages now d s) = map (spec_stamp now d) (pending s) \<and>
    rs_outgoing_messages (rs_collect_messages now d s) = rs_outgoing_messages s @ spec_offers now d (pending s) \<and>
    rs_inv (rs_collect_messages now d s)"
proof (cases "\<not> rs_has_unsent s \<and> (rs_sending_messages s = [] \<or>
    (case rs_min_last_sent s of Some earliest \<Rightarrow> elapsed earliest now < d | None \<Rightarrow> False))")
  case True
  have "\<not> rs_due now d t" if m: "(i, t, m) \<in> set (pending s)" for i t m
  proof -
    obtain u mn where u: "t = Some u" "rs_min_last_sent s = Some mn" "mn \<le> u"
      using assms True m unfolding rs_inv_def by blast
    moreover have "rs_sending_messages s \<noteq> []" using m by (auto simp: pending_def)
    ultimately have "elapsed mn now < d" using True by simp
    then show ?thesis using u by (simp add: rs_due_def elapsed_def)
  qed
  then have "map (spec_stamp now d) (pending s) = pending s" "spec_offers now d (pending s) = []"
    by (auto simp: spec_offers_def filter_empty_conv not_due_stamp intro!: map_idI)
  with True assms show ?thesis by (simp add: rs_collect_messages_def)
next
  case False
  obtain ms out mn where r: "rs_scan now d (rs_sending_messages s) (rs_outgoing_messages s) None = (ms, out, mn)"
    using prod_cases3 by blast
  then have "rs_collect_messages now d s = s \<lparr> rs_sending_messages := ms, rs_outgoing_messages := out,
      rs_min_last_sent := mn, rs_has_unsent := False \<rparr>"
    by (simp only: rs_collect_messages_def if_not_P [OF False] Let_def prod.case)
  with rs_scan_spec [OF r] rs_scan_min [OF r] show ?thesis by (simp add: pending_def rs_inv_def)
qed

lemma rs_find_spec:
  "case rs_find i k ms of
     None \<Rightarrow> i \<notin> fst ` set (List.map_filter (\<lambda>m. m) ms)
   | Some j \<Rightarrow> k \<le> j \<and> j - k < length ms \<and> (\<exists>t m. ms ! (j - k) = Some (i, t, m) \<and>
       find (\<lambda>x. fst x = i) (List.map_filter (\<lambda>m. m) ms) = Some (i, t, m)) \<and>
       List.map_filter (\<lambda>m. m) (ms[j - k := None]) = spec_deliver i (List.map_filter (\<lambda>m. m) ms)"
proof (induction i k ms rule: rs_find.induct)
  case (2 i k m ms)
  show ?case
  proof (cases "\<exists>t x. m = Some (i, t, x)")
    case False
    then have r: "rs_find i k (m # ms) = rs_find i (k + 1) ms" by (auto split: option.splits)
    have ih: "case rs_find i (k + 1) ms of
        None \<Rightarrow> i \<notin> fst ` set (List.map_filter (\<lambda>m. m) ms)
      | Some j \<Rightarrow> k + 1 \<le> j \<and> j - (k + 1) < length ms \<and> (\<exists>t m. ms ! (j - (k + 1)) = Some (i, t, m) \<and>
          find (\<lambda>x. fst x = i) (List.map_filter (\<lambda>m. m) ms) = Some (i, t, m)) \<and>
          List.map_filter (\<lambda>m. m) (ms[j - (k + 1) := None]) = spec_deliver i (List.map_filter (\<lambda>m. m) ms)"
      using 2 False by (cases m) auto
    show ?thesis
    proof (cases "rs_find i (k + 1) ms")
      case None
      with ih r False show ?thesis by (cases m) auto
    next
      case (Some j)
      then have "j - k = Suc (j - (k + 1))" using ih by auto
      with ih r False Some show ?thesis by (cases m) auto
    qed
  qed auto
qed simp

lemma rs_deliver_spec:
  "pending (snd (rs_deliver_message i s)) = spec_deliver i (pending s) \<and>
   fst (rs_deliver_message i s) = map_option (\<lambda>(_, _, m). m) (find (\<lambda>x. fst x = i) (pending s)) \<and>
   rs_has_unsent (snd (rs_deliver_message i s)) = rs_has_unsent s \<and>
   rs_min_last_sent (snd (rs_deliver_message i s)) = rs_min_last_sent s"
proof (cases "rs_find i 0 (rs_sending_messages s)")
  case None
  then have n: "i \<notin> fst ` set (pending s)" using rs_find_spec [where i = i and k = 0 and ms = "rs_sending_messages s"] by (simp add: pending_def)
  have "spec_deliver i ms = ms \<and> find (\<lambda>x. fst x = i) ms = None" if "i \<notin> fst ` set ms"
    for ms :: "(u16 \<times> instant option \<times> 'a) list" using that by (induction ms) auto
  with n None show ?thesis by (simp add: rs_deliver_message_def)
next
  case (Some j)
  with rs_find_spec [where i = i and k = 0 and ms = "rs_sending_messages s"] show ?thesis
    by (auto simp: rs_deliver_message_def rs_cleanup_sent_messages_def pending_def pending_cleanup)
qed

lemma spec_deliver_subset: "set (spec_deliver i ms) \<subseteq> set ms"
  by (induction ms) auto

section \<open>Runs\<close>

datatype 'p rs_op = RS_Send 'p | RS_Collect instant nat | RS_Take | RS_Deliver u16

fun rs_step :: "'p rs_op \<Rightarrow> 'p reliable_sender \<Rightarrow> 'p reliable_sender" where
  "rs_step (RS_Send m) s = snd (rs_send_message m s)"
| "rs_step (RS_Collect now d) s = rs_collect_messages now d s"
| "rs_step RS_Take s = snd (rs_take_next_messages s)"
| "rs_step (RS_Deliver i) s = rs_notify_message_delivered i s"

lemma rs_step_inv: "rs_inv s \<Longrightarrow> rs_inv (rs_step op s)"
proof (cases op)
  case (RS_Deliver i)
  assume "rs_inv s"
  moreover have "set (pending (snd (rs_deliver_message i s))) \<subseteq> set (pending s)"
    using rs_deliver_spec [of i s] spec_deliver_subset [of i "pending s"] by simp
  ultimately show ?thesis using RS_Deliver rs_deliver_spec [of i s]
    by (auto simp: rs_inv_def rs_notify_message_delivered_def) blast
next
  case (RS_Collect now d)
  assume "rs_inv s"
  from rs_collect_spec [OF this, of now d] RS_Collect show ?thesis by simp
qed (auto simp: rs_inv_def rs_send_message_def rs_take_next_messages_def pending_def)

lemma rs_run_inv: "rs_inv (fold rs_step ops (rs_new depth))"
proof (induction ops rule: rev_induct)
  case Nil
  show ?case by (simp add: rs_inv_def rs_new_def pending_def)
qed (simp add: rs_step_inv)

section \<open>Property\<close>

text \<open>
  C16. Refinement: in every state the sender reaches, it behaves like the plain list of
  undelivered messages. An accepted message is added at the end; a collection offers exactly the pending
  messages that were never offered or not within the resend time, in order, and stamps them, also where the
  sender skips its scan; a delivery removes the message; taking the offered messages removes none. So a message
  is offered again and again until its delivery is reported.
\<close>

theorem reliable_sender_offers_until_delivered:
  assumes "s = fold rs_step ops (rs_new depth)"
  shows "pending (snd (rs_send_message m s)) =
      pending s @ (if fst (rs_send_message m s) then [(rs_next_send_message_index s, None, m)] else []) \<and>
    rs_outgoing_messages (rs_collect_messages now d s) = rs_outgoing_messages s @ spec_offers now d (pending s) \<and>
    pending (rs_collect_messages now d s) = map (spec_stamp now d) (pending s) \<and>
    pending (snd (rs_deliver_message i s)) = spec_deliver i (pending s) \<and>
    fst (rs_deliver_message i s) = map_option (\<lambda>(_, _, m). m) (find (\<lambda>x. fst x = i) (pending s)) \<and>
    rs_take_next_messages s = (rs_outgoing_messages s, s \<lparr> rs_outgoing_messages := [] \<rparr>)"
proof -
  have "rs_inv s" unfolding assms by (rule rs_run_inv)
  moreover have "pending (snd (rs_send_message m s)) =
      pending s @ (if fst (rs_send_message m s) then [(rs_next_send_message_index s, None, m)] else [])"
    by (simp add: rs_send_message_def pending_def)
  ultimately show ?thesis using rs_collect_spec [of s now d] rs_deliver_spec [of i s]
    by (simp add: rs_take_next_messages_def)
qed

theorem reliable_sender_offers_until_delivered_witness:
  "rs_outgoing_messages (rs_collect_messages 15 10
     (fold rs_step [RS_Send (1 :: nat), RS_Send 2, RS_Collect 3 10, RS_Take, RS_Deliver 0] (rs_new None))) = [(1, 2)]"
proof -
  let ?s = "fold rs_step [RS_Send (1 :: nat), RS_Send 2, RS_Collect 3 10, RS_Take, RS_Deliver 0] (rs_new None)"
  have s: "pending ?s = [(1, Some 3, 2)]" "rs_outgoing_messages ?s = []"
    by (simp_all add: rs_send_message_def rs_new_def rs_take_next_messages_def rs_notify_message_delivered_def
        rs_deliver_message_def rs_cleanup_sent_messages_def rs_collect_messages_def rs_due_def rs_new_min_def pending_def Let_def)
  have "rs_outgoing_messages (rs_collect_messages 15 10 ?s) = rs_outgoing_messages ?s @ spec_offers 15 10 (pending ?s)"
    by (rule reliable_sender_offers_until_delivered [OF refl, THEN conjunct2, THEN conjunct1])
  also have "\<dots> = [(1, 2)]" unfolding s by (simp add: spec_offers_def rs_due_def elapsed_def)
  finally show ?thesis .
qed

end
