(* ===== verification/Indexed_Messages.thy ===== *)
theory Indexed_Messages
  imports Serde Reliable_Sender Wrapping_Number
begin

text \<open>
  \<^verbatim>\<open>shared/src/messages/channels/senders/indexed_message_writer.rs\<close> and
  \<^verbatim>\<open>receivers/indexed_message_reader.rs\<close>: the messages of a reliable channel in a packet, each with its
  index, after the first as the difference to the one before. How a message itself is written and read is the
  argument \<open>ser\<close> and \<open>de\<close>, with the contract \<open>codec\<close>.
\<close>

section \<open>Passing a writer as a trait object\<close>

fun on_writer :: "(bit_write \<Rightarrow> bit_write res) \<Rightarrow> bit_writer \<Rightarrow> bit_writer res" where
  "on_writer f w = rbind (f (Writer w)) (\<lambda>v. case v of Writer w \<Rightarrow> Inr w | _ \<Rightarrow> Inl Diverges)"

fun on_counter :: "(bit_write \<Rightarrow> bit_write res) \<Rightarrow> bit_counter \<Rightarrow> bit_counter res" where
  "on_counter f c = rbind (f (Counter c)) (\<lambda>v. case v of Counter c \<Rightarrow> Inr c | _ \<Rightarrow> Inl Diverges)"

section \<open>Writing\<close>

definition write_message_index :: "u16 option \<Rightarrow> u16 \<Rightarrow> bit_write \<Rightarrow> bit_write res" where
  "write_message_index last_written_id message_index w =
     (case last_written_id of
        Some last_id \<Rightarrow>
          rbind (wrapping_diff last_id message_index) (\<lambda>id_diff.
            if id_diff < 0 then Inl (Panic ''Packet Write Error: Message Index diff is negative in subsequent message'')
            else rbind (si_new False True 3 id_diff) (\<lambda>id_diff_encoded. si_ser id_diff_encoded w))
      | None \<Rightarrow> word_ser message_index w)"

definition write_message ::
    "('m \<Rightarrow> bit_write \<Rightarrow> bit_write res) \<Rightarrow> u16 option \<Rightarrow> u16 \<Rightarrow> 'm \<Rightarrow> bit_write \<Rightarrow> bit_write res" where
  "write_message ser last_written_id message_index message w =
     rbind (write_message_index last_written_id message_index w) (ser message)"

text \<open>The continue bit and the message, as they are counted first and then written.\<close>

definition write_item ::
    "('m \<Rightarrow> bit_write \<Rightarrow> bit_write res) \<Rightarrow> u16 option \<Rightarrow> u16 \<Rightarrow> 'm \<Rightarrow> bit_write \<Rightarrow> bit_write res" where
  "write_item ser last_written_id message_index message w =
     rbind (bool_ser True w) (write_message ser last_written_id message_index message)"

definition warn_overflow :: "nat \<Rightarrow> nat \<Rightarrow> 'a res" where
  "warn_overflow bits_needed bits_free = Inl (Panic ''Packet Write Error: Blocking overflow detected!'')"

fun write_messages_loop ::
    "('m \<Rightarrow> bit_write \<Rightarrow> bit_write res) \<Rightarrow> (u16 \<times> 'm) list \<Rightarrow> u16 option \<Rightarrow> u16 list \<Rightarrow> bit_writer \<Rightarrow> bool \<Rightarrow>
     (u16 list \<times> (u16 \<times> 'm) list \<times> bit_writer \<times> bool) res" where
  "write_messages_loop ser [] last_written_id message_indices w has_written = Inr (message_indices, [], w, has_written)"
| "write_messages_loop ser ((message_index, message) # ms) last_written_id message_indices w has_written =
     rbind (on_counter (write_item ser last_written_id message_index message) (bw_counter w)) (\<lambda>counter.
       if bc_overflowed counter then
         if \<not> has_written then
           rbind (bc_bits_needed counter) (\<lambda>bits_needed. rbind (bw_bits_free w) (\<lambda>bits_free. warn_overflow bits_needed bits_free))
         else Inr (message_indices, (message_index, message) # ms, w, has_written)
       else
         rbind (on_writer (write_item ser last_written_id message_index message) w) (\<lambda>w.
           write_messages_loop ser ms (Some message_index) (message_indices @ [message_index]) w True))"

definition write_messages ::
    "('m \<Rightarrow> bit_write \<Rightarrow> bit_write res) \<Rightarrow> (u16 \<times> 'm) list \<Rightarrow> bit_writer \<Rightarrow> bool \<Rightarrow>
     (u16 list \<times> (u16 \<times> 'm) list \<times> bit_writer \<times> bool) res" where
  "write_messages ser outgoing_messages w has_written = write_messages_loop ser outgoing_messages None [] w has_written"

section \<open>Reading\<close>

definition read_message_index :: "u16 option \<Rightarrow> bit_reader \<Rightarrow> (u16 \<times> bit_reader) res" where
  "read_message_index last_read_id r =
     (case last_read_id of
        Some last_id \<Rightarrow> rbind (si_de False True 3 r) (\<lambda>(id_diff, r). Inr (last_id + of_int (si_get id_diff), r))
      | None \<Rightarrow> word_de r)"

definition read_message ::
    "(bit_reader \<Rightarrow> ('m \<times> bit_reader) res) \<Rightarrow> u16 option \<Rightarrow> bit_reader \<Rightarrow> ((u16 \<times> 'm) \<times> bit_reader) res" where
  "read_message de last_read_id r =
     rbind (read_message_index last_read_id r) (\<lambda>(message_index, r).
     rbind (de r) (\<lambda>(new_message, r). Inr ((message_index, new_message), r)))"

fun read_messages_loop ::
    "nat \<Rightarrow> (bit_reader \<Rightarrow> ('m \<times> bit_reader) res) \<Rightarrow> u16 option \<Rightarrow> (u16 \<times> 'm) list \<Rightarrow> bit_reader \<Rightarrow>
     ((u16 \<times> 'm) list \<times> bit_reader) res" where
  "read_messages_loop 0 de last_read_id output r = Inl Diverges"
| "read_messages_loop (Suc n) de last_read_id output r =
     rbind (bool_de r) (\<lambda>(channel_continue, r).
       if \<not> channel_continue then Inr (output, r)
       else rbind (read_message de last_read_id r) (\<lambda>(id_w_msg, r).
              read_messages_loop n de (Some (fst id_w_msg)) (output @ [id_w_msg]) r))"

text \<open>Every turn of the loop reads a bit at least, so the bits left bound the number of turns.\<close>

definition read_messages :: "(bit_reader \<Rightarrow> ('m \<times> bit_reader) res) \<Rightarrow> bit_reader \<Rightarrow> ((u16 \<times> 'm) list \<times> bit_reader) res" where
  "read_messages de r = read_messages_loop (length (br_bits r) + 1) de None [] r"

section \<open>The encoding\<close>

definition index_enc :: "u16 option \<Rightarrow> u16 \<Rightarrow> bool list" where
  "index_enc last_id i = (case last_id of None \<Rightarrow> wbits 16 i | Some l \<Rightarrow> len_enc 3 (nat (sint (i - l))))"

text \<open>Each index is at most half the range ahead of the one before.\<close>

fun chained :: "u16 option \<Rightarrow> (u16 \<times> 'm) list \<Rightarrow> bool" where
  "chained last_id [] = True"
| "chained last_id ((i, m) # ms) =
     ((case last_id of None \<Rightarrow> True | Some l \<Rightarrow> 0 \<le> sint (i - l)) \<and> chained (Some i) ms)"

lemma sint_u16_bounds: "- 32768 \<le> sint (w :: u16)" "sint w < 32768"
  using sint_ge [of w] sint_lt [of w] by simp_all

lemma write_message_index_writes:
  assumes "case last_id of None \<Rightarrow> True | Some l \<Rightarrow> 0 \<le> sint (i - l)"
  shows "sink.writes (write_message_index last_id i) (index_enc last_id i)"
proof (cases last_id)
  case None
  then show ?thesis using u16_serde.ser_writes [of i] by (simp add: write_message_index_def [abs_def] index_enc_def)
next
  case (Some l)
  define n where "n = nat (sint (i - l))"
  have n: "sint (i - l) = int n" "n < 2 ^ 63"
    using assms Some sint_u16_bounds [of "i - l"] by (simp_all add: n_def)
  let ?x = "sn_new_unchecked False True 3 0 (int n)"
  have x: "si_new False True 3 (int n) = Inr ?x" "sn_ok ?x" using len_number [of 3 n] n(2) by simp_all
  have "sink.writes (si_ser ?x) (sn_enc ?x)"
    by (rule integer_serde.ser_writes [where s = False and v = True and b = 3]) (use x(2) in \<open>simp add: sn_new_unchecked_def\<close>)
  moreover have "index_enc last_id i = sn_enc ?x" using Some n(1) by (simp add: index_enc_def len_enc_def)
  moreover have "write_message_index last_id i = si_ser ?x"
    by (rule ext) (simp add: write_message_index_def Some wrapping_diff_eq n(1) x(1))
  ultimately show ?thesis by simp
qed

lemma read_message_index_reads:
  assumes "case last_id of None \<Rightarrow> True | Some l \<Rightarrow> 0 \<le> sint (i - l)"
  shows "reads (read_message_index last_id) (index_enc last_id i) i"
proof (cases last_id)
  case None
  then show ?thesis using u16_serde.de_reads [of i] by (simp add: read_message_index_def [abs_def] index_enc_def)
next
  case (Some l)
  define n where "n = nat (sint (i - l))"
  have n: "sint (i - l) = int n" "n < 2 ^ 63"
    using assms Some sint_u16_bounds [of "i - l"] by (simp_all add: n_def)
  let ?x = "sn_new_unchecked False True 3 0 (int n)"
  let ?g = "\<lambda>id_diff r :: bit_reader. Inr (l + of_int (si_get id_diff), r)"
  have "sn_ok ?x" using len_number [of 3 n] n(2) by simp
  then have r: "reads (si_de False True 3) (sn_enc ?x) ?x"
    by (intro integer_serde.de_reads) (simp add: sn_new_unchecked_def)
  have "l + of_int (int n) = i" unfolding n(1) [symmetric] by simp
  then have "reads (?g ?x) [] i"
    using reads_return [of i] by (simp add: si_get_def sn_get_def sn_new_unchecked_def)
  from reads_bind [where g = ?g, OF r this] show ?thesis
    by (simp add: read_message_index_def [abs_def] Some index_enc_def n(1) len_enc_def)
qed

fun messages_enc :: "('m \<Rightarrow> bool list) \<Rightarrow> u16 option \<Rightarrow> (u16 \<times> 'm) list \<Rightarrow> bool list" where
  "messages_enc enc last_id [] = []"
| "messages_enc enc last_id ((i, m) # ms) = True # index_enc last_id i @ enc m @ messages_enc enc (Some i) ms"

context codec
begin

lemma write_item_writes:
  assumes "case last_id of None \<Rightarrow> True | Some l \<Rightarrow> 0 \<le> sint (i - l)" "valid m"
  shows "sink.writes (write_item ser last_id i m) (True # index_enc last_id i @ enc m)"
proof -
  have "sink.writes (write_message ser last_id i m) (index_enc last_id i @ enc m)"
    unfolding write_message_def [abs_def]
    by (rule sink.writes_bind [OF write_message_index_writes [OF assms(1)] ser_writes [OF assms(2)]])
  from sink.writes_bind [OF bool_serde.ser_writes [of True] this] show ?thesis
    by (simp add: write_item_def [abs_def])
qed

lemma read_message_reads:
  assumes "case last_id of None \<Rightarrow> True | Some l \<Rightarrow> 0 \<le> sint (i - l)" "valid m"
  shows "reads (read_message de last_id) (index_enc last_id i @ enc m) (i, m)"
proof -
  let ?h = "\<lambda>i m r :: bit_reader. Inr ((i, m), r)"
  have "reads (\<lambda>r. rbind (de r) (\<lambda>(m, r). ?h i m r)) (enc m @ []) (i, m)"
    by (rule reads_bind [where g = "?h i", OF de_reads [OF assms(2)] reads_return])
  from reads_bind [where g = "\<lambda>i r. rbind (de r) (\<lambda>(m, r). ?h i m r)", OF read_message_index_reads [OF assms(1)] this]
  show ?thesis by (simp add: read_message_def [abs_def])
qed

lemma read_messages_loop_reads:
  assumes "chained last_id ms" "\<forall>(i, m)\<in>set ms. valid m" "length ms < n"
  shows "reads (read_messages_loop n de last_id acc) (messages_enc enc last_id ms @ [False]) (acc @ ms)"
  using assms
proof (induction ms arbitrary: n last_id acc)
  case Nil
  then obtain k where k: "n = Suc k" by (cases n) auto
  let ?g = "\<lambda>c r. if \<not> c then Inr (acc, r) else rbind (read_message de last_id r) (\<lambda>(x, r).
    read_messages_loop k de (Some (fst x)) (acc @ [x]) r)"
  have "reads (?g False) [] acc" using reads_return [of acc] by simp
  from reads_bind [where g = ?g, OF bool_serde.de_reads this] show ?case using k by (simp add: fun_eq_iff)
next
  case (Cons x ms)
  obtain i m where x: "x = (i, m)" by force
  obtain k where k: "n = Suc k" "length ms < k" using Cons.prems(3) by (cases n) auto
  let ?f = "\<lambda>x r. read_messages_loop k de (Some (fst x)) (acc @ [x]) r"
  let ?g = "\<lambda>c r. if \<not> c then Inr (acc, r) else rbind (read_message de last_id r) (\<lambda>(x, r). ?f x r)"
  have i: "case last_id of None \<Rightarrow> True | Some l \<Rightarrow> 0 \<le> sint (i - l)" "valid m" "chained (Some i) ms"
    using Cons.prems(1,2) x by auto
  have "reads (?f (i, m)) (messages_enc enc (Some i) ms @ [False]) ((acc @ [(i, m)]) @ ms)"
    using Cons.IH [of "Some i" k "acc @ [(i, m)]"] i(3) Cons.prems(2) k(2) by simp
  from reads_bind [where g = ?f, OF read_message_reads [OF i(1,2)] this]
  have "reads (?g True) ((index_enc last_id i @ enc m) @ messages_enc enc (Some i) ms @ [False]) (acc @ x # ms)"
    using x by simp
  from reads_bind [where g = ?g, OF bool_serde.de_reads this] show ?case using k(1) x by simp
qed

lemma length_index_enc:
  assumes "case last_id of None \<Rightarrow> True | Some l \<Rightarrow> 0 \<le> sint (i - l)"
  shows "length (index_enc last_id i) \<le> 320"
proof (cases last_id)
  case (Some l)
  then have "nat (sint (i - l)) < 2 ^ 63" using assms sint_u16_bounds [of "i - l"] by simp
  with length_sn_enc [OF len_number(2) [of 3 "nat (sint (i - l))"]] Some show ?thesis
    by (simp add: index_enc_def len_enc_def)
qed (simp add: index_enc_def)

text \<open>An item is written exactly when it fits.\<close>

lemma write_item_step:
  assumes i: "case last_id of None \<Rightarrow> True | Some l \<Rightarrow> 0 \<le> sint (i - l)" "valid m" "length (enc m) < 2 ^ 31"
    and w: "bw_ok w"
  defines "n \<equiv> length (True # index_enc last_id i @ enc m)"
  shows "on_counter (write_item ser last_id i m) (bw_counter w) =
      Inr ((bw_counter w) \<lparr> bc_current_bits := bw_current_bits w + n \<rparr>)"
    and "bc_overflowed ((bw_counter w) \<lparr> bc_current_bits := bw_current_bits w + n \<rparr>) \<longleftrightarrow> bw_max_bits w < bw_current_bits w + n"
    and "bw_current_bits w + n \<le> bw_max_bits w \<Longrightarrow>
      \<exists>w'. on_writer (write_item ser last_id i m) w = Inr w' \<and> bw_ok w' \<and>
        bw_bits w' = bw_bits w @ True # index_enc last_id i @ enc m \<and> bw_max_bits w' = bw_max_bits w"
proof -
  note wr = write_item_writes [OF i(1,2)]
  have "bw_current_bits w + n < 2 ^ 32"
    using w i(3) length_index_enc [OF i(1)] by (simp add: bw_ok_def mtu_simps n_def)
  from writes_Counter [OF wr, of "bw_counter w"] this
  show "on_counter (write_item ser last_id i m) (bw_counter w) =
      Inr ((bw_counter w) \<lparr> bc_current_bits := bw_current_bits w + n \<rparr>)"
    by (simp add: n_def bw_counter_def bc_new_def)
  show "bc_overflowed ((bw_counter w) \<lparr> bc_current_bits := bw_current_bits w + n \<rparr>) \<longleftrightarrow> bw_max_bits w < bw_current_bits w + n"
    by (simp add: bc_overflowed_def bw_counter_def bc_new_def)
  show "\<exists>w'. on_writer (write_item ser last_id i m) w = Inr w' \<and> bw_ok w' \<and>
        bw_bits w' = bw_bits w @ True # index_enc last_id i @ enc m \<and> bw_max_bits w' = bw_max_bits w"
    if fit: "bw_current_bits w + n \<le> bw_max_bits w"
    using writes_Writer [OF wr w] fit unfolding n_def by fastforce
qed

text \<open>
  The loop writes the longest prefix of the queue that fits and keeps the rest.
\<close>

lemma write_messages_loop_ok:
  assumes "chained last_id ms" "\<forall>(i, m)\<in>set ms. valid m \<and> length (enc m) < 2 ^ 31"
    and "bw_ok w" "bw_current_bits w \<le> bw_max_bits w"
    and "hw \<or> bw_current_bits w + length (messages_enc enc last_id (take 1 ms)) \<le> bw_max_bits w"
  shows "\<exists>k w'. write_messages_loop ser ms last_id ids w hw = Inr (ids @ map fst (take k ms), drop k ms, w', hw \<or> take k ms \<noteq> []) \<and>
    bw_ok w' \<and> bw_bits w' = bw_bits w @ messages_enc enc last_id (take k ms) \<and> bw_max_bits w' = bw_max_bits w \<and>
    bw_current_bits w' \<le> bw_max_bits w \<and>
    (k < length ms \<longrightarrow> bw_max_bits w < length (bw_bits w @ messages_enc enc last_id (take (Suc k) ms)))"
  using assms
proof (induction ms arbitrary: last_id ids w hw)
  case Nil
  then show ?case by (intro exI [of _ 0]) simp
next
  case (Cons x ms)
  obtain i m where x: "x = (i, m)" by force
  have i: "case last_id of None \<Rightarrow> True | Some l \<Rightarrow> 0 \<le> sint (i - l)" "valid m" "length (enc m) < 2 ^ 31" "chained (Some i) ms"
    using Cons.prems(1,2) x by auto
  let ?n = "length (True # index_enc last_id i @ enc m)"
  note step = write_item_step [OF i(1-3) Cons.prems(3)]
  show ?case
  proof (cases "bw_current_bits w + ?n \<le> bw_max_bits w")
    case True
    obtain w1 where w1: "on_writer (write_item ser last_id i m) w = Inr w1" "bw_ok w1"
        "bw_bits w1 = bw_bits w @ True # index_enc last_id i @ enc m" "bw_max_bits w1 = bw_max_bits w"
      using step(3) [OF True] by blast
    have "bw_current_bits w1 = bw_current_bits w + ?n"
      using length_bw_bits [OF w1(2)] length_bw_bits [OF Cons.prems(3)] w1(3) by simp
    then have "bw_current_bits w1 \<le> bw_max_bits w1" using True w1(4) by simp
    from Cons.IH [OF i(4) _ w1(2) this, of True "ids @ [i]"] Cons.prems(2) obtain k w'
      where k: "write_messages_loop ser ms (Some i) (ids @ [i]) w1 True = Inr ((ids @ [i]) @ map fst (take k ms), drop k ms, w', True)"
        "bw_ok w'" "bw_bits w' = bw_bits w1 @ messages_enc enc (Some i) (take k ms)" "bw_max_bits w' = bw_max_bits w1"
        "bw_current_bits w' \<le> bw_max_bits w1"
        "k < length ms \<longrightarrow> bw_max_bits w1 < length (bw_bits w1 @ messages_enc enc (Some i) (take (Suc k) ms))" by auto
    have "write_messages_loop ser (x # ms) last_id ids w hw = write_messages_loop ser ms (Some i) (ids @ [i]) w1 True"
      unfolding x write_messages_loop.simps step(1) rbind_simps step(2) w1(1) using True by simp
    with k w1(3,4) x show ?thesis by (intro exI [of _ "Suc k"] exI [of _ w']) simp
  next
    case False
    then have hw: "hw" using Cons.prems(5) x by simp
    have "write_messages_loop ser (x # ms) last_id ids w hw = Inr (ids, x # ms, w, hw)"
      unfolding x write_messages_loop.simps step(1) rbind_simps step(2) using False hw by simp
    with False hw Cons.prems(3,4) x length_bw_bits [OF Cons.prems(3)] show ?thesis
      by (intro exI [of _ 0] exI [of _ w]) simp
  qed
qed

end

section \<open>A resend behind a deferred message\<close>

lemma len_enc_1: "len_enc 3 1 = [False, True, False, False]"
proof -
  have "\<not> (2 ^ 3 :: u128) \<le> 1" by (simp add: word_le_def)
  then show ?thesis
    by (simp add: len_enc_def sn_enc_def sn_new_unchecked_def var_enc.simps wbits_def upt_rec bit_simps)
qed

lemma defer_second:
  "\<exists>w. write_messages u8_ser [(0, a), (1, b)] (bw_with_capacity 30) False = Inr ([0], [(1, b)], w, True)"
proof -
  have e: "length (messages_enc byte_bits None [(0, a)]) = 25" "length (messages_enc byte_bits None [(0, a), (1, b)]) = 38"
    using len_enc_1 by (simp_all add: index_enc_def)
  have c: "chained None [(0 :: u16, a), (1, b)]" by simp
  let ?ms = "[(0 :: u16, a), (1, b)]" and ?w = "bw_with_capacity 30"
  have w: "bw_ok ?w" "bw_bits ?w = []" "bw_current_bits ?w = 0" "bw_max_bits ?w = 30"
    by (simp_all add: bw_ok_with_capacity mtu_simps) (simp_all add: bw_with_capacity_def)
  have v: "\<forall>(i, m)\<in>set ?ms. True \<and> length (byte_bits m) < 2 ^ 31" by simp
  have cw: "bw_current_bits ?w \<le> bw_max_bits ?w" using w by simp
  have f: "bw_current_bits ?w + length (messages_enc byte_bits None (take 1 ?ms)) \<le> bw_max_bits ?w" using w e by simp
  obtain k w' where k: "write_messages_loop u8_ser ?ms None [] ?w False = Inr ([] @ map fst (take k ?ms), drop k ?ms, w', False \<or> take k ?ms \<noteq> [])"
      "bw_ok w'" "bw_bits w' = bw_bits ?w @ messages_enc byte_bits None (take k ?ms)" "bw_current_bits w' \<le> bw_max_bits ?w"
      "k < length ?ms \<longrightarrow> bw_max_bits ?w < length (bw_bits ?w @ messages_enc byte_bits None (take (Suc k) ?ms))"
    using u8_serde.write_messages_loop_ok [OF c v w(1) cw disjI2 [OF f], of "[]" False] by blast
  have l: "length (messages_enc byte_bits None (take k ?ms)) \<le> 30"
    using length_bw_bits [OF k(2)] k(3,4) w by simp
  have "k \<noteq> 0"
  proof
    assume "k = 0"
    with k(5) w e show False by simp
  qed
  moreover have "\<not> 2 \<le> k" using l e by (auto simp: take_all)
  ultimately have "k = 1" by simp
  with k(1) show ?thesis by (simp add: write_messages_def del: write_messages_loop.simps)
qed

lemma resend_panics:
  "write_messages u8_ser [(1, b), (0, a), (1, b)] bw_new False =
     Inl (Panic ''Packet Write Error: Message Index diff is negative in subsequent message'')"
proof -
  have e: "length (True # index_enc None 1 @ byte_bits b) = 25" by (simp add: index_enc_def)
  have l: "length (byte_bits b) < 2 ^ 31" by simp
  note step = u8_serde.write_item_step [OF _ _ l bw_ok_new(1), where last_id = None and i = 1, simplified]
  obtain w where w: "on_writer (write_item u8_ser None 1 b) bw_new = Inr w" "bw_ok w" "bw_bits w = True # index_enc None 1 @ byte_bits b"
    using step(3) e bw_ok_new(2) by (auto simp: bw_new_def index_enc_def mtu_simps)
  have "bw_current_bits w = 25" using length_bw_bits [OF w(2)] w(3) e by simp
  then have "on_counter (write_item u8_ser (Some 1) 0 a) (bw_counter w) =
      Inl (Panic ''Packet Write Error: Message Index diff is negative in subsequent message'')"
    by (simp add: write_item_def bool_ser_def bc_write_bit_def u32_add_def bw_counter_def bc_new_def write_message_def
        write_message_index_def wrapping_diff_eq)
  with w(1) step(1,2) e show ?thesis
    by (simp add: write_messages_def bw_new_def index_enc_def mtu_simps)
qed

section \<open>Property\<close>

text \<open>
  C36. A resend behind a deferred message panics. Two messages are queued and collected, the packet has room
  for the first only, and the second stays in the queue. When the resend time passes with no acknowledgement, the next
  collection appends both again behind it; writing this queue into a fresh packet panics, because the index
  goes from 1 back to 0.
\<close>

theorem resend_behind_deferred_message_panics:
  "let s = fold rs_step [RS_Send a, RS_Send b, RS_Collect 0 d] (rs_new None) in
   \<exists>w. write_messages u8_ser (rs_outgoing_messages s) (bw_with_capacity 30) False = Inr ([0], [(1, b)], w, True) \<and>
     write_messages u8_ser (rs_outgoing_messages (rs_collect_messages d d (s \<lparr> rs_outgoing_messages := [(1, b)] \<rparr>))) bw_new False =
       Inl (Panic ''Packet Write Error: Message Index diff is negative in subsequent message'')"
proof -
  let ?s = "fold rs_step [RS_Send a, RS_Send b, RS_Collect 0 d] (rs_new None)"
  have "rs_outgoing_messages ?s = [(0, a), (1, b)]"
      "rs_outgoing_messages (rs_collect_messages d d (?s \<lparr> rs_outgoing_messages := [(1, b)] \<rparr>)) = [(1, b), (0, a), (1, b)]"
    by (simp_all add: rs_send_message_def rs_new_def rs_collect_messages_def rs_due_def rs_new_min_def elapsed_def Let_def)
  with defer_second [of a b] resend_panics [of b a] show ?thesis by (simp only: Let_def) blast
qed

end
