(* ===== verification/Key_Generator.thy ===== *)
theory Key_Generator
  imports Naia_Prelude
begin

text \<open>
  \<^verbatim>\<open>shared/src/key_generator.rs\<close>: a pool of \<^verbatim>\<open>u16\<close> keys that reuses a returned key after a timeout. The conversions to and
  from the key type are the caller's.
\<close>

record key_generator =
  kg_recycling_keys :: "(u16 \<times> instant) list"
  kg_recycled_keys :: "u16 list"
  kg_recycle_timeout :: nat
  kg_next_new_key :: u16

definition kg_new :: "nat \<Rightarrow> key_generator" where
  "kg_new recycle_timeout =
     \<lparr> kg_recycling_keys = [], kg_recycled_keys = [], kg_recycle_timeout = recycle_timeout, kg_next_new_key = 0 \<rparr>"

fun kg_recycle_loop :: "instant \<Rightarrow> nat \<Rightarrow> (u16 \<times> instant) list \<Rightarrow> u16 list \<Rightarrow> (u16 \<times> instant) list \<times> u16 list" where
  "kg_recycle_loop now timeout [] recycled = ([], recycled)"
| "kg_recycle_loop now timeout ((key, instant) # recycling) recycled =
     (if elapsed instant now < timeout then ((key, instant) # recycling, recycled)
      else kg_recycle_loop now timeout recycling (recycled @ [key]))"

definition kg_generate :: "instant \<Rightarrow> key_generator \<Rightarrow> (u16 \<times> key_generator) res" where
  "kg_generate now kg =
     (let (recycling, recycled) = kg_recycle_loop now (kg_recycle_timeout kg) (kg_recycling_keys kg) (kg_recycled_keys kg);
          kg = kg \<lparr> kg_recycling_keys := recycling, kg_recycled_keys := recycled \<rparr>
      in case recycled of
           key # rest \<Rightarrow> Inr (key, kg \<lparr> kg_recycled_keys := rest \<rparr>)
         | [] \<Rightarrow>
             if kg_next_new_key kg = - 1 then Inl (Panic ''KeyGenerator exhausted: all u16 keys are in use'')
             else Inr (kg_next_new_key kg, kg \<lparr> kg_next_new_key := kg_next_new_key kg + 1 \<rparr>))"

definition kg_recycle_key :: "u16 \<Rightarrow> instant \<Rightarrow> key_generator \<Rightarrow> key_generator" where
  "kg_recycle_key key now kg = kg \<lparr> kg_recycling_keys := kg_recycling_keys kg @ [(key, now)] \<rparr>"

section \<open>Keys in use are distinct\<close>

text \<open>Every key below the next new one is in use, being recycled or recycled, and only one of these.\<close>

definition kg_free :: "key_generator \<Rightarrow> u16 list" where
  "kg_free kg = map fst (kg_recycling_keys kg) @ kg_recycled_keys kg"

definition kg_inv :: "u16 set \<Rightarrow> key_generator \<Rightarrow> bool" where
  "kg_inv used kg \<longleftrightarrow> distinct (kg_free kg) \<and> used \<inter> set (kg_free kg) = {} \<and>
     used \<union> set (kg_free kg) = {..<kg_next_new_key kg}"

lemma kg_recycle_loop_keys:
  "kg_recycle_loop now timeout recycling recycled = (recycling', recycled') \<Longrightarrow>
   set (map fst recycling' @ recycled') = set (map fst recycling @ recycled) \<and>
   (distinct (map fst recycling' @ recycled') \<longleftrightarrow> distinct (map fst recycling @ recycled))"
proof (induction now timeout recycling recycled rule: kg_recycle_loop.induct)
  case (2 now timeout key instant recycling recycled)
  show ?case
  proof (cases "elapsed instant now < timeout")
    case False
    with 2 show ?thesis by auto
  qed (use 2 in auto)
qed simp

lemma kg_inv_new: "kg_inv {} (kg_new timeout)"
  by (auto simp: kg_inv_def kg_free_def kg_new_def)

lemma kg_generate_inv:
  assumes inv: "kg_inv used kg" and gen: "kg_generate now kg = Inr (key, kg')"
  shows "key \<notin> used" "kg_inv (Set.insert key used) kg'"
proof -
  obtain recycling recycled where l: "kg_recycle_loop now (kg_recycle_timeout kg) (kg_recycling_keys kg) (kg_recycled_keys kg) =
      (recycling, recycled)" by (cases "kg_recycle_loop now (kg_recycle_timeout kg) (kg_recycling_keys kg) (kg_recycled_keys kg)")
  note keys = kg_recycle_loop_keys [OF l]
  have free: "distinct (map fst recycling @ recycled)" "used \<inter> set (map fst recycling @ recycled) = {}"
      "used \<union> set (map fst recycling @ recycled) = {..<kg_next_new_key kg}"
    using inv keys by (simp_all add: kg_inv_def kg_free_def)
  have "key \<notin> used \<and> kg_inv (Set.insert key used) kg'"
  proof (cases recycled)
    case Nil
    then have n: "key = kg_next_new_key kg" "kg_next_new_key kg \<noteq> - 1"
        "kg' = kg \<lparr> kg_recycling_keys := recycling, kg_recycled_keys := [], kg_next_new_key := kg_next_new_key kg + 1 \<rparr>"
      using gen l by (auto simp: kg_generate_def Let_def split: if_splits)
    have "kg_next_new_key kg \<notin> used \<union> fst ` set recycling" using free(3) Nil by simp
    with free Nil n show ?thesis by (auto simp: kg_inv_def kg_free_def lessThan_Suc_u16)
  next
    case (Cons k rest)
    then have "key = k" "kg' = kg \<lparr> kg_recycling_keys := recycling, kg_recycled_keys := rest \<rparr>"
      using gen l by (auto simp: kg_generate_def Let_def)
    with Cons free show ?thesis by (auto simp: kg_inv_def kg_free_def)
  qed
  then show "key \<notin> used" "kg_inv (Set.insert key used) kg'" by simp_all
qed

lemma kg_recycle_inv:
  "kg_inv used kg \<Longrightarrow> key \<in> used \<Longrightarrow> kg_inv (used - {key}) (kg_recycle_key key now kg)"
  by (auto simp: kg_inv_def kg_free_def kg_recycle_key_def)

lemma kg_generate_new:
  "kg_recycling_keys kg = [] \<Longrightarrow> kg_recycled_keys kg = [] \<Longrightarrow> kg_next_new_key kg \<noteq> - 1 \<Longrightarrow>
   kg_generate now kg = Inr (kg_next_new_key kg, kg \<lparr> kg_next_new_key := kg_next_new_key kg + 1 \<rparr>)"
  by (simp add: kg_generate_def)

text \<open>The keys in use are determined by the state.\<close>

definition kg_used :: "key_generator \<Rightarrow> u16 set" where
  "kg_used kg = {..<kg_next_new_key kg} - set (kg_free kg)"

lemma kg_inv_used: "kg_inv used kg \<Longrightarrow> used = kg_used kg"
  by (auto simp: kg_inv_def kg_used_def)

lemma kg_generate_used:
  assumes "kg_inv (kg_used kg) kg" "kg_generate now kg = Inr (key, kg')"
  shows "key \<notin> kg_used kg" "kg_inv (kg_used kg') kg'" "kg_used kg' = Set.insert key (kg_used kg)"
  using kg_generate_inv [OF assms] kg_inv_used [of "Set.insert key (kg_used kg)" kg'] by simp_all

lemma kg_recycle_used:
  assumes "kg_inv (kg_used kg) kg" "key \<in> kg_used kg"
  shows "kg_inv (kg_used (kg_recycle_key key now kg)) (kg_recycle_key key now kg)"
    "kg_used (kg_recycle_key key now kg) = kg_used kg - {key}"
  using kg_recycle_inv [OF assms, of now] kg_inv_used [of "kg_used kg - {key}" "kg_recycle_key key now kg"] by simp_all

end
