(* ===== verification/Request_Sender.thy ===== *)
theory Request_Sender
  imports Fragmentation Indexed_Messages Key_Generator
begin

text \<open>
  \<^verbatim>\<open>shared/src/messages/channels/senders/request_sender.rs\<close>: a request goes out in an envelope with a local id of eight
  bits, and the response comes back with the same id. A global request id is a \<^verbatim>\<open>u64\<close>.
\<close>

section \<open>Local ids\<close>

definition local_request_id_from :: "u16 \<Rightarrow> local_request_id" where
  "local_request_id_from i = LocalRequestId (ucast i)"

fun local_request_id_into :: "local_request_id \<Rightarrow> u16" where
  "local_request_id_into (LocalRequestId i) = ucast i"

fun request_receive_from_remote :: "local_request_id \<Rightarrow> local_response_id" where
  "request_receive_from_remote (LocalRequestId i) = LocalResponseId i"

fun response_receive_from_remote :: "local_response_id \<Rightarrow> local_request_id" where
  "response_receive_from_remote (LocalResponseId i) = LocalRequestId i"

definition ror_request :: "local_request_id \<Rightarrow> u8 list \<Rightarrow> request_or_response" where
  "ror_request i bytes = \<lparr> ror_id = RequestId i, ror_bytes = bytes \<rparr>"

definition ror_response :: "local_response_id \<Rightarrow> u8 list \<Rightarrow> request_or_response" where
  "ror_response i bytes = \<lparr> ror_id = ResponseId i, ror_bytes = bytes \<rparr>"

section \<open>The sender\<close>

record request_sender =
  rq_local_key_generator :: key_generator
  rq_local_to_global_ids :: "local_request_id \<rightharpoonup> u64"

definition rq_new :: request_sender where
  "rq_new = \<lparr> rq_local_key_generator = kg_new 60000, rq_local_to_global_ids = Map.empty \<rparr>"

definition process_outgoing_request ::
    "('k, 'm) message_types \<Rightarrow> ('k, 'm) message_kinds \<Rightarrow> instant \<Rightarrow> u64 \<Rightarrow> 'm message \<Rightarrow> request_sender \<Rightarrow>
     ('m message \<times> request_sender) res" where
  "process_outgoing_request mt ks now global_request_id request rq =
     rbind (kg_generate now (rq_local_key_generator rq)) (\<lambda>(key, kg).
       let local_request_id = local_request_id_from key;
           rq = rq \<lparr> rq_local_key_generator := kg,
                     rq_local_to_global_ids := (rq_local_to_global_ids rq)(local_request_id \<mapsto> global_request_id) \<rparr>
       in rbind (on_writer (message_write mt ks request) bw_with_max_capacity) (\<lambda>writer.
          rbind (bw_to_bytes writer) (\<lambda>request_bytes.
          Inr (Request_Or_Response (ror_request local_request_id request_bytes), rq))))"

definition process_outgoing_response ::
    "('k, 'm) message_types \<Rightarrow> ('k, 'm) message_kinds \<Rightarrow> local_response_id \<Rightarrow> 'm message \<Rightarrow> 'm message res" where
  "process_outgoing_response mt ks local_response_id response =
     rbind (on_writer (message_write mt ks response) bw_with_max_capacity) (\<lambda>writer.
     rbind (bw_to_bytes writer) (\<lambda>response_bytes.
     Inr (Request_Or_Response (ror_response local_response_id response_bytes))))"

definition process_incoming_response :: "instant \<Rightarrow> local_request_id \<Rightarrow> request_sender \<Rightarrow> u64 option \<times> request_sender" where
  "process_incoming_response now local_request_id rq =
     (rq_local_to_global_ids rq local_request_id,
      rq \<lparr> rq_local_key_generator := kg_recycle_key (local_request_id_into local_request_id) now (rq_local_key_generator rq),
           rq_local_to_global_ids := (rq_local_to_global_ids rq)(local_request_id := None) \<rparr>)"

section \<open>The envelope\<close>

lemma max_capacity_writer:
  "bw_core bw_with_max_capacity" "bw_bits bw_with_max_capacity = []" "bw_current_bits bw_with_max_capacity = 0"
  "bw_capacity bw_with_max_capacity = 3455"
  by (simp_all add: bw_with_max_capacity_def bw_with_capacity_def bw_core_def bw_bits_def bw_capacity_def mtu_simps)

lemma envelope_bytes:
  assumes "message_types_ok mt enc valid" "message_kinds_ok mt ks" "message_valid mt ks valid m"
  shows "length (message_enc mt ks enc m) \<le> MTU_SIZE_BITS \<Longrightarrow>
      \<exists>w bytes. on_writer (message_write mt ks m) bw_with_max_capacity = Inr w \<and> bw_to_bytes w = Inr bytes \<and>
        (\<exists>r. message_read ks (br_new bytes) = Inr (m, r))"
    and "MTU_SIZE_BITS < length (message_enc mt ks enc m) \<Longrightarrow>
      \<exists>p. rbind (on_writer (message_write mt ks m) bw_with_max_capacity) bw_to_bytes = Inl (Panic p)"
proof -
  let ?bs = "message_enc mt ks enc m"
  note c = message_codec [OF assms(1,2)]
  note w = writes_core [OF codec.ser_writes [OF c assms(3)] max_capacity_writer(1), unfolded max_capacity_writer]
  show "\<exists>w bytes. on_writer (message_write mt ks m) bw_with_max_capacity = Inr w \<and> bw_to_bytes w = Inr bytes \<and>
      (\<exists>r. message_read ks (br_new bytes) = Inr (m, r))" if fit: "length ?bs \<le> MTU_SIZE_BITS"
  proof -
    obtain w' where w': "message_write mt ks m (Writer bw_with_max_capacity) = Inr (Writer w')" "bw_core w'" "bw_bits w' = ?bs"
      using w(1) fit by (auto simp: mtu_simps)
    have "bw_current_bits w' \<le> MTU_SIZE_BITS" using length_core_bits [OF w'(2)] w'(3) fit by simp
    from bw_core_to_bytes [OF w'(2) this] obtain bytes pad where b: "bw_to_bytes w' = Inr bytes" "bytes_bits bytes = ?bs @ pad"
      using w'(3) by auto
    from readsD [OF codec.de_reads [OF c assms(3)] br_new_ok(1), of bytes pad] b(2)
    have "\<exists>r. message_read ks (br_new bytes) = Inr (m, r)" by (auto simp: br_new_ok)
    with w'(1) b(1) show ?thesis by simp
  qed
  show "\<exists>p. rbind (on_writer (message_write mt ks m) bw_with_max_capacity) bw_to_bytes = Inl (Panic p)"
    if long: "MTU_SIZE_BITS < length ?bs"
  proof (cases "length ?bs \<le> 3455")
    case True
    then obtain w' where w': "message_write mt ks m (Writer bw_with_max_capacity) = Inr (Writer w')" "bw_core w'" "bw_bits w' = ?bs"
      using w(1) by auto
    have "MTU_SIZE_BITS < bw_current_bits w'" using length_core_bits [OF w'(2)] w'(3) long by simp
    from bw_core_to_bytes_overflow [OF w'(2) this] w'(1) show ?thesis by simp
  next
    case False
    with w(2) long obtain p where "message_write mt ks m (Writer bw_with_max_capacity) = Inl (Panic p)" by fastforce
    then show ?thesis by simp
  qed
qed

section \<open>Many requests\<close>

fun request_all ::
    "('k, 'm) message_types \<Rightarrow> ('k, 'm) message_kinds \<Rightarrow> instant \<Rightarrow> 'm message \<Rightarrow> u64 list \<Rightarrow> request_sender \<Rightarrow>
     ('m message list \<times> request_sender) res" where
  "request_all mt ks now m [] rq = Inr ([], rq)"
| "request_all mt ks now m (g # gs) rq =
     rbind (process_outgoing_request mt ks now g m rq) (\<lambda>(out, rq).
     rbind (request_all mt ks now m gs rq) (\<lambda>(outs, rq). Inr (out # outs, rq)))"

lemma request_all_ok:
  assumes m: "message_types_ok mt enc valid" "message_kinds_ok mt ks" "message_valid mt ks valid m"
      "length (message_enc mt ks enc m) \<le> MTU_SIZE_BITS"
    and kg: "kg_recycling_keys (rq_local_key_generator rq) = []" "kg_recycled_keys (rq_local_key_generator rq) = []"
      "unat (kg_next_new_key (rq_local_key_generator rq)) + length gs < 2 ^ 16"
  shows "\<exists>bytes rq'. request_all mt ks now m gs rq =
      Inr (map (\<lambda>i. Request_Or_Response (ror_request
        (local_request_id_from (kg_next_new_key (rq_local_key_generator rq) + of_nat i)) bytes)) [0..<length gs], rq') \<and>
    (gs \<noteq> [] \<longrightarrow> rq_local_to_global_ids rq' (local_request_id_from
      (kg_next_new_key (rq_local_key_generator rq) + of_nat (length gs - 1))) = Some (last gs))"
proof -
  obtain w bytes where w: "on_writer (message_write mt ks m) bw_with_max_capacity = Inr w" "bw_to_bytes w = Inr bytes"
    using envelope_bytes(1) [OF m] by blast
  have "\<exists>rq'. request_all mt ks now m gs rq =
      Inr (map (\<lambda>i. Request_Or_Response (ror_request
        (local_request_id_from (kg_next_new_key (rq_local_key_generator rq) + of_nat i)) bytes)) [0..<length gs], rq') \<and>
    (gs \<noteq> [] \<longrightarrow> rq_local_to_global_ids rq' (local_request_id_from
      (kg_next_new_key (rq_local_key_generator rq) + of_nat (length gs - 1))) = Some (last gs))"
    using kg
  proof (induction gs arbitrary: rq)
    case Nil
    then show ?case by simp
  next
    case (Cons g gs)
    let ?n = "kg_next_new_key (rq_local_key_generator rq)"
    have n: "?n \<noteq> - 1" "unat (?n + 1) = unat ?n + 1"
      using Cons.prems(3) by (auto simp: word_unat_eq_iff unsigned_minus_1_eq_mask mask_eq_exp_minus_1 unat_word_ariths(1))
    let ?rq = "rq \<lparr> rq_local_key_generator := (rq_local_key_generator rq) \<lparr> kg_next_new_key := ?n + 1 \<rparr>,
      rq_local_to_global_ids := (rq_local_to_global_ids rq)(local_request_id_from ?n \<mapsto> g) \<rparr>"
    have step: "process_outgoing_request mt ks now g m rq = Inr (Request_Or_Response (ror_request (local_request_id_from ?n) bytes), ?rq)"
      using kg_generate_new [OF Cons.prems(1,2) n(1), of now] w by (simp add: process_outgoing_request_def Let_def)
    have "kg_recycling_keys (rq_local_key_generator ?rq) = []" "kg_recycled_keys (rq_local_key_generator ?rq) = []"
        "unat (kg_next_new_key (rq_local_key_generator ?rq)) + length gs < 2 ^ 16"
      using Cons.prems n(2) by simp_all
    from Cons.IH [OF this] obtain rq' where rq': "request_all mt ks now m gs ?rq =
        Inr (map (\<lambda>i. Request_Or_Response (ror_request
          (local_request_id_from (kg_next_new_key (rq_local_key_generator ?rq) + of_nat i)) bytes)) [0..<length gs], rq')"
      "gs \<noteq> [] \<longrightarrow> rq_local_to_global_ids rq' (local_request_id_from
        (kg_next_new_key (rq_local_key_generator ?rq) + of_nat (length gs - 1))) = Some (last gs)"
      by blast
    have u: "[0..<length (g # gs)] = 0 # map Suc [0..<length gs]" 
      using upt_conv_Cons [of 0 "Suc (length gs)"] by (simp add: map_Suc_upt del: upt_Suc)
    have "rq_local_to_global_ids rq' (local_request_id_from (?n + of_nat (length (g # gs) - 1))) = Some (last (g # gs))"
      using rq' by (cases gs) (auto simp: add.assoc)
    then show ?case unfolding u using step rq'(1) by (simp add: o_def add.assoc)
  qed
  then show ?thesis by blast
qed

section \<open>Properties\<close>

text \<open>
  A request that does not fit a packet panics: its envelope is written with the maximal capacity into a buffer of the
  size of a packet, and requests, unlike messages, are not fragmented.
\<close>

theorem oversized_request_panics:
  assumes "message_types_ok mt enc valid" "message_kinds_ok mt ks" "message_valid mt ks valid m"
    and "MTU_SIZE_BITS < length (message_enc mt ks enc m)" "kg_generate now (rq_local_key_generator rq) = Inr (key, kg)"
  shows "\<exists>p. process_outgoing_request mt ks now g m rq = Inl (Panic p)"
proof -
  obtain p where "rbind (on_writer (message_write mt ks m) bw_with_max_capacity) bw_to_bytes = Inl (Panic p)"
    using envelope_bytes(2) [OF assms(1-4)] by blast
  then show ?thesis using assms(5) by (auto simp: process_outgoing_request_def Let_def rbind_eq_Inl)
qed

theorem oversized_request_panics_witness:
  "\<exists>ks p. rbind (default_message_kinds byte_messages) (add_message byte_messages (Application_Kind ()) ''Text'') = Inr ks \<and>
    process_outgoing_request byte_messages ks 0 1 (Application (replicate 431 7)) rq_new = Inl (Panic p)"
proof -
  let ?m = "Application (replicate 431 7) :: u8 list message"
  obtain ks where ks: "rbind (default_message_kinds byte_messages) (add_message byte_messages (Application_Kind ()) ''Text'') = Inr ks"
      "message_kinds_ok byte_messages ks" "message_valid byte_messages ks (\<lambda>bs. length bs < 2 ^ 63) ?m"
      "8 * 431 \<le> length (message_enc byte_messages ks bytes_enc ?m)"
    using byte_messages_registered by (auto dest!: spec [of _ "replicate 431 7"])
  have gen: "kg_generate 0 (rq_local_key_generator rq_new) = Inr (0, (kg_new 60000) \<lparr> kg_next_new_key := 1 \<rparr>)"
    using kg_generate_new [of "kg_new 60000" 0] by (simp add: rq_new_def kg_new_def)
  show ?thesis
    using oversized_request_panics [OF byte_messages_ok ks(2,3) _ gen, of 1] ks(1,4) by (auto simp: mtu_simps)
qed

text \<open>
  C38. The local request ids collide: a key of sixteen bits is cut to eight, so with 257 requests under way the last one takes
  the id of the first, and the response to the first is handed to the last.
\<close>

theorem request_ids_collide:
  assumes "message_types_ok mt enc valid" "message_kinds_ok mt ks" "message_valid mt ks valid m"
    and "length (message_enc mt ks enc m) \<le> MTU_SIZE_BITS" "length gs = 257"
  shows "\<exists>outs bytes rq. request_all mt ks now m gs rq_new = Inr (outs, rq) \<and>
    outs ! 0 = Request_Or_Response (ror_request (LocalRequestId 0) bytes) \<and>
    fst (process_incoming_response now' (LocalRequestId 0) rq) = Some (gs ! 256)"
proof -
  have k: "local_request_id_from (of_nat 256) = LocalRequestId 0" "local_request_id_from (of_nat 0) = LocalRequestId 0"
    by (simp_all add: local_request_id_from_def)
  have ne: "gs \<noteq> []" using assms(5) by auto
  then have "last gs = gs ! 256" using assms(5) by (simp add: last_conv_nth)
  with ne request_all_ok [OF assms(1-4), of rq_new gs now] assms(5) obtain bytes rq where r: "request_all mt ks now m gs rq_new =
      Inr (map (\<lambda>i. Request_Or_Response (ror_request (local_request_id_from (of_nat i)) bytes)) [0..<length gs], rq)"
    "rq_local_to_global_ids rq (local_request_id_from (of_nat 256)) = Some (gs ! 256)"
    by (auto simp: rq_new_def kg_new_def)
  moreover have "map (\<lambda>i. Request_Or_Response (ror_request (local_request_id_from (of_nat i)) bytes)) [0..<length gs] ! 0 =
      Request_Or_Response (ror_request (LocalRequestId 0) bytes)"
    using assms(5) k(2) by (simp del: of_nat_0)
  ultimately show ?thesis using k(1) by (auto simp: process_incoming_response_def)
qed

theorem request_ids_collide_witness:
  "\<exists>ks outs bytes rq. rbind (default_message_kinds byte_messages) (add_message byte_messages (Application_Kind ()) ''Text'') = Inr ks \<and>
    request_all byte_messages ks 0 (Application [1]) (map of_nat [0..<257]) rq_new = Inr (outs, rq) \<and>
    outs ! 0 = Request_Or_Response (ror_request (LocalRequestId 0) bytes) \<and>
    fst (process_incoming_response 0 (LocalRequestId 0) rq) = Some 256"
proof -
  let ?m = "Application [1] :: u8 list message"
  obtain ks where ks: "rbind (default_message_kinds byte_messages) (add_message byte_messages (Application_Kind ()) ''Text'') = Inr ks"
      "message_kinds_ok byte_messages ks" "message_valid byte_messages ks (\<lambda>bs. length bs < 2 ^ 63) ?m"
      "length (message_enc byte_messages ks bytes_enc ?m) \<le> MTU_SIZE_BITS"
    using byte_messages_registered by (auto simp: mtu_simps dest!: spec [of _ "[1]"])
  have "map of_nat [0..<257] ! 256 = (256 :: u64)" by simp
  with request_ids_collide [OF byte_messages_ok ks(2-4), of "map of_nat [0..<257]" 0 0] ks(1) show ?thesis by (auto simp del: upt_rec_numeral)
qed

end
