(* ===== verification/Channel_Senders.thy ===== *)
theory Channel_Senders
  imports Request_Sender Channels
begin

text \<open>
  The senders of the message channels, in \<^verbatim>\<open>shared/src/messages/channels/senders\<close>: \<^verbatim>\<open>unordered_unreliable_sender.rs\<close>,
  \<^verbatim>\<open>sequenced_unreliable_sender.rs\<close> and \<^verbatim>\<open>reliable_message_sender.rs\<close>, and the traits of \<^verbatim>\<open>channel_sender.rs\<close> as
  operations on the datatype of the three. The product of the resend factor of a channel with the round trip time, a
  number of milliseconds, is the argument \<open>resend\<close>, a function of the factor.
\<close>

section \<open>Unreliable senders\<close>

definition MAX_QUEUE_DEPTH :: nat where
  "MAX_QUEUE_DEPTH = 1024"

text \<open>\<^verbatim>\<open>pop_front\<close> when the queue has reached the bound, then \<^verbatim>\<open>push_back\<close>.\<close>

definition push_bounded :: "'a \<Rightarrow> 'a list \<Rightarrow> 'a list" where
  "push_bounded x queue = (if MAX_QUEUE_DEPTH \<le> length queue then tl queue else queue) @ [x]"

record 'm unordered_unreliable_sender =
  uus_outgoing_messages :: "'m message list"

definition uus_new :: "'m unordered_unreliable_sender" where
  "uus_new = \<lparr> uus_outgoing_messages = [] \<rparr>"

definition uus_send_message :: "'m message \<Rightarrow> 'm unordered_unreliable_sender \<Rightarrow> 'm unordered_unreliable_sender" where
  "uus_send_message message s = s \<lparr> uus_outgoing_messages := push_bounded message (uus_outgoing_messages s) \<rparr>"

text \<open>The continue bit and the message.\<close>

definition write_plain :: "('m \<Rightarrow> bit_write \<Rightarrow> bit_write res) \<Rightarrow> 'm \<Rightarrow> bit_write \<Rightarrow> bit_write res" where
  "write_plain ser message w = rbind (bool_ser True w) (ser message)"

fun uus_write_loop ::
    "('m \<Rightarrow> bit_write \<Rightarrow> bit_write res) \<Rightarrow> 'm list \<Rightarrow> bit_writer \<Rightarrow> bool \<Rightarrow> ('m list \<times> bit_writer \<times> bool) res" where
  "uus_write_loop ser [] w has_written = Inr ([], w, has_written)"
| "uus_write_loop ser (message # messages) w has_written =
     rbind (on_counter (write_plain ser message) (bw_counter w)) (\<lambda>counter.
       if bc_overflowed counter then
         if \<not> has_written then
           rbind (bc_bits_needed counter) (\<lambda>bits_needed. rbind (bw_bits_free w) (\<lambda>bits_free. warn_overflow bits_needed bits_free))
         else Inr (message # messages, w, has_written)
       else rbind (on_writer (write_plain ser message) w) (\<lambda>w. uus_write_loop ser messages w True))"

record 'm sequenced_unreliable_sender =
  sus_outgoing_messages :: "(u16 \<times> 'm message) list"
  sus_next_send_message_index :: u16

definition sus_new :: "'m sequenced_unreliable_sender" where
  "sus_new = \<lparr> sus_outgoing_messages = [], sus_next_send_message_index = 0 \<rparr>"

definition sus_send_message :: "'m message \<Rightarrow> 'm sequenced_unreliable_sender \<Rightarrow> 'm sequenced_unreliable_sender" where
  "sus_send_message message s =
     s \<lparr> sus_outgoing_messages := push_bounded (sus_next_send_message_index s, message) (sus_outgoing_messages s),
         sus_next_send_message_index := sus_next_send_message_index s + 1 \<rparr>"

section \<open>The reliable sender\<close>

record 'm reliable_message_sender =
  rms_rtt_resend_factor :: rat
  rms_reliable_sender :: "'m message reliable_sender"
  rms_request_sender :: request_sender

definition rms_new :: "rat \<Rightarrow> nat option \<Rightarrow> 'm reliable_message_sender" where
  "rms_new factor depth =
     \<lparr> rms_rtt_resend_factor = factor, rms_reliable_sender = rs_new depth, rms_request_sender = rq_new \<rparr>"

definition rms_send_message :: "'m message \<Rightarrow> 'm reliable_message_sender \<Rightarrow> bool \<times> 'm reliable_message_sender" where
  "rms_send_message message s =
     (let (accepted, rs) = rs_send_message message (rms_reliable_sender s) in (accepted, s \<lparr> rms_reliable_sender := rs \<rparr>))"

section \<open>The traits\<close>

datatype 'm channel_sender =
    UnorderedUnreliableSender "'m unordered_unreliable_sender"
  | SequencedUnreliableSender "'m sequenced_unreliable_sender"
  | ReliableMessageSender "'m reliable_message_sender"

fun sender_send_message :: "'m message \<Rightarrow> 'm channel_sender \<Rightarrow> bool \<times> 'm channel_sender" where
  "sender_send_message message (UnorderedUnreliableSender s) = (True, UnorderedUnreliableSender (uus_send_message message s))"
| "sender_send_message message (SequencedUnreliableSender s) = (True, SequencedUnreliableSender (sus_send_message message s))"
| "sender_send_message message (ReliableMessageSender s) =
     (let (accepted, s) = rms_send_message message s in (accepted, ReliableMessageSender s))"

fun sender_collect_messages :: "instant \<Rightarrow> (rat \<Rightarrow> nat) \<Rightarrow> 'm channel_sender \<Rightarrow> 'm channel_sender" where
  "sender_collect_messages now resend (ReliableMessageSender s) =
     ReliableMessageSender (s \<lparr> rms_reliable_sender :=
       rs_collect_messages now (resend (rms_rtt_resend_factor s)) (rms_reliable_sender s) \<rparr>)"
| "sender_collect_messages now resend s = s"

fun sender_has_messages :: "'m channel_sender \<Rightarrow> bool" where
  "sender_has_messages (UnorderedUnreliableSender s) = (uus_outgoing_messages s \<noteq> [])"
| "sender_has_messages (SequencedUnreliableSender s) = (sus_outgoing_messages s \<noteq> [])"
| "sender_has_messages (ReliableMessageSender s) = rs_has_messages (rms_reliable_sender s)"

fun sender_notify_message_delivered :: "u16 \<Rightarrow> 'm channel_sender \<Rightarrow> 'm channel_sender" where
  "sender_notify_message_delivered message_index (ReliableMessageSender s) =
     ReliableMessageSender (s \<lparr> rms_reliable_sender := rs_notify_message_delivered message_index (rms_reliable_sender s) \<rparr>)"
| "sender_notify_message_delivered message_index s = s"

text \<open>The message indices are \<^verbatim>\<open>Some\<close> also where no message was written.\<close>

fun sender_write_messages ::
    "('m message \<Rightarrow> bit_write \<Rightarrow> bit_write res) \<Rightarrow> 'm channel_sender \<Rightarrow> bit_writer \<Rightarrow> bool \<Rightarrow>
     (u16 list option \<times> 'm channel_sender \<times> bit_writer \<times> bool) res" where
  "sender_write_messages ser (UnorderedUnreliableSender s) w has_written =
     rbind (uus_write_loop ser (uus_outgoing_messages s) w has_written) (\<lambda>(queue, w, has_written).
       Inr (None, UnorderedUnreliableSender (s \<lparr> uus_outgoing_messages := queue \<rparr>), w, has_written))"
| "sender_write_messages ser (SequencedUnreliableSender s) w has_written =
     rbind (write_messages ser (sus_outgoing_messages s) w has_written) (\<lambda>(indices, queue, w, has_written).
       Inr (Some indices, SequencedUnreliableSender (s \<lparr> sus_outgoing_messages := queue \<rparr>), w, has_written))"
| "sender_write_messages ser (ReliableMessageSender s) w has_written =
     rbind (write_messages ser (rs_outgoing_messages (rms_reliable_sender s)) w has_written) (\<lambda>(indices, queue, w, has_written).
       Inr (Some indices, ReliableMessageSender (s \<lparr> rms_reliable_sender :=
         (rms_reliable_sender s) \<lparr> rs_outgoing_messages := queue \<rparr> \<rparr>), w, has_written))"

fun sender_send_outgoing_request ::
    "('k, 'm) message_types \<Rightarrow> ('k, 'm) message_kinds \<Rightarrow> instant \<Rightarrow> u64 \<Rightarrow> 'm message \<Rightarrow> 'm channel_sender \<Rightarrow> 'm channel_sender res" where
  "sender_send_outgoing_request mt ks now global_request_id request (ReliableMessageSender s) =
     rbind (process_outgoing_request mt ks now global_request_id request (rms_request_sender s)) (\<lambda>(processed_request, rq).
       Inr (ReliableMessageSender (snd (rms_send_message processed_request (s \<lparr> rms_request_sender := rq \<rparr>)))))"
| "sender_send_outgoing_request mt ks now global_request_id request s = Inl (Panic ''channel does not support requests'')"

fun sender_send_outgoing_response ::
    "('k, 'm) message_types \<Rightarrow> ('k, 'm) message_kinds \<Rightarrow> local_response_id \<Rightarrow> 'm message \<Rightarrow> 'm channel_sender \<Rightarrow> 'm channel_sender res" where
  "sender_send_outgoing_response mt ks local_response_id response (ReliableMessageSender s) =
     rbind (process_outgoing_response mt ks local_response_id response) (\<lambda>processed_response.
       Inr (ReliableMessageSender (snd (rms_send_message processed_response s))))"
| "sender_send_outgoing_response mt ks local_response_id response s = Inl (Panic ''channel does not support requests'')"

fun sender_process_incoming_response ::
    "instant \<Rightarrow> local_request_id \<Rightarrow> 'm channel_sender \<Rightarrow> (u64 option \<times> 'm channel_sender) res" where
  "sender_process_incoming_response now local_request_id (ReliableMessageSender s) =
     (let (global_request_id, rq) = process_incoming_response now local_request_id (rms_request_sender s)
      in Inr (global_request_id, ReliableMessageSender (s \<lparr> rms_request_sender := rq \<rparr>)))"
| "sender_process_incoming_response now local_request_id s = Inl (Panic ''channel does not support requests'')"

section \<open>What a sender writes\<close>

text \<open>The queue of a sender as the packet sees it: with indices or without.\<close>

datatype 'm payload = Indexed "(u16 \<times> 'm) list" | Plain "'m list"

fun sender_queue :: "'m channel_sender \<Rightarrow> 'm message payload" where
  "sender_queue (UnorderedUnreliableSender s) = Plain (uus_outgoing_messages s)"
| "sender_queue (SequencedUnreliableSender s) = Indexed (sus_outgoing_messages s)"
| "sender_queue (ReliableMessageSender s) = Indexed (rs_outgoing_messages (rms_reliable_sender s))"

fun payload_messages :: "'m payload \<Rightarrow> 'm list" where
  "payload_messages (Indexed ms) = map snd ms"
| "payload_messages (Plain ms) = ms"

fun payload_take :: "nat \<Rightarrow> 'm payload \<Rightarrow> 'm payload" where
  "payload_take k (Indexed ms) = Indexed (take k ms)"
| "payload_take k (Plain ms) = Plain (take k ms)"

fun payload_drop :: "nat \<Rightarrow> 'm payload \<Rightarrow> 'm payload" where
  "payload_drop k (Indexed ms) = Indexed (drop k ms)"
| "payload_drop k (Plain ms) = Plain (drop k ms)"

fun payload_enc :: "('m \<Rightarrow> bool list) \<Rightarrow> 'm payload \<Rightarrow> bool list" where
  "payload_enc enc (Indexed ms) = messages_enc enc None ms"
| "payload_enc enc (Plain ms) = concat (map (\<lambda>m. True # enc m) ms)"

fun payload_ok :: "('m \<Rightarrow> bool) \<Rightarrow> 'm payload \<Rightarrow> bool" where
  "payload_ok P (Indexed ms) = (chained None ms \<and> list_all (\<lambda>(i, m). P m) ms)"
| "payload_ok P (Plain ms) = list_all P ms"

fun payload_indices :: "'m payload \<Rightarrow> u16 list option" where
  "payload_indices (Indexed ms) = Some (map fst ms)"
| "payload_indices (Plain ms) = None"

context codec
begin

lemma write_plain_writes: "valid m \<Longrightarrow> sink.writes (write_plain ser m) (True # enc m)"
  using sink.writes_bind [OF bool_serde.ser_writes [of True] ser_writes] by (simp add: write_plain_def [abs_def])

lemma uus_write_loop_ok:
  assumes "list_all (\<lambda>m. valid m \<and> length (enc m) < 2 ^ 31) ms" "bw_ok w" "bw_current_bits w \<le> bw_max_bits w"
    and "hw \<or> bw_current_bits w + length (payload_enc enc (Plain (take 1 ms))) \<le> bw_max_bits w"
  shows "\<exists>k w'. uus_write_loop ser ms w hw = Inr (drop k ms, w', hw \<or> take k ms \<noteq> []) \<and> bw_ok w' \<and>
    bw_bits w' = bw_bits w @ payload_enc enc (Plain (take k ms)) \<and> bw_max_bits w' = bw_max_bits w \<and>
    bw_current_bits w' \<le> bw_max_bits w \<and> (hw \<or> ms = [] \<or> take k ms \<noteq> [])"
  using assms
proof (induction ms arbitrary: w hw)
  case Nil
  then show ?case by (intro exI [of _ 0]) simp
next
  case (Cons m ms)
  let ?n = "length (True # enc m)"
  have m: "valid m" "length (enc m) < 2 ^ 31" using Cons.prems(1) by simp_all
  note wr = write_plain_writes [OF m(1)]
  have c: "on_counter (write_plain ser m) (bw_counter w) = Inr ((bw_counter w) \<lparr> bc_current_bits := bw_current_bits w + ?n \<rparr>)"
    using writes_Counter [OF wr, of "bw_counter w"] m(2) Cons.prems(2) by (simp add: bw_counter_def bc_new_def bw_ok_def mtu_simps)
  have o: "bc_overflowed ((bw_counter w) \<lparr> bc_current_bits := bw_current_bits w + ?n \<rparr>) \<longleftrightarrow> bw_max_bits w < bw_current_bits w + ?n"
    by (simp add: bc_overflowed_def bw_counter_def bc_new_def)
  show ?case
  proof (cases "bw_current_bits w + ?n \<le> bw_max_bits w")
    case True
    obtain w1 where w1: "write_plain ser m (Writer w) = Inr (Writer w1)" "bw_ok w1" "bw_bits w1 = bw_bits w @ True # enc m"
        "bw_max_bits w1 = bw_max_bits w"
      using writes_Writer [OF wr Cons.prems(2)] True by blast
    have "bw_current_bits w1 = bw_current_bits w + ?n"
      using length_bw_bits [OF w1(2)] length_bw_bits [OF Cons.prems(2)] w1(3) by simp
    then have "bw_current_bits w1 \<le> bw_max_bits w1" using True w1(4) by simp
    from Cons.IH [OF _ w1(2) this, of True] Cons.prems(1) obtain k w'
      where k: "uus_write_loop ser ms w1 True = Inr (drop k ms, w', True)" "bw_ok w'"
        "bw_bits w' = bw_bits w1 @ payload_enc enc (Plain (take k ms))" "bw_max_bits w' = bw_max_bits w1"
        "bw_current_bits w' \<le> bw_max_bits w1" by auto
    have "uus_write_loop ser (m # ms) w hw = uus_write_loop ser ms w1 True"
      unfolding uus_write_loop.simps c rbind_simps o using True w1(1) by simp
    with k w1(3,4) show ?thesis by (intro exI [of _ "Suc k"] exI [of _ w']) simp
  next
    case False
    then have hw: hw using Cons.prems(4) by simp
    have "uus_write_loop ser (m # ms) w hw = Inr (m # ms, w, hw)"
      unfolding uus_write_loop.simps c rbind_simps o using False hw by simp
    with hw Cons.prems(2,3) show ?thesis by (intro exI [of _ 0] exI [of _ w]) simp
  qed
qed

end

end
