(* ===== verification/Entity_Waitlist.thy ===== *)
theory Entity_Waitlist
  imports Key_Generator
begin

text \<open>
  \<^verbatim>\<open>shared/src/world/remote/remote_entity_waitlist.rs\<close>: items (messages, component updates) that mention entities which are
  not in scope yet wait for them. The waitlist knows the handles of the items, each receiver keeps its items in a
  store of its own. A set of entities is a list without repetitions, in the order in which the source iterates over
  it; the order in which a set of handles is iterated over is the argument \<open>order\<close>.
\<close>

section \<open>Stores\<close>

record 'i waitlist_store =
  ws_item_handles :: "u16 set"
  ws_items :: "u16 \<rightharpoonup> 'i"

definition ws_new :: "'i waitlist_store" where
  "ws_new = \<lparr> ws_item_handles = {}, ws_items = Map.empty \<rparr>"

definition ws_queue :: "u16 \<Rightarrow> 'i \<Rightarrow> 'i waitlist_store \<Rightarrow> 'i waitlist_store" where
  "ws_queue handle item s = s \<lparr> ws_item_handles := Set.insert handle (ws_item_handles s), ws_items := (ws_items s)(handle \<mapsto> item) \<rparr>"

definition ws_remove :: "u16 \<Rightarrow> 'i waitlist_store \<Rightarrow> 'i option \<times> 'i waitlist_store" where
  "ws_remove handle s =
     (ws_items s handle, s \<lparr> ws_item_handles := ws_item_handles s - {handle}, ws_items := (ws_items s)(handle := None) \<rparr>)"

fun ws_collect_loop :: "u16 list \<Rightarrow> 'i list \<Rightarrow> u16 set \<Rightarrow> 'i waitlist_store \<Rightarrow> ('i list \<times> u16 set \<times> 'i waitlist_store) res" where
  "ws_collect_loop [] messages ready s = Inr (messages, ready, s)"
| "ws_collect_loop (handle # handles) messages ready s =
     (case ws_remove handle s of
        (None, s) \<Rightarrow> Inl (Panic ''called `Option::unwrap()` on a `None` value'')
      | (Some item, s) \<Rightarrow> ws_collect_loop handles (messages @ [item]) (ready - {handle}) s)"

definition ws_collect_ready_items ::
    "(u16 set \<Rightarrow> u16 list) \<Rightarrow> u16 set \<Rightarrow> 'i waitlist_store \<Rightarrow> ('i list option \<times> u16 set \<times> 'i waitlist_store) res" where
  "ws_collect_ready_items order ready s =
     (let intersection = ws_item_handles s \<inter> ready in
      if intersection = {} then Inr (None, ready, s)
      else rbind (ws_collect_loop (order intersection) [] ready s) (\<lambda>(messages, ready, s). Inr (Some messages, ready, s)))"

definition ws_remove_expired_items ::
    "(u16 set \<Rightarrow> u16 list) \<Rightarrow> u16 set \<Rightarrow> 'i waitlist_store \<Rightarrow> u16 set \<times> 'i waitlist_store" where
  "ws_remove_expired_items order expired s =
     fold (\<lambda>handle (expired, s). (expired - {handle}, snd (ws_remove handle s))) (order (ws_item_handles s \<inter> expired)) (expired, s)"

section \<open>The waitlist\<close>

definition PER_ENTITY_WAITLIST_CAP :: nat where
  "PER_ENTITY_WAITLIST_CAP = 128"

record 'e waitlist =
  wl_handle_store :: key_generator
  wl_required :: "u16 \<rightharpoonup> 'e list"
  wl_waiting :: "'e \<rightharpoonup> u16 list"
  wl_ready_handles :: "u16 set"
  wl_removed_handles :: "u16 set"
  wl_handle_ttls :: "(instant \<times> u16) list"
  wl_handle_ttl :: nat

definition wl_new :: "'e waitlist" where
  "wl_new = \<lparr> wl_handle_store = kg_new 60000, wl_required = Map.empty, wl_waiting = Map.empty,
     wl_ready_handles = {}, wl_removed_handles = {}, wl_handle_ttls = [], wl_handle_ttl = 60000 \<rparr>"

definition required_entities_are_in_scope :: "('e \<Rightarrow> bool) \<Rightarrow> 'e list \<Rightarrow> bool" where
  "required_entities_are_in_scope in_scope entities = list_all in_scope entities"

text \<open>\<^verbatim>\<open>iter().position(..)\<close> and \<^verbatim>\<open>remove(index)\<close>.\<close>

fun remove_ttl :: "u16 \<Rightarrow> (instant \<times> u16) list \<Rightarrow> (instant \<times> u16) list" where
  "remove_ttl handle [] = []"
| "remove_ttl handle ((t, h) # ttls) = (if h = handle then ttls else (t, h) # remove_ttl handle ttls)"

definition remove_from_entity :: "u16 \<Rightarrow> 'e \<Rightarrow> ('e \<rightharpoonup> u16 list) \<Rightarrow> ('e \<rightharpoonup> u16 list)" where
  "remove_from_entity handle entity waiting =
     (case waiting entity of
        None \<Rightarrow> waiting
      | Some queue \<Rightarrow>
          (let queue = filter (\<lambda>h. h \<noteq> handle) queue in
           waiting(entity := if queue = [] then None else Some queue)))"

definition wl_remove_waiting_handle :: "instant \<Rightarrow> u16 \<Rightarrow> 'e waitlist \<Rightarrow> 'e waitlist res" where
  "wl_remove_waiting_handle now handle wl =
     (let wl = wl \<lparr> wl_handle_ttls := remove_ttl handle (wl_handle_ttls wl) \<rparr> in
      case wl_required wl handle of
        None \<Rightarrow> Inl (Panic ''called `Option::unwrap()` on a `None` value'')
      | Some entities \<Rightarrow>
          Inr (wl \<lparr> wl_required := (wl_required wl)(handle := None),
                    wl_handle_store := kg_recycle_key handle now (wl_handle_store wl),
                    wl_waiting := fold (remove_from_entity handle) entities (wl_waiting wl) \<rparr>))"

text \<open>The oldest handle of every entity whose queue is full is taken out of it.\<close>

fun evict :: "'e list \<Rightarrow> u16 set \<Rightarrow> ('e \<rightharpoonup> u16 list) \<Rightarrow> u16 set \<times> ('e \<rightharpoonup> u16 list)" where
  "evict [] evictions waiting = (evictions, waiting)"
| "evict (entity # entities) evictions waiting =
     (case waiting entity of
        Some (h # queue) \<Rightarrow>
          if PER_ENTITY_WAITLIST_CAP \<le> length (h # queue)
          then evict entities (Set.insert h evictions) (waiting(entity \<mapsto> queue))
          else evict entities evictions waiting
      | _ \<Rightarrow> evict entities evictions waiting)"

definition enqueue :: "u16 \<Rightarrow> 'e \<Rightarrow> ('e \<rightharpoonup> u16 list) \<Rightarrow> ('e \<rightharpoonup> u16 list)" where
  "enqueue handle entity waiting =
     waiting(entity \<mapsto> (case waiting entity of None \<Rightarrow> [] | Some queue \<Rightarrow> queue) @ [handle])"

definition wl_queue ::
    "(u16 set \<Rightarrow> u16 list) \<Rightarrow> ('e \<Rightarrow> bool) \<Rightarrow> instant \<Rightarrow> 'e list \<Rightarrow> 'i \<Rightarrow> 'i waitlist_store \<Rightarrow> 'e waitlist \<Rightarrow>
     (u16 \<times> 'i waitlist_store \<times> 'e waitlist) res" where
  "wl_queue order in_scope now entities item store wl =
     rbind (kg_generate now (wl_handle_store wl)) (\<lambda>(new_handle, kg).
       let wl = wl \<lparr> wl_handle_store := kg \<rparr> in
       if required_entities_are_in_scope in_scope entities
       then Inr (new_handle, ws_queue new_handle item store,
              wl \<lparr> wl_ready_handles := Set.insert new_handle (wl_ready_handles wl) \<rparr>)
       else
         (let (evictions, waiting) = evict entities {} (wl_waiting wl) in
          rbind (rfold (\<lambda>evicted wl. wl_remove_waiting_handle now evicted
                    (wl \<lparr> wl_removed_handles := Set.insert evicted (wl_removed_handles wl) \<rparr>))
                  (order evictions) (wl \<lparr> wl_waiting := waiting \<rparr>)) (\<lambda>wl.
            Inr (new_handle, ws_queue new_handle item store,
              wl \<lparr> wl_waiting := fold (enqueue new_handle) entities (wl_waiting wl),
                   wl_handle_ttls := wl_handle_ttls wl @ [(now, new_handle)],
                   wl_required := (wl_required wl)(new_handle \<mapsto> entities) \<rparr>))))"

definition wl_spawn_entity :: "('e \<Rightarrow> bool) \<Rightarrow> instant \<Rightarrow> 'e \<Rightarrow> 'e waitlist \<Rightarrow> 'e waitlist res" where
  "wl_spawn_entity in_scope now entity wl =
     (let outgoing_handles =
        (case wl_waiting wl entity of
           None \<Rightarrow> []
         | Some message_set \<Rightarrow> filter (\<lambda>h. case wl_required wl h of
               None \<Rightarrow> False | Some entities \<Rightarrow> required_entities_are_in_scope in_scope entities) message_set)
      in rfold (\<lambda>h wl. wl_remove_waiting_handle now h (wl \<lparr> wl_ready_handles := Set.insert h (wl_ready_handles wl) \<rparr>))
           outgoing_handles wl)"

lemma length_remove_ttl: "length (remove_ttl handle ttls) \<le> length ttls"
  by (induction handle ttls rule: remove_ttl.induct) auto

lemma wl_remove_waiting_handle_ttls:
  "wl_remove_waiting_handle now handle wl = Inr wl' \<Longrightarrow> wl_handle_ttls wl' = remove_ttl handle (wl_handle_ttls wl)"
  by (auto simp: wl_remove_waiting_handle_def Let_def split: option.splits)

function wl_check_handle_ttls :: "instant \<Rightarrow> 'e waitlist \<Rightarrow> 'e waitlist res" where
  "wl_check_handle_ttls now wl =
     (case wl_handle_ttls wl of
        [] \<Rightarrow> Inr wl
      | (ttl, handle) # ttls \<Rightarrow>
          if elapsed ttl now < wl_handle_ttl wl then Inr wl
          else rbind (wl_remove_waiting_handle now handle (wl \<lparr> wl_handle_ttls := ttls,
                   wl_removed_handles := Set.insert handle (wl_removed_handles wl) \<rparr>))
                 (wl_check_handle_ttls now))"
  by pat_completeness auto
termination
  by (relation "measure (\<lambda>(now, wl). length (wl_handle_ttls wl))")
    (auto simp: wl_remove_waiting_handle_ttls le_imp_less_Suc length_remove_ttl)

declare wl_check_handle_ttls.simps [simp del]

definition wl_collect_ready_items ::
    "(u16 set \<Rightarrow> u16 list) \<Rightarrow> instant \<Rightarrow> 'i waitlist_store \<Rightarrow> 'e waitlist \<Rightarrow>
     ('i list option \<times> 'i waitlist_store \<times> 'e waitlist) res" where
  "wl_collect_ready_items order now store wl =
     rbind (wl_check_handle_ttls now wl) (\<lambda>wl.
       let (removed, store) = ws_remove_expired_items order (wl_removed_handles wl) store;
           wl = wl \<lparr> wl_removed_handles := removed \<rparr>
       in if wl_ready_handles wl = {} then Inr (None, store, wl)
          else rbind (ws_collect_ready_items order (wl_ready_handles wl) store) (\<lambda>(items, ready, store).
            Inr (items, store, wl \<lparr> wl_ready_handles := ready \<rparr>)))"

section \<open>The invariant\<close>

definition waits :: "('e \<rightharpoonup> u16 list) \<Rightarrow> 'e \<Rightarrow> u16 set" where
  "waits waiting e = (case waiting e of None \<Rightarrow> {} | Some queue \<Rightarrow> set queue)"

definition queues_ok :: "('e \<rightharpoonup> u16 list) \<Rightarrow> bool" where
  "queues_ok waiting \<longleftrightarrow> (\<forall>e queue. waiting e = Some queue \<longrightarrow> queue \<noteq> [] \<and> distinct queue)"

lemma remove_from_entity_ok:
  assumes "queues_ok w"
  shows "queues_ok (remove_from_entity h e w)"
    and "waits (remove_from_entity h e w) e' = (if e' = e then waits w e' - {h} else waits w e')"
  using assms by (auto simp: remove_from_entity_def queues_ok_def waits_def Let_def filter_empty_conv split: option.splits)

lemma fold_remove_ok:
  assumes "queues_ok w"
  shows "queues_ok (fold (remove_from_entity h) es w) \<and>
    waits (fold (remove_from_entity h) es w) e = (if e \<in> set es then waits w e - {h} else waits w e)"
  using assms by (induction es arbitrary: w) (auto simp: remove_from_entity_ok)

lemma enqueue_ok:
  assumes "queues_ok w" "h \<notin> waits w e"
  shows "queues_ok (enqueue h e w)"
    and "waits (enqueue h e w) e' = (if e' = e then Set.insert h (waits w e') else waits w e')"
  using assms by (auto simp: enqueue_def queues_ok_def waits_def split: option.splits)

lemma fold_enqueue_ok:
  assumes "queues_ok w" "distinct es" "\<And>e. e \<in> set es \<Longrightarrow> h \<notin> waits w e"
  shows "queues_ok (fold (enqueue h) es w) \<and>
    waits (fold (enqueue h) es w) e' = (if e' \<in> set es then Set.insert h (waits w e') else waits w e')"
  using assms
proof (induction es arbitrary: w)
  case (Cons e es)
  have "queues_ok (enqueue h e w)" by (rule enqueue_ok) (use Cons.prems in auto)
  moreover have "h \<notin> waits (enqueue h e w) e'" if "e' \<in> set es" for e'
    using enqueue_ok(2) [of w h e e'] Cons.prems that by auto
  ultimately have "queues_ok (fold (enqueue h) es (enqueue h e w)) \<and>
      waits (fold (enqueue h) es (enqueue h e w)) e' =
        (if e' \<in> set es then Set.insert h (waits (enqueue h e w) e') else waits (enqueue h e w) e')"
    using Cons.IH [of "enqueue h e w"] Cons.prems(2) by simp
  with enqueue_ok(2) [of w h e e'] Cons.prems show ?case by auto
qed simp

lemma evict_ok:
  assumes "evict es X w = (X', w')" "queues_ok w" "finite X"
  shows "queues_ok w' \<and> finite X' \<and> X \<subseteq> X' \<and> X' \<subseteq> X \<union> (\<Union>e. waits w e) \<and> (\<forall>e. waits w' e \<subseteq> waits w e \<and> waits w e \<subseteq> waits w' e \<union> X')"
  using assms
proof (induction es arbitrary: X w)
  case Nil
  then show ?case by auto
next
  case (Cons e es)
  show ?case
  proof (cases "\<exists>h q. w e = Some (h # q) \<and> PER_ENTITY_WAITLIST_CAP \<le> length (h # q)")
    case True
    then obtain h q where hq: "w e = Some (h # q)" "PER_ENTITY_WAITLIST_CAP \<le> length (h # q)" by blast
    let ?w = "w(e \<mapsto> q)"
    have "distinct (h # q)" using Cons.prems(2) hq(1) unfolding queues_ok_def by blast
    moreover have "q \<noteq> []" using hq(2) by (auto simp: PER_ENTITY_WAITLIST_CAP_def)
    ultimately have ok: "queues_ok ?w" using Cons.prems(2) by (auto simp: queues_ok_def)
    have "evict es (Set.insert h X) ?w = (X', w')" using Cons.prems(1) hq by simp
    then have IH: "queues_ok w' \<and> finite X' \<and> Set.insert h X \<subseteq> X' \<and> X' \<subseteq> Set.insert h X \<union> (\<Union>e. waits ?w e) \<and>
        (\<forall>e. waits w' e \<subseteq> waits ?w e \<and> waits ?w e \<subseteq> waits w' e \<union> X')"
      by (rule Cons.IH [OF _ ok]) (use Cons.prems(3) in simp)
    have w: "waits w e' = (if e' = e then Set.insert h (waits ?w e') else waits ?w e')" for e'
      using hq(1) by (simp add: waits_def)
    have le: "waits ?w e' \<subseteq> waits w e'" "waits w e' \<subseteq> Set.insert h (waits ?w e')" for e' unfolding w by auto
    then have "(\<Union>e. waits ?w e) \<subseteq> (\<Union>e. waits w e)" by blast
    moreover have "h \<in> waits w e" using hq(1) by (simp add: waits_def)
    moreover have "waits w' e' \<subseteq> waits w e' \<and> waits w e' \<subseteq> waits w' e' \<union> X'" for e' using IH le [of e'] by blast
    ultimately show ?thesis using IH by blast
  next
    case False
    then have "evict (e # es) X w = evict es X w" by (auto split: option.splits list.splits)
    with Cons show ?thesis by simp
  qed
qed

text \<open>
  A handle is in the queue of exactly the entities it requires; the handles in \<open>X\<close>, which are about to be evicted, may
  be missing in some queues.
\<close>

definition wl_inv_except :: "u16 set \<Rightarrow> 'e waitlist \<Rightarrow> bool" where
  "wl_inv_except X wl \<longleftrightarrow> X \<subseteq> dom (wl_required wl) \<and> queues_ok (wl_waiting wl) \<and>
     distinct (map snd (wl_handle_ttls wl)) \<and> set (map snd (wl_handle_ttls wl)) = dom (wl_required wl) \<and>
     (\<forall>h e. h \<in> waits (wl_waiting wl) e \<longrightarrow> (\<exists>es. wl_required wl h = Some es \<and> e \<in> set es)) \<and>
     (\<forall>h es e. h \<notin> X \<longrightarrow> wl_required wl h = Some es \<longrightarrow> e \<in> set es \<longrightarrow> h \<in> waits (wl_waiting wl) e) \<and>
     kg_inv (kg_used (wl_handle_store wl)) (wl_handle_store wl) \<and> dom (wl_required wl) \<subseteq> kg_used (wl_handle_store wl)"

abbreviation wl_inv :: "'e waitlist \<Rightarrow> bool" where
  "wl_inv \<equiv> wl_inv_except {}"

lemma wl_inv_waits: "wl_inv_except X wl \<Longrightarrow> h \<in> waits (wl_waiting wl) e \<Longrightarrow> \<exists>es. wl_required wl h = Some es \<and> e \<in> set es"
  unfolding wl_inv_except_def by blast

lemma wl_inv_required:
  "wl_inv_except X wl \<Longrightarrow> h \<notin> X \<Longrightarrow> wl_required wl h = Some es \<Longrightarrow> e \<in> set es \<Longrightarrow> h \<in> waits (wl_waiting wl) e"
  unfolding wl_inv_except_def by blast

lemma wl_inv_new: "wl_inv wl_new"
  using kg_inv_new [of 60000] kg_inv_used [OF kg_inv_new [of 60000]]
  by (auto simp: wl_inv_except_def wl_new_def queues_ok_def waits_def)

lemma remove_ttl_ok:
  "distinct (map snd ttls) \<Longrightarrow> distinct (map snd (remove_ttl h ttls)) \<and> set (map snd (remove_ttl h ttls)) = set (map snd ttls) - {h}"
  by (induction h ttls rule: remove_ttl.induct) auto

lemma remove_ttl_absent: "h \<notin> snd ` set ttls \<Longrightarrow> remove_ttl h ttls = ttls"
  by (induction h ttls rule: remove_ttl.induct) auto

lemma wl_remove_waiting_handle_ok:
  assumes inv: "wl_inv_except X wl" and h: "wl_required wl h = Some entities"
  shows "\<exists>wl'. wl_remove_waiting_handle now h wl = Inr wl' \<and> wl_inv_except (X - {h}) wl' \<and>
    wl_required wl' = (wl_required wl)(h := None) \<and> wl_ready_handles wl' = wl_ready_handles wl \<and>
    wl_removed_handles wl' = wl_removed_handles wl \<and> kg_used (wl_handle_store wl') = kg_used (wl_handle_store wl) - {h}"
proof -
  let ?wl = "wl \<lparr> wl_handle_ttls := remove_ttl h (wl_handle_ttls wl), wl_required := (wl_required wl)(h := None),
    wl_handle_store := kg_recycle_key h now (wl_handle_store wl),
    wl_waiting := fold (remove_from_entity h) entities (wl_waiting wl) \<rparr>"
  have q: "queues_ok (wl_waiting wl)" using inv by (simp add: wl_inv_except_def)
  have only: "e \<in> set entities" if "h \<in> waits (wl_waiting wl) e" for e
    using wl_inv_waits [OF inv that] h by auto
  have w: "waits (wl_waiting ?wl) e = waits (wl_waiting wl) e - {h}" for e
    using fold_remove_ok [OF q, of h entities e] only [of e] by auto
  have u: "kg_inv (kg_used (wl_handle_store wl)) (wl_handle_store wl)" "dom (wl_required wl) \<subseteq> kg_used (wl_handle_store wl)"
    using inv by (simp_all add: wl_inv_except_def)
  have "h \<in> kg_used (wl_handle_store wl)" using u(2) h by auto
  note k = kg_recycle_used [OF u(1) this, of now]
  have "kg_inv (kg_used (wl_handle_store ?wl)) (wl_handle_store ?wl)" "dom (wl_required ?wl) \<subseteq> kg_used (wl_handle_store ?wl)"
    using k u(2) by auto
  moreover have "distinct (map snd (wl_handle_ttls ?wl))" "set (map snd (wl_handle_ttls ?wl)) = dom (wl_required ?wl)"
    using remove_ttl_ok [of "wl_handle_ttls wl" h] inv by (auto simp: wl_inv_except_def)
  moreover have "queues_ok (wl_waiting ?wl)" using fold_remove_ok [OF q] by simp
  moreover have "\<forall>k e. k \<in> waits (wl_waiting ?wl) e \<longrightarrow> (\<exists>es. wl_required ?wl k = Some es \<and> e \<in> set es)"
    unfolding w using wl_inv_waits [OF inv] by auto
  moreover have "\<forall>k es e. k \<notin> X - {h} \<longrightarrow> wl_required ?wl k = Some es \<longrightarrow> e \<in> set es \<longrightarrow> k \<in> waits (wl_waiting ?wl) e"
    unfolding w using wl_inv_required [OF inv] by (auto split: if_splits)
  moreover have "X - {h} \<subseteq> dom (wl_required ?wl)" using inv by (auto simp: wl_inv_except_def)
  ultimately have "wl_inv_except (X - {h}) ?wl" unfolding wl_inv_except_def by blast
  then show ?thesis using h k(2) by (simp add: wl_remove_waiting_handle_def)
qed

text \<open>Taking several handles out, as ready ones or as removed ones.\<close>

definition mark :: "bool \<Rightarrow> u16 \<Rightarrow> 'e waitlist \<Rightarrow> 'e waitlist" where
  "mark ready h wl =
     (if ready then wl \<lparr> wl_ready_handles := Set.insert h (wl_ready_handles wl) \<rparr>
      else wl \<lparr> wl_removed_handles := Set.insert h (wl_removed_handles wl) \<rparr>)"

lemma mark_simps [simp]:
  "wl_required (mark b h wl) = wl_required wl" "wl_inv_except X (mark b h wl) = wl_inv_except X wl"
  "wl_ready_handles (mark b h wl) = wl_ready_handles wl \<union> (if b then {h} else {})"
  "wl_removed_handles (mark b h wl) = wl_removed_handles wl \<union> (if b then {} else {h})"
  "wl_handle_store (mark b h wl) = wl_handle_store wl"
  by (simp_all add: mark_def wl_inv_except_def)

lemma rfold_remove_ok:
  assumes "wl_inv_except X wl" "distinct hs" "set hs \<subseteq> dom (wl_required wl)"
  shows "\<exists>wl'. rfold (\<lambda>h wl. wl_remove_waiting_handle now h (mark b h wl)) hs wl = Inr wl' \<and>
    wl_inv_except (X - set hs) wl' \<and> wl_required wl' = (\<lambda>h. if h \<in> set hs then None else wl_required wl h) \<and>
    wl_ready_handles wl' = wl_ready_handles wl \<union> (if b then set hs else {}) \<and>
    wl_removed_handles wl' = wl_removed_handles wl \<union> (if b then {} else set hs) \<and>
    kg_used (wl_handle_store wl') = kg_used (wl_handle_store wl) - set hs"
  using assms
proof (induction hs arbitrary: X wl)
  case Nil
  then show ?case by simp
next
  case (Cons h hs)
  obtain es where "wl_required (mark b h wl) h = Some es" using Cons.prems(3) by auto
  moreover have "wl_inv_except X (mark b h wl)" using Cons.prems(1) by simp
  ultimately obtain wl1 where wl1: "wl_remove_waiting_handle now h (mark b h wl) = Inr wl1" "wl_inv_except (X - {h}) wl1"
      "wl_required wl1 = (wl_required wl)(h := None)" "wl_ready_handles wl1 = wl_ready_handles (mark b h wl)"
      "wl_removed_handles wl1 = wl_removed_handles (mark b h wl)" "kg_used (wl_handle_store wl1) = kg_used (wl_handle_store wl) - {h}"
    using wl_remove_waiting_handle_ok [of X "mark b h wl" h es now] by auto
  have "set hs \<subseteq> dom (wl_required wl1)" using Cons.prems(2,3) wl1(3) by auto
  then obtain wl2 where wl2: "rfold (\<lambda>h wl. wl_remove_waiting_handle now h (mark b h wl)) hs wl1 = Inr wl2"
    "wl_inv_except (X - {h} - set hs) wl2" "wl_required wl2 = (\<lambda>h. if h \<in> set hs then None else wl_required wl1 h)"
    "wl_ready_handles wl2 = wl_ready_handles wl1 \<union> (if b then set hs else {})"
    "wl_removed_handles wl2 = wl_removed_handles wl1 \<union> (if b then {} else set hs)"
    "kg_used (wl_handle_store wl2) = kg_used (wl_handle_store wl1) - set hs"
    using Cons.IH [OF wl1(2)] Cons.prems(2) by auto
  have "X - {h} - set hs = X - set (h # hs)" by auto
  with wl1 wl2 show ?case by (auto simp: fun_eq_iff)
qed

text \<open>Iterating over a hash set visits every element once.\<close>

definition iterates :: "(u16 set \<Rightarrow> u16 list) \<Rightarrow> bool" where
  "iterates order \<longleftrightarrow> (\<forall>A. set (order A) = A \<and> distinct (order A))"

lemma wl_spawn_entity_ok:
  assumes inv: "wl_inv wl"
  shows "\<exists>wl'. wl_spawn_entity in_scope now entity wl = Inr wl' \<and> wl_inv wl' \<and>
    wl_ready_handles wl' = wl_ready_handles wl \<union>
      {h. \<exists>es. wl_required wl h = Some es \<and> entity \<in> set es \<and> list_all in_scope es} \<and>
    wl_required wl' = (\<lambda>h. case wl_required wl h of
       Some es \<Rightarrow> if entity \<in> set es \<and> list_all in_scope es then None else Some es | None \<Rightarrow> None) \<and>
    wl_removed_handles wl' = wl_removed_handles wl"
proof -
  let ?P = "\<lambda>h. case wl_required wl h of None \<Rightarrow> False | Some es \<Rightarrow> required_entities_are_in_scope in_scope es"
  define hs where "hs = (case wl_waiting wl entity of None \<Rightarrow> [] | Some q \<Rightarrow> filter ?P q)"
  have hs: "set hs = {h \<in> waits (wl_waiting wl) entity. ?P h}" by (auto simp: hs_def waits_def split: option.splits)
  have eq: "set hs = {h. \<exists>es. wl_required wl h = Some es \<and> entity \<in> set es \<and> list_all in_scope es}"
  proof (rule set_eqI)
    fix h
    show "h \<in> set hs \<longleftrightarrow> h \<in> {h. \<exists>es. wl_required wl h = Some es \<and> entity \<in> set es \<and> list_all in_scope es}"
      using wl_inv_waits [OF inv, of h entity] wl_inv_required [OF inv, of h _ entity]
      unfolding hs required_entities_are_in_scope_def by (auto split: option.splits)
  qed
  have "distinct hs" using inv by (auto simp: hs_def wl_inv_except_def queues_ok_def split: option.splits)
  moreover have "set hs \<subseteq> dom (wl_required wl)" unfolding eq by auto
  ultimately obtain wl' where wl': "rfold (\<lambda>h wl. wl_remove_waiting_handle now h (mark True h wl)) hs wl = Inr wl'"
      "wl_inv_except ({} - set hs) wl'" "wl_required wl' = (\<lambda>h. if h \<in> set hs then None else wl_required wl h)"
      "wl_ready_handles wl' = wl_ready_handles wl \<union> set hs" "wl_removed_handles wl' = wl_removed_handles wl"
    using rfold_remove_ok [OF inv, of hs now True] by auto
  have "wl_spawn_entity in_scope now entity wl = Inr wl'"
    using wl'(1) by (simp add: wl_spawn_entity_def hs_def mark_def)
  moreover have "wl_required wl' = (\<lambda>h. case wl_required wl h of
       Some es \<Rightarrow> if entity \<in> set es \<and> list_all in_scope es then None else Some es | None \<Rightarrow> None)"
    unfolding wl'(3) eq by (rule ext) (auto split: option.splits)
  ultimately show ?thesis using wl'(2,4,5) eq by auto
qed

lemma wl_check_handle_ttls_ok:
  "wl_inv wl \<Longrightarrow> \<exists>wl'. wl_check_handle_ttls now wl = Inr wl' \<and> wl_inv wl' \<and> wl_ready_handles wl' = wl_ready_handles wl \<and>
     (\<forall>h es. wl_required wl' h = Some es \<longrightarrow> wl_required wl h = Some es) \<and>
     wl_removed_handles wl' = wl_removed_handles wl \<union> (dom (wl_required wl) - dom (wl_required wl'))"
proof (induction now wl rule: wl_check_handle_ttls.induct)
  case (1 now wl)
  show ?case
  proof (cases "wl_handle_ttls wl")
    case Nil
    then show ?thesis using "1.prems" by (simp add: wl_check_handle_ttls.simps [of now wl])
  next
    case (Cons p ttls)
    obtain t h where p: "p = (t, h)" by (cases p)
    show ?thesis
    proof (cases "elapsed t now < wl_handle_ttl wl")
      case True
      then show ?thesis using "1.prems" Cons p by (simp add: wl_check_handle_ttls.simps [of now wl])
    next
      case False
      let ?wl = "wl \<lparr> wl_handle_ttls := ttls, wl_removed_handles := Set.insert h (wl_removed_handles wl) \<rparr>"
      have d: "distinct (map snd (wl_handle_ttls wl))" "set (map snd (wl_handle_ttls wl)) = dom (wl_required wl)"
        using "1.prems" by (simp_all add: wl_inv_except_def)
      then have "remove_ttl h ttls = ttls" using Cons p by (intro remove_ttl_absent) simp
      then have same: "wl_remove_waiting_handle now h ?wl = wl_remove_waiting_handle now h (mark False h wl)"
        using Cons p by (simp add: wl_remove_waiting_handle_def mark_def Let_def split: option.split)
      have "h \<in> dom (wl_required wl)" unfolding d(2) [symmetric] using Cons p by simp
      then obtain es where "wl_required (mark False h wl) h = Some es" by auto
      with wl_remove_waiting_handle_ok [of "{}" "mark False h wl" h es now] "1.prems" obtain wl1 where
        wl1: "wl_remove_waiting_handle now h ?wl = Inr wl1" "wl_inv wl1" "wl_required wl1 = (wl_required wl)(h := None)"
          "wl_ready_handles wl1 = wl_ready_handles wl" "wl_removed_handles wl1 = Set.insert h (wl_removed_handles wl)"
        unfolding same by auto
      from "1.IH" [OF Cons p [symmetric] False wl1(1,2)] obtain wl2 where
        wl2: "wl_check_handle_ttls now wl1 = Inr wl2" "wl_inv wl2" "wl_ready_handles wl2 = wl_ready_handles wl1"
          "\<forall>h es. wl_required wl2 h = Some es \<longrightarrow> wl_required wl1 h = Some es"
          "wl_removed_handles wl2 = wl_removed_handles wl1 \<union> (dom (wl_required wl1) - dom (wl_required wl2))"
        by auto
      have "wl_check_handle_ttls now wl = Inr wl2"
        using Cons p False wl1(1) wl2(1) by (simp add: wl_check_handle_ttls.simps [of now wl])
      moreover have "h \<notin> dom (wl_required wl2)" using wl2(4) wl1(3) by force
      moreover have "wl_required wl k = Some es" if "wl_required wl2 k = Some es" for k es
      proof -
        have "wl_required wl1 k = Some es" using wl2(4) that by blast
        then show ?thesis using wl1(3) by (auto split: if_splits)
      qed
      ultimately show ?thesis using wl2 wl1 \<open>h \<in> dom (wl_required wl)\<close> by auto
    qed
  qed
qed

text \<open>A new handle that waits for some entities.\<close>

lemma wl_inv_insert:
  assumes inv: "wl_inv wl" and h: "wl_required wl h = None" "h \<in> kg_used (wl_handle_store wl)" and es: "distinct entities"
  shows "wl_inv (wl \<lparr> wl_waiting := fold (enqueue h) entities (wl_waiting wl),
    wl_handle_ttls := wl_handle_ttls wl @ [(now, h)], wl_required := (wl_required wl)(h \<mapsto> entities) \<rparr>)" (is "wl_inv ?wl")
proof -
  have q: "queues_ok (wl_waiting wl)" using inv by (simp add: wl_inv_except_def)
  have "h \<notin> waits (wl_waiting wl) e" for e using wl_inv_waits [OF inv, of h e] h(1) by auto
  note f = fold_enqueue_ok [OF q es this]
  have w: "waits (wl_waiting ?wl) e = (if e \<in> set entities then Set.insert h (waits (wl_waiting wl) e) else waits (wl_waiting wl) e)" for e
    using f [of e] by simp
  have "h \<notin> set (map snd (wl_handle_ttls wl))" using inv h(1) by (auto simp: wl_inv_except_def)
  moreover have "\<exists>es. wl_required ?wl k = Some es \<and> e \<in> set es" if "k \<in> waits (wl_waiting ?wl) e" for k e
    using that wl_inv_waits [OF inv, of k e] \<open>\<And>e. h \<notin> waits (wl_waiting wl) e\<close> [of e] unfolding w by (auto split: if_splits)
  moreover have "k \<in> waits (wl_waiting ?wl) e" if "wl_required ?wl k = Some es" "e \<in> set es" for k es e
    using that wl_inv_required [OF inv, of k es e] unfolding w by (auto split: if_splits)
  moreover have "queues_ok (wl_waiting ?wl)" using f by simp
  ultimately show ?thesis using inv h(2) unfolding wl_inv_except_def by auto
qed

lemma wl_queue_ok:
  assumes inv: "wl_inv wl" and iter: "iterates order" and es: "distinct entities"
    and gen: "kg_generate now (wl_handle_store wl) = Inr (h, kg)"
  shows "\<exists>wl'. wl_queue order in_scope now entities item store wl = Inr (h, ws_queue h item store, wl') \<and> wl_inv wl' \<and>
    h \<notin> dom (wl_required wl) \<and>
    (if list_all in_scope entities then h \<in> wl_ready_handles wl' else wl_required wl' h = Some entities)"
proof -
  have u: "kg_inv (kg_used (wl_handle_store wl)) (wl_handle_store wl)" "dom (wl_required wl) \<subseteq> kg_used (wl_handle_store wl)"
    using inv by (simp_all add: wl_inv_except_def)
  note g = kg_generate_used [OF u(1) gen]
  have new: "h \<notin> dom (wl_required wl)" using g(1) u(2) by blast
  let ?wl = "wl \<lparr> wl_handle_store := kg \<rparr>"
  show ?thesis
  proof (cases "list_all in_scope entities")
    case True
    let ?wl' = "?wl \<lparr> wl_ready_handles := Set.insert h (wl_ready_handles wl) \<rparr>"
    have "wl_inv ?wl'" using inv g(2,3) u(2) by (auto simp: wl_inv_except_def)
    then show ?thesis using True new gen by (auto simp: wl_queue_def required_entities_are_in_scope_def Let_def)
  next
    case False
    obtain X w where ev: "evict entities {} (wl_waiting wl) = (X, w)" by (cases "evict entities {} (wl_waiting wl)")
    have q: "queues_ok (wl_waiting wl)" using inv by (simp add: wl_inv_except_def)
    from evict_ok [OF ev q] have w: "queues_ok w" "X \<subseteq> (\<Union>e. waits (wl_waiting wl) e)" "\<And>e. waits w e \<subseteq> waits (wl_waiting wl) e"
        "\<And>e. waits (wl_waiting wl) e \<subseteq> waits w e \<union> X" by simp_all
    have X: "X \<subseteq> dom (wl_required wl)" using w(2) wl_inv_waits [OF inv] by blast
    have "wl_inv_except X (?wl \<lparr> wl_waiting := w \<rparr>)"
    proof -
      have "\<forall>h e. h \<in> waits w e \<longrightarrow> (\<exists>es. wl_required wl h = Some es \<and> e \<in> set es)" using w(3) wl_inv_waits [OF inv] by blast
      moreover have "\<forall>h es e. h \<notin> X \<longrightarrow> wl_required wl h = Some es \<longrightarrow> e \<in> set es \<longrightarrow> h \<in> waits w e"
        using w(4) wl_inv_required [OF inv] by blast
      moreover have "dom (wl_required wl) \<subseteq> kg_used kg" using g(3) u(2) by blast
      ultimately show ?thesis using inv X w(1) g(2) by (simp add: wl_inv_except_def)
    qed
    moreover have "set (order X) = X" "distinct (order X)" using iter by (simp_all add: iterates_def)
    ultimately obtain wl1 where wl1: "rfold (\<lambda>h wl. wl_remove_waiting_handle now h (mark False h wl)) (order X) (?wl \<lparr> wl_waiting := w \<rparr>) = Inr wl1"
        "wl_inv wl1" "wl_required wl1 = (\<lambda>h. if h \<in> X then None else wl_required wl h)"
        "kg_used (wl_handle_store wl1) = kg_used kg - X"
      using rfold_remove_ok [of X "?wl \<lparr> wl_waiting := w \<rparr>" "order X" now False] X by (auto cong: if_cong)
    let ?wl' = "wl1 \<lparr> wl_waiting := fold (enqueue h) entities (wl_waiting wl1),
      wl_handle_ttls := wl_handle_ttls wl1 @ [(now, h)], wl_required := (wl_required wl1)(h \<mapsto> entities) \<rparr>"
    have res: "wl_queue order in_scope now entities item store wl = Inr (h, ws_queue h item store, ?wl')"
      using False gen ev wl1(1) by (simp add: wl_queue_def required_entities_are_in_scope_def Let_def mark_def)
    have "wl_inv ?wl'" by (rule wl_inv_insert [OF wl1(2)]) (use new wl1(3,4) es X g(3) in auto)
    with res False new show ?thesis by auto
  qed
qed

section \<open>Collecting\<close>

definition ws_ok :: "'i waitlist_store \<Rightarrow> bool" where
  "ws_ok s \<longleftrightarrow> ws_item_handles s = dom (ws_items s)"

definition ws_without :: "u16 set \<Rightarrow> 'i waitlist_store \<Rightarrow> 'i waitlist_store" where
  "ws_without H s = s \<lparr> ws_item_handles := ws_item_handles s - H, ws_items := ws_items s |` (- H) \<rparr>"

lemma ws_without_ok: "ws_ok s \<Longrightarrow> ws_ok (ws_without H s)"
  by (auto simp: ws_ok_def ws_without_def)

lemma ws_remove_without: "snd (ws_remove h (ws_without H s)) = ws_without (Set.insert h H) s"
proof -
  have "ws_item_handles s - H - {h} = ws_item_handles s - Set.insert h H" by auto
  moreover have "(ws_items s |` (- H))(h := None) = ws_items s |` (- Set.insert h H)"
    by (rule ext) (auto simp: restrict_map_def)
  ultimately show ?thesis by (simp add: ws_remove_def ws_without_def)
qed

lemma ws_without_empty: "ws_without {} s = s"
  by (cases s) (simp add: ws_without_def restrict_map_def fun_eq_iff)

lemma ws_collect_loop_ok:
  "distinct hs \<Longrightarrow> set hs \<subseteq> dom (ws_items s) \<Longrightarrow> set hs \<inter> H = {} \<Longrightarrow>
   ws_collect_loop hs messages ready (ws_without H s) =
     Inr (messages @ map (\<lambda>h. the (ws_items s h)) hs, ready - set hs, ws_without (H \<union> set hs) s)"
proof (induction hs arbitrary: messages ready H)
  case Nil
  then show ?case by simp
next
  case (Cons h hs)
  obtain item where item: "ws_items s h = Some item" using Cons.prems(2) by auto
  have "ws_remove h (ws_without H s) = (Some item, ws_without (Set.insert h H) s)"
    using Cons.prems(3) item ws_remove_without [of h H s] by (auto simp: ws_remove_def ws_without_def)
  moreover have "ws_collect_loop hs (messages @ [item]) (ready - {h}) (ws_without (Set.insert h H) s) =
      Inr ((messages @ [item]) @ map (\<lambda>h. the (ws_items s h)) hs, ready - {h} - set hs, ws_without (Set.insert h H \<union> set hs) s)"
    by (rule Cons.IH) (use Cons.prems in auto)
  moreover have "ready - {h} - set hs = ready - set (h # hs)" by auto
  ultimately show ?case using item by simp
qed

lemma ws_remove_expired_ok:
  assumes "iterates order"
  shows "ws_remove_expired_items order expired s = (expired - ws_item_handles s, ws_without (ws_item_handles s \<inter> expired) s)"
proof -
  have "fold (\<lambda>h (expired, s). (expired - {h}, snd (ws_remove h s))) hs (expired, ws_without H s) =
      (expired - set hs, ws_without (H \<union> set hs) s)" for hs H
  proof (induction hs arbitrary: expired H)
    case (Cons h hs)
    have "expired - {h} - set hs = expired - set (h # hs)" by auto
    with Cons [of "expired - {h}" "Set.insert h H"] show ?case by (simp add: ws_remove_without)
  qed simp
  from this [of "order (ws_item_handles s \<inter> expired)" "{}"] assms show ?thesis
    by (auto simp: ws_remove_expired_items_def ws_without_empty iterates_def)
qed

lemma wl_collect_ready_items_ok:
  assumes inv: "wl_inv wl" and store: "ws_ok s" and iter: "iterates order"
  shows "\<exists>items s' wl' expired. wl_collect_ready_items order now s wl = Inr (items, s', wl') \<and> wl_inv wl' \<and> ws_ok s' \<and>
    expired \<subseteq> wl_removed_handles wl \<union> dom (wl_required wl) \<and>
    (let ready = wl_ready_handles wl \<inter> dom (ws_items s) - expired in
     items = (if ready = {} then None else Some (map (\<lambda>h. the (ws_items s h)) (order ready))) \<and>
     ws_items s' = ws_items s |` (- (expired \<union> ready)))"
proof -
  obtain wl1 where wl1: "wl_check_handle_ttls now wl = Inr wl1" "wl_inv wl1" "wl_ready_handles wl1 = wl_ready_handles wl"
      "wl_removed_handles wl1 = wl_removed_handles wl \<union> (dom (wl_required wl) - dom (wl_required wl1))"
    using wl_check_handle_ttls_ok [OF inv, of now] by blast
  define expired where "expired = ws_item_handles s \<inter> wl_removed_handles wl1"
  let ?s = "ws_without expired s"
  have dom: "ws_item_handles s = dom (ws_items s)" using store by (simp add: ws_ok_def)
  let ?ready = "wl_ready_handles wl \<inter> dom (ws_items s) - expired"
  have R: "ws_item_handles ?s \<inter> wl_ready_handles wl = ?ready" by (auto simp: ws_without_def dom)
  have o: "set (order ?ready) = ?ready" "distinct (order ?ready)" using iter by (simp_all add: iterates_def)
  have "ws_collect_loop (order ?ready) [] (wl_ready_handles wl) ?s =
      Inr ([] @ map (\<lambda>h. the (ws_items s h)) (order ?ready), wl_ready_handles wl - set (order ?ready), ws_without (expired \<union> set (order ?ready)) s)"
    by (rule ws_collect_loop_ok) (use o in auto)
  then have c: "ws_collect_ready_items order (wl_ready_handles wl) ?s =
      (if ?ready = {} then Inr (None, wl_ready_handles wl, ?s)
       else Inr (Some (map (\<lambda>h. the (ws_items s h)) (order ?ready)), wl_ready_handles wl - ?ready, ws_without (expired \<union> ?ready) s))"
    unfolding ws_collect_ready_items_def R Let_def o(1) by simp
  have e: "ws_remove_expired_items order (wl_removed_handles wl1) s = (wl_removed_handles wl1 - ws_item_handles s, ?s)"
    using ws_remove_expired_ok [OF iter] by (simp add: expired_def)
  have inv': "wl_inv (wl1 \<lparr> wl_removed_handles := A, wl_ready_handles := B \<rparr>)" "wl_inv (wl1 \<lparr> wl_removed_handles := A \<rparr>)" for A B
    using wl1(2) by (simp_all add: wl_inv_except_def)
  have sub: "expired \<subseteq> wl_removed_handles wl \<union> dom (wl_required wl)" using wl1(4) by (auto simp: expired_def)
  show ?thesis
  proof (cases "?ready = {}")
    case True
    then have "\<exists>wl'. wl_collect_ready_items order now s wl = Inr (None, ?s, wl') \<and> wl_inv wl'"
      using wl1(1,3) e c inv' by (auto simp: wl_collect_ready_items_def Let_def)
    moreover have "ws_items ?s = ws_items s |` (- (expired \<union> ?ready))" unfolding True by (simp add: ws_without_def)
    ultimately show ?thesis using True sub ws_without_ok [OF store] unfolding Let_def by metis
  next
    case False
    then have ne: "wl_ready_handles wl \<noteq> {}" by blast
    have "wl_collect_ready_items order now s wl = Inr (Some (map (\<lambda>h. the (ws_items s h)) (order ?ready)),
        ws_without (expired \<union> ?ready) s,
        wl1 \<lparr> wl_removed_handles := wl_removed_handles wl1 - ws_item_handles s, wl_ready_handles := wl_ready_handles wl - ?ready \<rparr>)"
      using wl1(1,3) e c False ne by (simp add: wl_collect_ready_items_def Let_def)
    moreover have "ws_items (ws_without (expired \<union> ?ready) s) = ws_items s |` (- (expired \<union> ?ready))" by (simp add: ws_without_def)
    ultimately show ?thesis using False sub inv' ws_without_ok [OF store] unfolding Let_def by metis
  qed
qed

section \<open>Properties\<close>


lemma iterates_sorted: "iterates sorted_list_of_set"
  by (simp add: iterates_def)




end
