(* ===== verification/Channel_Receivers.thy ===== *)
theory Channel_Receivers
  imports Channel_Senders Receiver_Arrangers Entity_Waitlist
begin

text \<open>
  The receivers of the message channels, in \<^verbatim>\<open>shared/src/messages/channels/receivers\<close>: \<^verbatim>\<open>reliable_message_receiver.rs\<close> over
  the three arrangers, \<^verbatim>\<open>sequenced_unreliable_receiver.rs\<close> and \<^verbatim>\<open>unordered_unreliable_receiver.rs\<close>, and the traits of
  \<^verbatim>\<open>channel_receiver.rs\<close> as operations on the datatype of the three. Of the local world manager they see the waitlist,
  which they change, and the record \<open>world_view\<close>.
\<close>

section \<open>The local world\<close>

text \<open>
  The entities in scope, the order in which a hash set is iterated, and what the derive macro generates for the entity
  properties of the messages of the application; fragments and envelopes have none.
\<close>

record ('e, 'm) world_view =
  wv_order :: "u16 set \<Rightarrow> u16 list"
  wv_in_scope :: "'e \<Rightarrow> bool"
  wv_relations_waiting :: "'m \<Rightarrow> 'e list option"
  wv_relations_complete :: "'m \<Rightarrow> 'm res"

fun relations_waiting :: "('e, 'm) world_view \<Rightarrow> 'm message \<Rightarrow> 'e list option" where
  "relations_waiting wv (Application m) = wv_relations_waiting wv m"
| "relations_waiting wv message = None"

fun relations_complete :: "('e, 'm) world_view \<Rightarrow> 'm message \<Rightarrow> 'm message res" where
  "relations_complete wv (Application m) = rbind (wv_relations_complete wv m) (\<lambda>m. Inr (Application m))"
| "relations_complete wv message = Inr message"

section \<open>Reliable receivers\<close>

datatype 'm arranger = OrderedArranger "'m message ordered_arranger" | SequencedArranger sequenced_arranger | UnorderedArranger

fun arranger_process :: "u16 \<Rightarrow> u16 \<Rightarrow> 'm message \<Rightarrow> 'm arranger \<Rightarrow> ('m message list \<times> 'm arranger) res" where
  "arranger_process i j message (OrderedArranger a) = rbind (oa_process i j message a) (\<lambda>(out, a). Inr (out, OrderedArranger a))"
| "arranger_process i j message (SequencedArranger a) = rbind (sa_process i j message a) (\<lambda>(out, a). Inr (out, SequencedArranger a))"
| "arranger_process i j message UnorderedArranger = rbind (ua_process i j message ()) (\<lambda>(out, a). Inr (out, UnorderedArranger))"

record 'm reliable_message_receiver =
  rmr_reliable_receiver :: "'m message reliable_receiver"
  rmr_incoming_messages :: "'m message list"
  rmr_arranger :: "'m arranger"
  rmr_fragment_receiver :: fragment_receiver
  rmr_waitlist_store :: "(u16 \<times> u16 \<times> 'm message) waitlist_store"
  rmr_incoming_requests :: "(local_response_id \<times> 'm message) list"
  rmr_incoming_responses :: "(local_request_id \<times> 'm message) list"
  rmr_max_messages_per_tick :: "u16 option"

definition with_arranger_and_cap :: "'m arranger \<Rightarrow> u16 option \<Rightarrow> 'm reliable_message_receiver" where
  "with_arranger_and_cap arranger cap =
     \<lparr> rmr_reliable_receiver = rr_new, rmr_incoming_messages = [], rmr_arranger = arranger,
       rmr_fragment_receiver = Map.empty, rmr_waitlist_store = ws_new, rmr_incoming_requests = [],
       rmr_incoming_responses = [], rmr_max_messages_per_tick = cap \<rparr>"

definition rmr_receive_message ::
    "('k, 'm) message_kinds \<Rightarrow> 'm message \<Rightarrow> 'm reliable_message_receiver \<Rightarrow> 'm reliable_message_receiver res" where
  "rmr_receive_message ks message_container s =
     (case message_container of
        Request_Or_Response container \<Rightarrow>
          (case message_read ks (br_new (ror_bytes container)) of
             Inl SerdeErr \<Rightarrow> Inr s
           | Inl e \<Rightarrow> Inl e
           | Inr (message, _) \<Rightarrow>
               (case ror_id container of
                  RequestId local_request_id \<Rightarrow>
                    Inr (s \<lparr> rmr_incoming_requests := rmr_incoming_requests s @
                      [(request_receive_from_remote local_request_id, message)] \<rparr>)
                | ResponseId local_response_id \<Rightarrow>
                    Inr (s \<lparr> rmr_incoming_responses := rmr_incoming_responses s @
                      [(response_receive_from_remote local_response_id, message)] \<rparr>)))
      | _ \<Rightarrow> Inr (s \<lparr> rmr_incoming_messages := rmr_incoming_messages s @ [message_container] \<rparr>))"

definition rmr_arrange ::
    "('k, 'm) message_kinds \<Rightarrow> u16 \<times> u16 \<times> 'm message \<Rightarrow> 'm reliable_message_receiver \<Rightarrow> 'm reliable_message_receiver res" where
  "rmr_arrange ks item s =
     (let (start_message_index, end_message_index, full_message) = item in
      rbind (arranger_process start_message_index end_message_index full_message (rmr_arranger s)) (\<lambda>(incoming_messages, a).
        rfold (rmr_receive_message ks) incoming_messages (s \<lparr> rmr_arranger := a \<rparr>)))"

definition rmr_push_message ::
    "('k, 'm) message_kinds \<Rightarrow> ('e, 'm) world_view \<Rightarrow> instant \<Rightarrow> u16 \<times> 'm message \<Rightarrow>
     'm reliable_message_receiver \<times> 'e waitlist \<Rightarrow> ('m reliable_message_receiver \<times> 'e waitlist) res" where
  "rmr_push_message ks wv now received sw =
     (let (message_index, message) = received; (s, wl) = sw in
      rbind (if is_fragment message then fr_receive ks message_index message (rmr_fragment_receiver s)
             else Inr (Some (message_index, message_index, message), rmr_fragment_receiver s)) (\<lambda>(complete, fr).
      let s = s \<lparr> rmr_fragment_receiver := fr \<rparr> in
      case complete of
        None \<Rightarrow> Inr (s, wl)
      | Some (start_message_index, end_message_index, full_message) \<Rightarrow>
          (case relations_waiting wv full_message of
             Some remote_entity_set \<Rightarrow>
               rbind (wl_queue (wv_order wv) (wv_in_scope wv) now remote_entity_set
                   (start_message_index, end_message_index, full_message) (rmr_waitlist_store s) wl) (\<lambda>(_, store, wl).
                 Inr (s \<lparr> rmr_waitlist_store := store \<rparr>, wl))
           | None \<Rightarrow>
               rbind (rmr_arrange ks (start_message_index, end_message_index, full_message) s) (\<lambda>s. Inr (s, wl)))))"

definition rmr_buffer_message ::
    "('k, 'm) message_kinds \<Rightarrow> ('e, 'm) world_view \<Rightarrow> instant \<Rightarrow> u16 \<times> 'm message \<Rightarrow>
     'm reliable_message_receiver \<times> 'e waitlist \<Rightarrow> ('m reliable_message_receiver \<times> 'e waitlist) res" where
  "rmr_buffer_message ks wv now item sw =
     (let (message_index, message) = item; (s, wl) = sw;
          (received_messages, rr) = rr_receive_messages (rr_buffer_message message_index message (rmr_reliable_receiver s))
      in rfold (rmr_push_message ks wv now) received_messages (s \<lparr> rmr_reliable_receiver := rr \<rparr>, wl))"

definition rmr_receive_messages ::
    "('k, 'm) message_kinds \<Rightarrow> ('e, 'm) world_view \<Rightarrow> instant \<Rightarrow> 'm reliable_message_receiver \<times> 'e waitlist \<Rightarrow>
     ('m message list \<times> 'm reliable_message_receiver \<times> 'e waitlist) res" where
  "rmr_receive_messages ks wv now sw =
     (let (s, wl) = sw in
      rbind (wl_collect_ready_items (wv_order wv) now (rmr_waitlist_store s) wl) (\<lambda>(list, store, wl).
      rbind (rfold (\<lambda>(start_message_index, end_message_index, full_message) s.
          rbind (relations_complete wv full_message) (\<lambda>full_message.
            rmr_arrange ks (start_message_index, end_message_index, full_message) s))
          (case list of None \<Rightarrow> [] | Some list \<Rightarrow> list) (s \<lparr> rmr_waitlist_store := store \<rparr>)) (\<lambda>s.
      Inr (case rmr_max_messages_per_tick s of
             None \<Rightarrow> rmr_incoming_messages s
           | Some cap \<Rightarrow> take (unat cap) (rmr_incoming_messages s),
           s \<lparr> rmr_incoming_messages := [] \<rparr>, wl))))"

section \<open>Unreliable receivers\<close>

record 'm sequenced_unreliable_receiver =
  sur_newest_received_message_index :: "u16 option"
  sur_incoming_messages :: "'m message list"
  sur_waitlist_store :: "(u16 \<times> 'm message) waitlist_store"

definition sur_new :: "'m sequenced_unreliable_receiver" where
  "sur_new = \<lparr> sur_newest_received_message_index = None, sur_incoming_messages = [], sur_waitlist_store = ws_new \<rparr>"

definition sur_arrange_message :: "u16 \<Rightarrow> 'm message \<Rightarrow> 'm sequenced_unreliable_receiver \<Rightarrow> 'm sequenced_unreliable_receiver" where
  "sur_arrange_message message_index message s =
     (case sur_newest_received_message_index s of
        Some most_recent_id \<Rightarrow>
          if sequence_greater_than message_index most_recent_id
          then s \<lparr> sur_incoming_messages := sur_incoming_messages s @ [message], sur_newest_received_message_index := Some message_index \<rparr>
          else s
      | None \<Rightarrow>
          s \<lparr> sur_incoming_messages := sur_incoming_messages s @ [message], sur_newest_received_message_index := Some message_index \<rparr>)"

definition sur_buffer_message ::
    "('e, 'm) world_view \<Rightarrow> instant \<Rightarrow> u16 \<times> 'm message \<Rightarrow> 'm sequenced_unreliable_receiver \<times> 'e waitlist \<Rightarrow>
     ('m sequenced_unreliable_receiver \<times> 'e waitlist) res" where
  "sur_buffer_message wv now item sw =
     (let (message_index, message) = item; (s, wl) = sw in
      case relations_waiting wv message of
        Some remote_entity_set \<Rightarrow>
          rbind (wl_queue (wv_order wv) (wv_in_scope wv) now remote_entity_set (message_index, message) (sur_waitlist_store s) wl)
            (\<lambda>(_, store, wl). Inr (s \<lparr> sur_waitlist_store := store \<rparr>, wl))
      | None \<Rightarrow> Inr (sur_arrange_message message_index message s, wl))"

definition sur_receive_messages ::
    "('e, 'm) world_view \<Rightarrow> instant \<Rightarrow> 'm sequenced_unreliable_receiver \<times> 'e waitlist \<Rightarrow>
     ('m message list \<times> 'm sequenced_unreliable_receiver \<times> 'e waitlist) res" where
  "sur_receive_messages wv now sw =
     (let (s, wl) = sw in
      rbind (wl_collect_ready_items (wv_order wv) now (sur_waitlist_store s) wl) (\<lambda>(list, store, wl).
      rbind (rfold (\<lambda>(message_index, message) s.
          rbind (relations_complete wv message) (\<lambda>message. Inr (sur_arrange_message message_index message s)))
          (case list of None \<Rightarrow> [] | Some list \<Rightarrow> list) (s \<lparr> sur_waitlist_store := store \<rparr>)) (\<lambda>s.
      Inr (sur_incoming_messages s, s \<lparr> sur_incoming_messages := [] \<rparr>, wl))))"

record 'm unordered_unreliable_receiver =
  uur_incoming_messages :: "'m message list"
  uur_waitlist_store :: "'m message waitlist_store"

definition uur_new :: "'m unordered_unreliable_receiver" where
  "uur_new = \<lparr> uur_incoming_messages = [], uur_waitlist_store = ws_new \<rparr>"

definition uur_recv_message ::
    "('e, 'm) world_view \<Rightarrow> instant \<Rightarrow> 'm message \<Rightarrow> 'm unordered_unreliable_receiver \<times> 'e waitlist \<Rightarrow>
     ('m unordered_unreliable_receiver \<times> 'e waitlist) res" where
  "uur_recv_message wv now message sw =
     (let (s, wl) = sw in
      case relations_waiting wv message of
        Some remote_entity_set \<Rightarrow>
          rbind (wl_queue (wv_order wv) (wv_in_scope wv) now remote_entity_set message (uur_waitlist_store s) wl)
            (\<lambda>(_, store, wl). Inr (s \<lparr> uur_waitlist_store := store \<rparr>, wl))
      | None \<Rightarrow> Inr (s \<lparr> uur_incoming_messages := uur_incoming_messages s @ [message] \<rparr>, wl))"

definition uur_receive_messages ::
    "('e, 'm) world_view \<Rightarrow> instant \<Rightarrow> 'm unordered_unreliable_receiver \<times> 'e waitlist \<Rightarrow>
     ('m message list \<times> 'm unordered_unreliable_receiver \<times> 'e waitlist) res" where
  "uur_receive_messages wv now sw =
     (let (s, wl) = sw in
      rbind (wl_collect_ready_items (wv_order wv) now (uur_waitlist_store s) wl) (\<lambda>(list, store, wl).
      rbind (rfold (\<lambda>message s.
          rbind (relations_complete wv message) (\<lambda>message.
            Inr (s \<lparr> uur_incoming_messages := uur_incoming_messages s @ [message] \<rparr>)))
          (case list of None \<Rightarrow> [] | Some list \<Rightarrow> list) (s \<lparr> uur_waitlist_store := store \<rparr>)) (\<lambda>s.
      Inr (uur_incoming_messages s, s \<lparr> uur_incoming_messages := [] \<rparr>, wl))))"

text \<open>The loop of \<^verbatim>\<open>read_messages\<close>; every turn reads a bit at least.\<close>

fun uur_read_loop ::
    "nat \<Rightarrow> ('e, 'm) world_view \<Rightarrow> instant \<Rightarrow> (bit_reader \<Rightarrow> ('m message \<times> bit_reader) res) \<Rightarrow>
     'm unordered_unreliable_receiver \<times> 'e waitlist \<Rightarrow> bit_reader \<Rightarrow>
     (('m unordered_unreliable_receiver \<times> 'e waitlist) \<times> bit_reader) res" where
  "uur_read_loop 0 wv now de sw r = Inl Diverges"
| "uur_read_loop (Suc n) wv now de sw r =
     rbind (bool_de r) (\<lambda>(channel_continue, r).
       if \<not> channel_continue then Inr (sw, r)
       else rbind (de r) (\<lambda>(message, r).
            rbind (uur_recv_message wv now message sw) (\<lambda>sw. uur_read_loop n wv now de sw r)))"

section \<open>The traits\<close>

datatype 'm channel_receiver =
    UnorderedUnreliableReceiver "'m unordered_unreliable_receiver"
  | SequencedUnreliableReceiver "'m sequenced_unreliable_receiver"
  | ReliableMessageReceiver "'m reliable_message_receiver"

fun receiver_read_messages ::
    "('k, 'm) message_kinds \<Rightarrow> ('e, 'm) world_view \<Rightarrow> instant \<Rightarrow> 'm channel_receiver \<times> 'e waitlist \<Rightarrow> bit_reader \<Rightarrow>
     (('m channel_receiver \<times> 'e waitlist) \<times> bit_reader) res" where
  "receiver_read_messages ks wv now (UnorderedUnreliableReceiver s, wl) r =
     rbind (uur_read_loop (length (br_bits r) + 1) wv now (message_read ks) (s, wl) r) (\<lambda>((s, wl), r).
       Inr ((UnorderedUnreliableReceiver s, wl), r))"
| "receiver_read_messages ks wv now (SequencedUnreliableReceiver s, wl) r =
     rbind (read_messages (message_read ks) r) (\<lambda>(id_w_msgs, r).
     rbind (rfold (sur_buffer_message wv now) id_w_msgs (s, wl)) (\<lambda>(s, wl).
       Inr ((SequencedUnreliableReceiver s, wl), r)))"
| "receiver_read_messages ks wv now (ReliableMessageReceiver s, wl) r =
     rbind (read_messages (message_read ks) r) (\<lambda>(id_w_msgs, r).
     rbind (rfold (rmr_buffer_message ks wv now) id_w_msgs (s, wl)) (\<lambda>(s, wl).
       Inr ((ReliableMessageReceiver s, wl), r)))"

fun receiver_receive_messages ::
    "('k, 'm) message_kinds \<Rightarrow> ('e, 'm) world_view \<Rightarrow> instant \<Rightarrow> 'm channel_receiver \<times> 'e waitlist \<Rightarrow>
     ('m message list \<times> 'm channel_receiver \<times> 'e waitlist) res" where
  "receiver_receive_messages ks wv now (UnorderedUnreliableReceiver s, wl) =
     rbind (uur_receive_messages wv now (s, wl)) (\<lambda>(out, s, wl). Inr (out, UnorderedUnreliableReceiver s, wl))"
| "receiver_receive_messages ks wv now (SequencedUnreliableReceiver s, wl) =
     rbind (sur_receive_messages wv now (s, wl)) (\<lambda>(out, s, wl). Inr (out, SequencedUnreliableReceiver s, wl))"
| "receiver_receive_messages ks wv now (ReliableMessageReceiver s, wl) =
     rbind (rmr_receive_messages ks wv now (s, wl)) (\<lambda>(out, s, wl). Inr (out, ReliableMessageReceiver s, wl))"

fun receiver_receive_requests_and_responses ::
    "'m channel_receiver \<Rightarrow>
     (((local_response_id \<times> 'm message) list \<times> (local_request_id \<times> 'm message) list) \<times> 'm channel_receiver) res" where
  "receiver_receive_requests_and_responses (ReliableMessageReceiver s) =
     Inr ((rmr_incoming_requests s, rmr_incoming_responses s),
       ReliableMessageReceiver (s \<lparr> rmr_incoming_requests := [], rmr_incoming_responses := [] \<rparr>))"
| "receiver_receive_requests_and_responses _ = Inl (Panic ''channels do not support requests'')"

end
