(* ===== verification/Message_Manager.thy ===== *)
theory Message_Manager
  imports Channel_Receivers Entity_Message
begin

text \<open>
  The message manager of a connection, \<^verbatim>\<open>shared/src/messages/message_manager.rs\<close>: the senders and receivers of all
  channels, the packets they share and the record of which packet carries which messages. The hash maps it iterates are
  association lists, in whatever order.
\<close>

section \<open>The manager\<close>

record ('c, 'm) message_manager =
  mm_channel_senders :: "('c channel_kind \<times> 'm channel_sender) list"
  mm_channel_receivers :: "('c channel_kind \<times> 'm channel_receiver) list"
  mm_channel_settings :: "('c channel_kind \<times> channel_settings) list"
  mm_packet_to_message_map :: "u16 \<rightharpoonup> ('c channel_kind \<times> u16 list) list"
  mm_message_fragmenter :: message_fragmenter

fun new_sender :: "channel_mode \<Rightarrow> 'm channel_sender option" where
  "new_sender UnorderedUnreliable = Some (UnorderedUnreliableSender uus_new)"
| "new_sender SequencedUnreliable = Some (SequencedUnreliableSender sus_new)"
| "new_sender (UnorderedReliable s) = Some (ReliableMessageSender (rms_new (rtt_resend_factor s) (max_queue_depth s)))"
| "new_sender (SequencedReliable s) = Some (ReliableMessageSender (rms_new (rtt_resend_factor s) (max_queue_depth s)))"
| "new_sender (OrderedReliable s) = Some (ReliableMessageSender (rms_new (rtt_resend_factor s) (max_queue_depth s)))"
| "new_sender (TickBuffered _) = None"

fun new_receiver :: "channel_mode \<Rightarrow> 'm channel_receiver option" where
  "new_receiver UnorderedUnreliable = Some (UnorderedUnreliableReceiver uur_new)"
| "new_receiver SequencedUnreliable = Some (SequencedUnreliableReceiver sur_new)"
| "new_receiver (UnorderedReliable s) =
     Some (ReliableMessageReceiver (with_arranger_and_cap UnorderedArranger (max_messages_per_tick s)))"
| "new_receiver (SequencedReliable s) =
     Some (ReliableMessageReceiver (with_arranger_and_cap (SequencedArranger sa_new) (max_messages_per_tick s)))"
| "new_receiver (OrderedReliable s) =
     Some (ReliableMessageReceiver (with_arranger_and_cap (OrderedArranger oa_new) (max_messages_per_tick s)))"
| "new_receiver (TickBuffered _) = None"

definition can_send :: "host_type \<Rightarrow> channel_settings \<Rightarrow> bool" where
  "can_send host_type settings = (case host_type of Server \<Rightarrow> cs_can_send_to_client settings | Client \<Rightarrow> cs_can_send_to_server settings)"

definition can_receive :: "host_type \<Rightarrow> channel_settings \<Rightarrow> bool" where
  "can_receive host_type settings = (case host_type of Server \<Rightarrow> cs_can_send_to_server settings | Client \<Rightarrow> cs_can_send_to_client settings)"

fun insert_channels ::
    "(channel_settings \<Rightarrow> bool) \<Rightarrow> (channel_mode \<Rightarrow> 'x option) \<Rightarrow> ('c channel_kind \<times> channel_settings) list \<Rightarrow>
     ('c channel_kind \<times> 'x) list \<Rightarrow> ('c channel_kind \<times> 'x) list" where
  "insert_channels can new [] m = m"
| "insert_channels can new ((kind, settings) # cs) m =
     insert_channels can new cs
       (if \<not> can settings then m else case new (cs_mode settings) of None \<Rightarrow> m | Some x \<Rightarrow> alist_insert kind x m)"

definition mm_new :: "host_type \<Rightarrow> 'c channel_kinds \<Rightarrow> ('c, 'm) message_manager" where
  "mm_new host_type channel_kinds =
     \<lparr> mm_channel_senders = insert_channels (can_send host_type) new_sender (channels channel_kinds) [],
       mm_channel_receivers = insert_channels (can_receive host_type) new_receiver (channels channel_kinds) [],
       mm_channel_settings = fold (\<lambda>(kind, settings). alist_insert kind settings) (channels channel_kinds) [],
       mm_packet_to_message_map = Map.empty,
       mm_message_fragmenter = fragmenter_new \<rparr>"

section \<open>Outgoing messages\<close>

definition put_sender :: "'c channel_kind \<Rightarrow> 'm channel_sender \<Rightarrow> ('c, 'm) message_manager \<Rightarrow> ('c, 'm) message_manager" where
  "put_sender kind sender mm = mm \<lparr> mm_channel_senders := alist_insert kind sender (mm_channel_senders mm) \<rparr>"

fun send_fragments :: "'m message list \<Rightarrow> bool \<Rightarrow> 'm channel_sender \<Rightarrow> bool \<times> 'm channel_sender" where
  "send_fragments [] all_accepted sender = (all_accepted, sender)"
| "send_fragments (message # messages) all_accepted sender =
     (let (accepted, sender) = sender_send_message message sender
      in send_fragments messages (if \<not> accepted then False else all_accepted) sender)"

definition mm_send_message ::
    "('k, 'm) message_types \<Rightarrow> ('k, 'm) message_kinds \<Rightarrow> 'c channel_kind \<Rightarrow> 'm message \<Rightarrow> ('c, 'm) message_manager \<Rightarrow>
     (bool \<times> ('c, 'm) message_manager) res" where
  "mm_send_message mt ks kind message mm =
     (case map_of (mm_channel_senders mm) kind of
        None \<Rightarrow> Inl (Panic ''Channel not configured correctly! Cannot send message.'')
      | Some sender \<Rightarrow>
          rbind (message_bit_length mt ks message) (\<lambda>bit_length.
            if FRAGMENTATION_LIMIT_BITS < bit_length then
              (case map_of (mm_channel_settings mm) kind of
                 None \<Rightarrow> Inl (Panic ''Channel not configured correctly! Cannot send message.'')
               | Some settings \<Rightarrow>
                   if \<not> cs_reliable settings then Inr (False, mm)
                   else rbind (fragment_message mt ks message (mm_message_fragmenter mm)) (\<lambda>(messages, mf).
                          let (all_accepted, sender) = send_fragments messages True sender
                          in Inr (all_accepted, put_sender kind sender (mm \<lparr> mm_message_fragmenter := mf \<rparr>))))
            else
              (let (accepted, sender) = sender_send_message message sender in Inr (accepted, put_sender kind sender mm))))"

definition mm_send_request ::
    "('k, 'm) message_types \<Rightarrow> ('k, 'm) message_kinds \<Rightarrow> instant \<Rightarrow> 'c channel_kind \<Rightarrow> u64 \<Rightarrow> 'm message \<Rightarrow>
     ('c, 'm) message_manager \<Rightarrow> ('c, 'm) message_manager res" where
  "mm_send_request mt ks now kind global_request_id request mm =
     (case map_of (mm_channel_senders mm) kind of
        None \<Rightarrow> Inl (Panic ''Channel not configured correctly! Cannot send message.'')
      | Some sender \<Rightarrow>
          rbind (sender_send_outgoing_request mt ks now global_request_id request sender) (\<lambda>sender. Inr (put_sender kind sender mm)))"

definition mm_send_response ::
    "('k, 'm) message_types \<Rightarrow> ('k, 'm) message_kinds \<Rightarrow> 'c channel_kind \<Rightarrow> local_response_id \<Rightarrow> 'm message \<Rightarrow>
     ('c, 'm) message_manager \<Rightarrow> ('c, 'm) message_manager res" where
  "mm_send_response mt ks kind local_response_id response mm =
     (case map_of (mm_channel_senders mm) kind of
        None \<Rightarrow> Inl (Panic ''Channel not configured correctly! Cannot send message.'')
      | Some sender \<Rightarrow>
          rbind (sender_send_outgoing_response mt ks local_response_id response sender) (\<lambda>sender. Inr (put_sender kind sender mm)))"

definition mm_collect_outgoing_messages :: "instant \<Rightarrow> (rat \<Rightarrow> nat) \<Rightarrow> ('c, 'm) message_manager \<Rightarrow> ('c, 'm) message_manager" where
  "mm_collect_outgoing_messages now resend mm =
     mm \<lparr> mm_channel_senders := map (\<lambda>(kind, sender). (kind, sender_collect_messages now resend sender)) (mm_channel_senders mm) \<rparr>"

definition mm_has_outgoing_messages :: "('c, 'm) message_manager \<Rightarrow> bool" where
  "mm_has_outgoing_messages mm = list_ex (\<lambda>(kind, sender). sender_has_messages sender) (mm_channel_senders mm)"

text \<open>The channels by descending gain; \<^verbatim>\<open>sort_by\<close> is stable, as is \<open>sort_key\<close>.\<close>

definition ordered_channels :: "('c, 'm) message_manager \<Rightarrow> ('c channel_kind \<times> rat) list" where
  "ordered_channels mm =
     sort_key (\<lambda>(kind, gain). - gain)
       (map (\<lambda>(kind, sender). (kind, case map_of (mm_channel_settings mm) kind of Some s \<Rightarrow> base_gain (cs_criticality s) | None \<Rightarrow> 1))
         (mm_channel_senders mm))"

definition record_messages ::
    "u16 \<Rightarrow> 'c channel_kind \<Rightarrow> u16 list option \<Rightarrow> ('c, 'm) message_manager \<Rightarrow> ('c, 'm) message_manager" where
  "record_messages packet_index kind indices mm =
     (case indices of
        None \<Rightarrow> mm
      | Some message_indices \<Rightarrow>
          (let channel_list = (case mm_packet_to_message_map mm packet_index of None \<Rightarrow> [] | Some list \<Rightarrow> list)
           in mm \<lparr> mm_packet_to_message_map := (mm_packet_to_message_map mm)(packet_index \<mapsto> channel_list @ [(kind, message_indices)]) \<rparr>))"

definition channel_head :: "'c channel_kinds \<Rightarrow> 'c channel_kind \<Rightarrow> bit_write \<Rightarrow> bit_write res" where
  "channel_head channel_kinds kind w = rbind (bool_ser True w) (kind_ser channel_kinds kind)"

definition count_head :: "'c channel_kinds \<Rightarrow> 'c channel_kind \<Rightarrow> bit_write \<Rightarrow> bit_write res" where
  "count_head channel_kinds kind w = rbind (write_bit False w) (\<lambda>w. rbind (write_bit False w) (kind_ser channel_kinds kind))"

fun mm_write_loop ::
    "'c channel_kinds \<Rightarrow> ('m message \<Rightarrow> bit_write \<Rightarrow> bit_write res) \<Rightarrow> u16 \<Rightarrow> 'c channel_kind list \<Rightarrow> ('c, 'm) message_manager \<Rightarrow>
     bit_writer \<Rightarrow> bool \<Rightarrow> (('c, 'm) message_manager \<times> bit_writer \<times> bool) res" where
  "mm_write_loop ck ser packet_index [] mm w has_written = Inr (mm, w, has_written)"
| "mm_write_loop ck ser packet_index (kind # kinds) mm w has_written =
     (case map_of (mm_channel_senders mm) kind of
        None \<Rightarrow> Inl (Panic ''called `Option::unwrap()` on a `None` value'')
      | Some sender \<Rightarrow>
          if \<not> sender_has_messages sender then mm_write_loop ck ser packet_index kinds mm w has_written
          else rbind (on_counter (count_head ck kind) (bw_counter w)) (\<lambda>counter.
            if bc_overflowed counter then Inr (mm, w, has_written)
            else rbind (bw_reserve_bits 1 w) (\<lambda>w.
                 rbind (on_writer (channel_head ck kind) w) (\<lambda>w.
                 rbind (sender_write_messages ser sender w has_written) (\<lambda>(indices, sender, w, has_written).
                 rbind (bw_release_bits 1 w) (\<lambda>w.
                 rbind (on_writer (bool_ser False) w) (\<lambda>w.
                 mm_write_loop ck ser packet_index kinds (record_messages packet_index kind indices (put_sender kind sender mm)) w has_written)))))))"

definition mm_write_messages ::
    "'c channel_kinds \<Rightarrow> ('k, 'm) message_types \<Rightarrow> ('k, 'm) message_kinds \<Rightarrow> u16 \<Rightarrow> ('c, 'm) message_manager \<Rightarrow> bit_writer \<Rightarrow> bool \<Rightarrow>
     (('c, 'm) message_manager \<times> bit_writer \<times> bool) res" where
  "mm_write_messages ck mt ks packet_index mm w has_written =
     rbind (mm_write_loop ck (message_write mt ks) packet_index (map fst (ordered_channels mm)) mm w has_written) (\<lambda>(mm, w, has_written).
     rbind (bw_release_bits 1 w) (\<lambda>w.
     rbind (on_writer (bool_ser False) w) (\<lambda>w. Inr (mm, w, has_written))))"

section \<open>Incoming messages\<close>

text \<open>Every turn of the loop reads a bit at least.\<close>

fun mm_read_loop ::
    "nat \<Rightarrow> 'c channel_kinds \<Rightarrow> ('k, 'm) message_kinds \<Rightarrow> ('e, 'm) world_view \<Rightarrow> instant \<Rightarrow>
     ('c, 'm) message_manager \<times> 'e waitlist \<Rightarrow> bit_reader \<Rightarrow> ((('c, 'm) message_manager \<times> 'e waitlist) \<times> bit_reader) res" where
  "mm_read_loop 0 ck ks wv now mmw r = Inl Diverges"
| "mm_read_loop (Suc n) ck ks wv now (mm, wl) r =
     rbind (bool_de r) (\<lambda>(message_continue, r).
       if \<not> message_continue then Inr ((mm, wl), r)
       else rbind (kind_de ck r) (\<lambda>(kind, r).
         case map_of (mm_channel_receivers mm) kind of
           None \<Rightarrow> Inl SerdeErr
         | Some receiver \<Rightarrow>
             rbind (receiver_read_messages ks wv now (receiver, wl) r) (\<lambda>((receiver, wl), r).
               mm_read_loop n ck ks wv now (mm \<lparr> mm_channel_receivers := alist_insert kind receiver (mm_channel_receivers mm) \<rparr>, wl) r)))"

definition mm_read_messages ::
    "'c channel_kinds \<Rightarrow> ('k, 'm) message_kinds \<Rightarrow> ('e, 'm) world_view \<Rightarrow> instant \<Rightarrow> ('c, 'm) message_manager \<times> 'e waitlist \<Rightarrow>
     bit_reader \<Rightarrow> ((('c, 'm) message_manager \<times> 'e waitlist) \<times> bit_reader) res" where
  "mm_read_messages ck ks wv now mmw r = mm_read_loop (length (br_bits r) + 1) ck ks wv now mmw r"

fun mm_receive_loop ::
    "('k, 'm) message_kinds \<Rightarrow> ('e, 'm) world_view \<Rightarrow> instant \<Rightarrow> ('c channel_kind \<times> 'm channel_receiver) list \<Rightarrow> 'e waitlist \<Rightarrow>
     (('c channel_kind \<times> 'm message list) list \<times> ('c channel_kind \<times> 'm channel_receiver) list \<times> 'e waitlist) res" where
  "mm_receive_loop ks wv now [] wl = Inr ([], [], wl)"
| "mm_receive_loop ks wv now ((kind, receiver) # receivers) wl =
     rbind (receiver_receive_messages ks wv now (receiver, wl)) (\<lambda>(messages, receiver, wl).
     rbind (mm_receive_loop ks wv now receivers wl) (\<lambda>(output, receivers, wl).
       Inr ((kind, messages) # output, (kind, receiver) # receivers, wl)))"

definition mm_receive_messages ::
    "('k, 'm) message_kinds \<Rightarrow> ('e, 'm) world_view \<Rightarrow> instant \<Rightarrow> ('c, 'm) message_manager \<times> 'e waitlist \<Rightarrow>
     (('c channel_kind \<times> 'm message list) list \<times> ('c, 'm) message_manager \<times> 'e waitlist) res" where
  "mm_receive_messages ks wv now mmw =
     rbind (mm_receive_loop ks wv now (mm_channel_receivers (fst mmw)) (snd mmw)) (\<lambda>(output, receivers, wl).
       Inr (output, (fst mmw) \<lparr> mm_channel_receivers := receivers \<rparr>, wl))"

fun process_responses ::
    "instant \<Rightarrow> (local_request_id \<times> 'm message) list \<Rightarrow> 'm channel_sender \<Rightarrow> ((u64 \<times> 'm message) list \<times> 'm channel_sender) res" where
  "process_responses now [] sender = Inr ([], sender)"
| "process_responses now ((local_request_id, response) # responses) sender =
     rbind (sender_process_incoming_response now local_request_id sender) (\<lambda>(global_request_id, sender).
       case global_request_id of
         None \<Rightarrow> Inl (Panic ''called `Option::unwrap()` on a `None` value'')
       | Some global_request_id \<Rightarrow>
           rbind (process_responses now responses sender) (\<lambda>(output, sender). Inr ((global_request_id, response) # output, sender)))"

definition receive_on_channel ::
    "instant \<Rightarrow> 'c channel_kind \<Rightarrow> 'm channel_receiver \<Rightarrow> ('c channel_kind \<times> 'm channel_sender) list \<Rightarrow>
     (((local_response_id \<times> 'm message) list \<times> (u64 \<times> 'm message) list) \<times> 'm channel_receiver \<times> ('c channel_kind \<times> 'm channel_sender) list) res" where
  "receive_on_channel now kind receiver senders =
     rbind (receiver_receive_requests_and_responses receiver) (\<lambda>((requests, responses), receiver).
       if responses = [] then Inr ((requests, []), receiver, senders)
       else case map_of senders kind of
              None \<Rightarrow> Inl (Panic ''Channel not configured correctly! Cannot send message on channel'')
            | Some sender \<Rightarrow>
                rbind (process_responses now responses sender) (\<lambda>(output, sender).
                  Inr ((requests, output), receiver, alist_insert kind sender senders)))"

fun mm_requests_loop ::
    "instant \<Rightarrow> ('c channel_kind \<times> channel_settings) list \<Rightarrow> ('c channel_kind \<times> 'm channel_receiver) list \<Rightarrow> ('c channel_kind \<times> 'm channel_sender) list \<Rightarrow>
     ((('c channel_kind \<times> (local_response_id \<times> 'm message) list) list \<times> (u64 \<times> 'm message) list) \<times>
      ('c channel_kind \<times> 'm channel_receiver) list \<times> ('c channel_kind \<times> 'm channel_sender) list) res" where
  "mm_requests_loop now settings [] senders = Inr (([], []), [], senders)"
| "mm_requests_loop now settings ((kind, receiver) # receivers) senders =
     (case map_of settings kind of
        None \<Rightarrow> Inl (Panic ''called `Option::unwrap()` on a `None` value'')
      | Some s \<Rightarrow>
          rbind (if \<not> cs_can_request_and_respond s then Inr (([], []), receiver, senders)
                 else receive_on_channel now kind receiver senders) (\<lambda>((requests, responses), receiver, senders).
          rbind (mm_requests_loop now settings receivers senders) (\<lambda>((request_output, response_output), receivers, senders).
            Inr ((if requests = [] then request_output else (kind, requests) # request_output, responses @ response_output),
              (kind, receiver) # receivers, senders))))"

definition mm_receive_requests_and_responses ::
    "instant \<Rightarrow> ('c, 'm) message_manager \<Rightarrow>
     ((('c channel_kind \<times> (local_response_id \<times> 'm message) list) list \<times> (u64 \<times> 'm message) list) \<times> ('c, 'm) message_manager) res" where
  "mm_receive_requests_and_responses now mm =
     rbind (mm_requests_loop now (mm_channel_settings mm) (mm_channel_receivers mm) (mm_channel_senders mm)) (\<lambda>(output, receivers, senders).
       Inr (output, mm \<lparr> mm_channel_receivers := receivers, mm_channel_senders := senders \<rparr>))"

section \<open>Delivered packets\<close>

definition notify_channel ::
    "'c channel_kind \<times> u16 list \<Rightarrow> ('c channel_kind \<times> 'm channel_sender) list \<Rightarrow> ('c channel_kind \<times> 'm channel_sender) list" where
  "notify_channel entry senders =
     (let (kind, message_indices) = entry in
      case map_of senders kind of
        None \<Rightarrow> senders
      | Some sender \<Rightarrow> alist_insert kind (fold sender_notify_message_delivered message_indices sender) senders)"

definition mm_notify_packet_delivered :: "u16 \<Rightarrow> ('c, 'm) message_manager \<Rightarrow> ('c, 'm) message_manager" where
  "mm_notify_packet_delivered packet_index mm =
     (case mm_packet_to_message_map mm packet_index of
        None \<Rightarrow> mm
      | Some channel_list \<Rightarrow> mm \<lparr> mm_channel_senders := fold notify_channel channel_list (mm_channel_senders mm) \<rparr>)"

end
