(* ===== verification/Message_Packets.thy ===== *)
theory Message_Packets
  imports Message_Manager
begin

text \<open>
  The messages of a packet: what the message manager of one side writes and what the manager of the other side does with
  it. A packet is a list of channels with a part of the queue of each.
\<close>

section \<open>Writing a channel\<close>

fun set_queue :: "'m message payload \<Rightarrow> 'm channel_sender \<Rightarrow> 'm channel_sender" where
  "set_queue (Plain ms) (UnorderedUnreliableSender s) = UnorderedUnreliableSender (s \<lparr> uus_outgoing_messages := ms \<rparr>)"
| "set_queue (Indexed ms) (SequencedUnreliableSender s) = SequencedUnreliableSender (s \<lparr> sus_outgoing_messages := ms \<rparr>)"
| "set_queue (Indexed ms) (ReliableMessageSender s) =
     ReliableMessageSender (s \<lparr> rms_reliable_sender := (rms_reliable_sender s) \<lparr> rs_outgoing_messages := ms \<rparr> \<rparr>)"
| "set_queue p s = s"

abbreviation sendable :: "('m \<Rightarrow> bool list) \<Rightarrow> ('m \<Rightarrow> bool) \<Rightarrow> 'm payload \<Rightarrow> bool" where
  "sendable enc valid \<equiv> payload_ok (\<lambda>m. valid m \<and> length (enc m) < 2 ^ 31)"

lemma sender_write_messages_ok:
  assumes c: "codec ser de enc valid" and q: "sendable enc valid (sender_queue s)"
    and w: "bw_ok w" "bw_current_bits w \<le> bw_max_bits w"
    and room: "hw \<or> bw_current_bits w + length (payload_enc enc (payload_take 1 (sender_queue s))) \<le> bw_max_bits w"
  shows "\<exists>k w'. sender_write_messages ser s w hw =
      Inr (payload_indices (payload_take k (sender_queue s)), set_queue (payload_drop k (sender_queue s)) s, w',
        hw \<or> payload_messages (payload_take k (sender_queue s)) \<noteq> []) \<and>
    bw_ok w' \<and> bw_bits w' = bw_bits w @ payload_enc enc (payload_take k (sender_queue s)) \<and>
    bw_max_bits w' = bw_max_bits w \<and> bw_current_bits w' \<le> bw_max_bits w \<and>
    (hw \<or> payload_messages (sender_queue s) = [] \<or> payload_messages (payload_take k (sender_queue s)) \<noteq> [])"
proof (cases s)
  case (UnorderedUnreliableSender u)
  from codec.uus_write_loop_ok [OF c, of "uus_outgoing_messages u" w hw] q w room UnorderedUnreliableSender obtain k w' where
    "uus_write_loop ser (uus_outgoing_messages u) w hw =
       Inr (drop k (uus_outgoing_messages u), w', hw \<or> take k (uus_outgoing_messages u) \<noteq> [])" "bw_ok w'"
    "bw_bits w' = bw_bits w @ payload_enc enc (Plain (take k (uus_outgoing_messages u)))" "bw_max_bits w' = bw_max_bits w"
    "bw_current_bits w' \<le> bw_max_bits w" "hw \<or> uus_outgoing_messages u = [] \<or> take k (uus_outgoing_messages u) \<noteq> []" by auto
  with UnorderedUnreliableSender show ?thesis by (intro exI [of _ k] exI [of _ w']) simp
next
  case (SequencedUnreliableSender u)
  from codec.write_messages_loop_ok [OF c, of None "sus_outgoing_messages u" w hw "[]"] q w room SequencedUnreliableSender obtain k w' where
    "write_messages ser (sus_outgoing_messages u) w hw =
       Inr (map fst (take k (sus_outgoing_messages u)), drop k (sus_outgoing_messages u), w', hw \<or> take k (sus_outgoing_messages u) \<noteq> [])"
    "bw_ok w'" "bw_bits w' = bw_bits w @ messages_enc enc None (take k (sus_outgoing_messages u))" "bw_max_bits w' = bw_max_bits w"
    "bw_current_bits w' \<le> bw_max_bits w"
    "k < length (sus_outgoing_messages u) \<longrightarrow> bw_max_bits w < length (bw_bits w @ messages_enc enc None (take (Suc k) (sus_outgoing_messages u)))"
    by (auto simp: write_messages_def list_all_iff)
  moreover from this(6) have "hw \<or> sus_outgoing_messages u = [] \<or> take k (sus_outgoing_messages u) \<noteq> []"
    using room SequencedUnreliableSender length_bw_bits [OF w(1)] by (cases k) auto
  ultimately show ?thesis using SequencedUnreliableSender by (intro exI [of _ k] exI [of _ w']) simp
next
  case (ReliableMessageSender u)
  let ?q = "rs_outgoing_messages (rms_reliable_sender u)"
  from codec.write_messages_loop_ok [OF c, of None ?q w hw "[]"] q w room ReliableMessageSender obtain k w' where
    "write_messages ser ?q w hw = Inr (map fst (take k ?q), drop k ?q, w', hw \<or> take k ?q \<noteq> [])"
    "bw_ok w'" "bw_bits w' = bw_bits w @ messages_enc enc None (take k ?q)" "bw_max_bits w' = bw_max_bits w"
    "bw_current_bits w' \<le> bw_max_bits w" "k < length ?q \<longrightarrow> bw_max_bits w < length (bw_bits w @ messages_enc enc None (take (Suc k) ?q))"
    by (auto simp: write_messages_def list_all_iff)
  moreover from this(6) have "hw \<or> ?q = [] \<or> take k ?q \<noteq> []"
    using room ReliableMessageSender length_bw_bits [OF w(1)] by (cases k) auto
  ultimately show ?thesis using ReliableMessageSender by (intro exI [of _ k] exI [of _ w']) simp
qed

lemma channel_head_writes:
  assumes "kinds_ok ck" "registered ck kind"
  shows "sink.writes (channel_head ck kind) (True # kind_enc ck kind)"
    and "sink.writes (count_head ck kind) (False # False # kind_enc ck kind)"
proof -
  note k = codec.ser_writes [OF kinds_codec [OF assms(1)] assms(2)]
  show "sink.writes (channel_head ck kind) (True # kind_enc ck kind)"
    using sink.writes_bind [OF bool_serde.ser_writes [of True] k] by (simp add: channel_head_def [abs_def])
  show "sink.writes (count_head ck kind) (False # False # kind_enc ck kind)"
    using sink.writes_bind [OF sink.writes_bit sink.writes_bind [OF sink.writes_bit k], of False False]
    by (simp add: count_head_def [abs_def])
qed

lemma bw_reserve_release:
  assumes "bw_ok w"
  shows "n \<le> bw_max_bits w \<Longrightarrow> bw_reserve_bits n w = Inr (w \<lparr> bw_max_bits := bw_max_bits w - n \<rparr>)"
    and "bw_max_bits w + n \<le> MTU_SIZE_BITS \<Longrightarrow> bw_release_bits n w = Inr (w \<lparr> bw_max_bits := bw_max_bits w + n \<rparr>)"
    and "n \<le> MTU_SIZE_BITS \<Longrightarrow> bw_ok (w \<lparr> bw_max_bits := n \<rparr>)" "bw_bits (w \<lparr> bw_max_bits := n \<rparr>) = bw_bits w"
  using assms by (auto simp: bw_reserve_bits_def bw_release_bits_def u32_add_def mtu_simps bw_ok_def bw_core_def bw_bits_def)

section \<open>Writing a packet\<close>

definition channels_enc ::
    "'c channel_kinds \<Rightarrow> ('m message \<Rightarrow> bool list) \<Rightarrow> ('c channel_kind \<times> 'm message payload) list \<Rightarrow> bool list" where
  "channels_enc ck enc sent = concat (map (\<lambda>(kind, p). True # kind_enc ck kind @ payload_enc enc p @ [False]) sent)"

text \<open>The packet takes the front of the queue of each of its channels.\<close>

definition took ::
    "('c channel_kind \<times> 'm channel_sender) list \<Rightarrow> ('c channel_kind \<times> 'm message payload) list \<Rightarrow> ('c channel_kind \<rightharpoonup> 'm channel_sender) \<Rightarrow> bool" where
  "took senders sent senders' \<longleftrightarrow> dom senders' = dom (map_of senders) \<and>
     (\<forall>kind s. map_of senders kind = Some s \<longrightarrow>
       (case map_of sent kind of
          None \<Rightarrow> senders' kind = Some s
        | Some p \<Rightarrow> \<exists>n. p = payload_take n (sender_queue s) \<and> senders' kind = Some (set_queue (payload_drop n (sender_queue s)) s)))"

lemma tookD:
  assumes "took senders sent senders'" "map_of senders kind = Some s"
  shows "map_of sent kind = None \<Longrightarrow> senders' kind = Some s"
    and "map_of sent kind = Some p \<Longrightarrow> \<exists>n. p = payload_take n (sender_queue s) \<and> senders' kind = Some (set_queue (payload_drop n (sender_queue s)) s)"
  using assms by (auto simp: took_def dest!: spec [of _ kind])

definition recorded :: "('c channel_kind \<times> 'm payload) list \<Rightarrow> ('c channel_kind \<times> u16 list) list" where
  "recorded sent = concat (map (\<lambda>(kind, p). case payload_indices p of None \<Rightarrow> [] | Some is \<Rightarrow> [(kind, is)]) sent)"

definition entries :: "('c, 'm) message_manager \<Rightarrow> u16 \<Rightarrow> ('c channel_kind \<times> u16 list) list" where
  "entries mm p = (case mm_packet_to_message_map mm p of None \<Rightarrow> [] | Some list \<Rightarrow> list)"

lemma entries_record:
  "entries (record_messages p kind is (put_sender kind s mm)) q =
     (if q = p then entries mm p @ (case is of None \<Rightarrow> [] | Some is \<Rightarrow> [(kind, is)]) else entries mm q)"
  by (auto simp: entries_def record_messages_def put_sender_def Let_def split: option.splits)

lemma senders_record:
  "mm_channel_senders (record_messages p kind is (put_sender kind s mm)) = alist_insert kind s (mm_channel_senders mm)"
  by (simp add: record_messages_def put_sender_def Let_def split: option.split)

lemma has_messages_queue: "sender_has_messages s \<longleftrightarrow> payload_messages (sender_queue s) \<noteq> []"
  by (cases s) (auto simp: rs_has_messages_def)

lemma took_step:
  assumes s: "map_of senders kind = Some s" and t: "took (alist_insert kind (set_queue (payload_drop n (sender_queue s)) s) senders) sent senders'"
    and k: "kind \<notin> fst ` set sent"
  shows "took senders ((kind, payload_take n (sender_queue s)) # sent) senders'"
proof -
  have "map_of sent kind = None" using k by (simp add: map_of_eq_None_iff)
  with s t show ?thesis by (auto simp: took_def map_of_alist_insert split: if_splits)
qed

text \<open>
  The channels with messages are taken in order until the head of one does not fit; unless something has been written
  before, the first has a message in the packet.
\<close>

definition packed ::
    "'c channel_kinds \<Rightarrow> 'c channel_kind list \<Rightarrow> ('c channel_kind \<times> 'm channel_sender) list \<Rightarrow> bool \<Rightarrow>
     ('c channel_kind \<times> 'm message payload) list \<Rightarrow> nat \<Rightarrow> bool" where
  "packed ck kinds senders hw sent free \<longleftrightarrow>
     (\<exists>more. filter (\<lambda>kind. \<exists>s. map_of senders kind = Some s \<and> sender_has_messages s) kinds = map fst sent @ more \<and>
       (more = [] \<or> free < 2 + length (kind_enc ck (hd more)))) \<and>
     (hw \<or> sent = [] \<or> payload_messages (snd (hd sent)) \<noteq> [])"

text \<open>The first message of the first channel of the packet has to fit, unless something has been written already.\<close>

definition room ::
    "'c channel_kinds \<Rightarrow> ('m message \<Rightarrow> bool list) \<Rightarrow> 'c channel_kind list \<Rightarrow> ('c channel_kind \<times> 'm channel_sender) list \<Rightarrow> bit_writer \<Rightarrow> bool" where
  "room ck enc kinds senders w \<longleftrightarrow> (\<forall>kind\<in>set kinds. \<forall>s. map_of senders kind = Some s \<and> sender_has_messages s \<longrightarrow>
     bw_current_bits w + 2 + length (kind_enc ck kind) + length (payload_enc enc (payload_take 1 (sender_queue s))) \<le> bw_max_bits w)"

lemma length_kind_enc: "kinds_ok ck \<Longrightarrow> length (kind_enc ck kind) \<le> 16"
proof (cases "map_of (kind_map ck) kind")
  case (Some e)
  assume ok: "kinds_ok ck"
  show ?thesis using net_id_bounds(2) [OF ok kinds_okD [OF ok Some]] Some by (cases e) (simp add: kind_enc_def)
qed (simp add: kind_enc_def)

lemma write_channel_ok:
  assumes c: "codec ser de enc valid" and ck: "kinds_ok ck" "registered ck kind" and q: "sendable enc valid (sender_queue s)"
    and w: "bw_ok w" "bw_current_bits w + 2 + length (kind_enc ck kind) \<le> bw_max_bits w"
    and room: "hw \<or> bw_current_bits w + 2 + length (kind_enc ck kind) + length (payload_enc enc (payload_take 1 (sender_queue s))) \<le> bw_max_bits w"
  shows "\<exists>n w1 w2 w3 w4 w5 hw'. bw_reserve_bits 1 w = Inr w1 \<and> on_writer (channel_head ck kind) w1 = Inr w2 \<and>
    sender_write_messages ser s w2 hw = Inr (payload_indices (payload_take n (sender_queue s)), set_queue (payload_drop n (sender_queue s)) s, w3, hw') \<and>
    bw_release_bits 1 w3 = Inr w4 \<and> on_writer (bool_ser False) w4 = Inr w5 \<and> bw_ok w5 \<and> bw_max_bits w5 = bw_max_bits w \<and>
    bw_current_bits w5 \<le> bw_max_bits w \<and>
    bw_bits w5 = bw_bits w @ True # kind_enc ck kind @ payload_enc enc (payload_take n (sender_queue s)) @ [False] \<and>
    (hw' \<longleftrightarrow> hw \<or> payload_messages (sender_queue s) \<noteq> []) \<and>
    (hw \<or> payload_messages (sender_queue s) = [] \<or> payload_messages (payload_take n (sender_queue s)) \<noteq> [])"
proof -
  let ?max = "bw_max_bits w" and ?q = "sender_queue s"
  have m: "?max \<le> MTU_SIZE_BITS" using w(1) by (simp add: bw_ok_def)
  let ?w1 = "w \<lparr> bw_max_bits := ?max - 1 \<rparr>"
  have r: "bw_reserve_bits 1 w = Inr ?w1" using bw_reserve_release(1) [OF w(1), of 1] w(2) by simp
  have w1: "bw_ok ?w1" "bw_bits ?w1 = bw_bits w" using bw_reserve_release(3,4) [OF w(1), of "?max - 1"] m by simp_all
  have "bw_current_bits ?w1 + length (True # kind_enc ck kind) \<le> bw_max_bits ?w1" using w(2) by simp
  from writes_Writer [OF channel_head_writes(1) [OF ck] w1(1) this] obtain w2 where
    w2: "channel_head ck kind (Writer ?w1) = Inr (Writer w2)" "bw_ok w2" "bw_bits w2 = bw_bits w @ True # kind_enc ck kind"
      "bw_max_bits w2 = ?max - 1" using w1(2) by auto
  have cur: "bw_current_bits w2 = bw_current_bits w + 1 + length (kind_enc ck kind)"
    using length_bw_bits [OF w2(2)] length_bw_bits [OF w(1)] w2(3) by simp
  have room2: "hw \<or> bw_current_bits w2 + length (payload_enc enc (payload_take 1 ?q)) \<le> bw_max_bits w2"
    using room cur w2(4) by linarith
  have "bw_current_bits w2 \<le> bw_max_bits w2" using w(2) cur w2(4) by linarith
  from sender_write_messages_ok [OF c q w2(2) this room2] obtain n w3 where
    w3: "sender_write_messages ser s w2 hw = Inr (payload_indices (payload_take n ?q), set_queue (payload_drop n ?q) s, w3,
        hw \<or> payload_messages (payload_take n ?q) \<noteq> [])"
      "bw_ok w3" "bw_bits w3 = bw_bits w2 @ payload_enc enc (payload_take n ?q)" "bw_max_bits w3 = ?max - 1" "bw_current_bits w3 \<le> ?max - 1"
      "hw \<or> payload_messages ?q = [] \<or> payload_messages (payload_take n ?q) \<noteq> []"
    using w2(4) by auto
  have one: "?max - 1 + 1 = ?max" using w(2) by simp
  let ?w4 = "w3 \<lparr> bw_max_bits := ?max \<rparr>"
  have r4: "bw_release_bits 1 w3 = Inr ?w4" using bw_reserve_release(2) [OF w3(2), of 1] w3(4) one m by simp
  have w4: "bw_ok ?w4" "bw_bits ?w4 = bw_bits w3" using bw_reserve_release(3,4) [OF w3(2), of ?max] m by simp_all
  have "bw_current_bits ?w4 + length [False] \<le> bw_max_bits ?w4" using w3(5) w(2) by simp
  from writes_Writer [OF bool_serde.ser_writes w4(1) this] obtain w5 where
    w5: "bool_ser False (Writer ?w4) = Inr (Writer w5)" "bw_ok w5" "bw_bits w5 = bw_bits w3 @ [False]" "bw_max_bits w5 = ?max"
    using w4(2) by auto
  have "bw_current_bits w5 = bw_current_bits w3 + 1"
    using length_bw_bits [OF w5(2)] length_bw_bits [OF w3(2)] w5(3) by simp
  then have "bw_current_bits w5 \<le> ?max" using w3(5) w(2) by linarith
  moreover have "payload_messages ?q = [] \<Longrightarrow> payload_messages (payload_take n ?q) = []" by (cases ?q) auto
  then have "(hw \<or> payload_messages (payload_take n ?q) \<noteq> []) = (hw \<or> payload_messages ?q \<noteq> [])" using w3(6) by blast
  moreover have "on_writer (channel_head ck kind) ?w1 = Inr w2" "on_writer (bool_ser False) ?w4 = Inr w5" using w2(1) w5(1) by simp_all
  moreover have "bw_bits w5 = bw_bits w @ True # kind_enc ck kind @ payload_enc enc (payload_take n ?q) @ [False]"
    using w2(3) w3(3) w5(3) by simp
  ultimately show ?thesis using r w3(1,6) r4 w5(2,4) by blast
qed

lemma mm_write_loop_ok:
  assumes c: "codec ser de enc valid" and ck: "kinds_ok ck"
  shows "distinct kinds \<Longrightarrow>
    (\<forall>kind\<in>set kinds. \<exists>s. map_of (mm_channel_senders mm) kind = Some s \<and> registered ck kind \<and> sendable enc valid (sender_queue s)) \<Longrightarrow>
    bw_ok w \<Longrightarrow> bw_current_bits w \<le> bw_max_bits w \<Longrightarrow> hw \<or> room ck enc kinds (mm_channel_senders mm) w \<Longrightarrow>
    \<exists>mm' w' hw' sent. mm_write_loop ck ser p kinds mm w hw = Inr (mm', w', hw') \<and> bw_ok w' \<and> bw_max_bits w' = bw_max_bits w \<and>
      bw_current_bits w' \<le> bw_max_bits w \<and> bw_bits w' = bw_bits w @ channels_enc ck enc sent \<and>
      fst ` set sent \<subseteq> set kinds \<and> distinct (map fst sent) \<and>
      took (mm_channel_senders mm) sent (map_of (mm_channel_senders mm')) \<and>
      entries mm' = (entries mm)(p := entries mm p @ recorded sent) \<and>
      packed ck kinds (mm_channel_senders mm) hw sent (bw_max_bits w - bw_current_bits w') \<and> hw' = (hw \<or> sent \<noteq> [])"
proof (induction kinds arbitrary: mm w hw)
  case Nil
  then show ?case
    by (intro exI [of _ mm] exI [of _ w] exI [of _ hw] exI [of _ "[]"]) (simp add: channels_enc_def took_def recorded_def packed_def)
next
  case (Cons kind kinds)
  obtain s where s: "map_of (mm_channel_senders mm) kind = Some s" "registered ck kind" "sendable enc valid (sender_queue s)"
    using Cons.prems(2) by auto
  have d: "distinct kinds" using Cons.prems(1) by simp
  have all: "\<forall>kind\<in>set kinds. \<exists>s. map_of (mm_channel_senders mm) kind = Some s \<and> registered ck kind \<and> sendable enc valid (sender_queue s)"
    using Cons.prems(2) by simp
  let ?n = "bw_current_bits w + 2 + length (kind_enc ck kind)"
  have "bw_current_bits w \<le> MTU_SIZE_BITS" using Cons.prems(3) by (simp add: bw_ok_def)
  then have "?n < 2 ^ 32" using length_kind_enc [OF ck, of kind] by (simp add: mtu_simps)
  then have cnt: "on_counter (count_head ck kind) (bw_counter w) = Inr ((bw_counter w) \<lparr> bc_current_bits := ?n \<rparr>)"
    using writes_Counter [OF channel_head_writes(2) [OF ck s(2)], of "bw_counter w"] by (simp add: bw_counter_def bc_new_def)
  have o: "bc_overflowed ((bw_counter w) \<lparr> bc_current_bits := ?n \<rparr>) \<longleftrightarrow> bw_max_bits w < ?n"
    by (simp add: bc_overflowed_def bw_counter_def bc_new_def)
  consider "\<not> sender_has_messages s" | "sender_has_messages s" "bw_max_bits w < ?n" | "sender_has_messages s" "?n \<le> bw_max_bits w" by linarith
  then show ?case
  proof cases
    case 1
    have "hw \<or> room ck enc kinds (mm_channel_senders mm) w" using Cons.prems(5) by (auto simp: room_def)
    from Cons.IH [OF d all Cons.prems(3,4) this] obtain mm' w' hw' sent where
      "mm_write_loop ck ser p kinds mm w hw = Inr (mm', w', hw')" "bw_ok w'" "bw_max_bits w' = bw_max_bits w"
      "bw_current_bits w' \<le> bw_max_bits w" "bw_bits w' = bw_bits w @ channels_enc ck enc sent" "fst ` set sent \<subseteq> set kinds"
      "distinct (map fst sent)" "took (mm_channel_senders mm) sent (map_of (mm_channel_senders mm'))"
      "entries mm' = (entries mm)(p := entries mm p @ recorded sent)"
      "packed ck kinds (mm_channel_senders mm) hw sent (bw_max_bits w - bw_current_bits w')" "hw' = (hw \<or> sent \<noteq> [])" by blast
    moreover from this(10) have "packed ck (kind # kinds) (mm_channel_senders mm) hw sent (bw_max_bits w - bw_current_bits w')"
      using s(1) 1 by (simp add: packed_def)
    moreover have "mm_write_loop ck ser p (kind # kinds) mm w hw = mm_write_loop ck ser p kinds mm w hw" using s(1) 1 by simp
    ultimately show ?thesis
      by (intro exI [of _ mm'] exI [of _ w'] exI [of _ hw'] exI [of _ sent]) (simp add: subset_insertI2)
  next
    case 2
    have "mm_write_loop ck ser p (kind # kinds) mm w hw = Inr (mm, w, hw)"
      by (simp only: mm_write_loop.simps s(1) option.case 2(1) not_True_eq_False if_False cnt rbind_simps o 2(2) if_True)
    moreover have "packed ck (kind # kinds) (mm_channel_senders mm) hw [] (bw_max_bits w - bw_current_bits w)"
      using s(1) 2 Cons.prems(4) by (simp add: packed_def)
    ultimately show ?thesis using Cons.prems(3,4)
      by (intro exI [of _ mm] exI [of _ w] exI [of _ hw] exI [of _ "[]"]) (simp add: channels_enc_def took_def recorded_def)
  next
    case 3
    have "hw \<or> ?n + length (payload_enc enc (payload_take 1 (sender_queue s))) \<le> bw_max_bits w"
      using Cons.prems(5) s(1) 3(1) by (auto simp: room_def)
    from write_channel_ok [OF c ck s(2,3) Cons.prems(3) 3(2) this] obtain n w1 w2 w3 w4 w5 hw1 where
      st: "bw_reserve_bits 1 w = Inr w1" "on_writer (channel_head ck kind) w1 = Inr w2"
        "sender_write_messages ser s w2 hw = Inr (payload_indices (payload_take n (sender_queue s)), set_queue (payload_drop n (sender_queue s)) s, w3, hw1)"
        "bw_release_bits 1 w3 = Inr w4" "on_writer (bool_ser False) w4 = Inr w5"
      and w5: "bw_ok w5" "bw_max_bits w5 = bw_max_bits w" "bw_current_bits w5 \<le> bw_max_bits w"
        "bw_bits w5 = bw_bits w @ True # kind_enc ck kind @ payload_enc enc (payload_take n (sender_queue s)) @ [False]"
        "hw1 \<longleftrightarrow> hw \<or> payload_messages (sender_queue s) \<noteq> []"
        "hw \<or> payload_messages (sender_queue s) = [] \<or> payload_messages (payload_take n (sender_queue s)) \<noteq> []" by blast
    let ?s = "set_queue (payload_drop n (sender_queue s)) s" and ?p = "payload_take n (sender_queue s)"
    let ?mm = "record_messages p kind (payload_indices ?p) (put_sender kind ?s mm)"
    have step: "mm_write_loop ck ser p (kind # kinds) mm w hw = mm_write_loop ck ser p kinds ?mm w5 hw1"
      unfolding mm_write_loop.simps s(1) option.case cnt rbind_simps o st prod.case using 3 by simp
    have hw1: "hw1 \<or> room ck enc kinds (mm_channel_senders ?mm) w5" using w5(5) 3(1) by (simp add: has_messages_queue)
    have "kind \<notin> set kinds" using Cons.prems(1) by simp
    then have "\<forall>kind'\<in>set kinds. \<exists>s. map_of (mm_channel_senders ?mm) kind' = Some s \<and> registered ck kind' \<and> sendable enc valid (sender_queue s)"
      using all by (auto simp: senders_record map_of_alist_insert)
    moreover have "bw_current_bits w5 \<le> bw_max_bits w5" using w5(2,3) by simp
    ultimately obtain mm' w' hw' sent where
      ih: "mm_write_loop ck ser p kinds ?mm w5 hw1 = Inr (mm', w', hw')" "bw_ok w'" "bw_max_bits w' = bw_max_bits w"
      "bw_current_bits w' \<le> bw_max_bits w" "bw_bits w' = bw_bits w5 @ channels_enc ck enc sent" "fst ` set sent \<subseteq> set kinds"
      "distinct (map fst sent)" "took (mm_channel_senders ?mm) sent (map_of (mm_channel_senders mm'))"
      "entries mm' = (entries ?mm)(p := entries ?mm p @ recorded sent)"
      "packed ck kinds (mm_channel_senders ?mm) hw1 sent (bw_max_bits w - bw_current_bits w')" "hw' = (hw1 \<or> sent \<noteq> [])"
      using Cons.IH [OF d _ w5(1) _ hw1, unfolded w5(2)] unfolding w5(2) by blast
    have k: "kind \<notin> fst ` set sent" using ih(6) Cons.prems(1) by auto
    have "took (mm_channel_senders mm) ((kind, ?p) # sent) (map_of (mm_channel_senders mm'))"
      using took_step [OF s(1) _ k] ih(8) by (simp add: senders_record)
    moreover have "bw_bits w' = bw_bits w @ channels_enc ck enc ((kind, ?p) # sent)" using ih(5) w5(4) by (simp add: channels_enc_def)
    moreover have "entries mm' = (entries mm)(p := entries mm p @ recorded ((kind, ?p) # sent))"
      using ih(9) by (auto simp: fun_eq_iff entries_record recorded_def split: option.split)
    moreover have "filter (\<lambda>kind. \<exists>s. map_of (mm_channel_senders ?mm) kind = Some s \<and> sender_has_messages s) kinds =
        filter (\<lambda>kind. \<exists>s. map_of (mm_channel_senders mm) kind = Some s \<and> sender_has_messages s) kinds"
      using Cons.prems(1) by (intro filter_cong) (auto simp: senders_record map_of_alist_insert)
    then have "packed ck (kind # kinds) (mm_channel_senders mm) hw ((kind, ?p) # sent) (bw_max_bits w - bw_current_bits w')"
      using ih(10) s(1) 3(1) w5(6) by (simp add: packed_def has_messages_queue)
    moreover have "hw' = (hw \<or> (kind, ?p) # sent \<noteq> [])" using ih(11) w5(5) 3(1) by (simp add: has_messages_queue)
    ultimately show ?thesis using step ih(1-4,6,7) k
      by (intro exI [of _ mm'] exI [of _ w'] exI [of _ hw'] exI [of _ "(kind, ?p) # sent"]) (simp add: subset_insertI2)
  qed
qed

section \<open>Reading a packet\<close>

text \<open>What a receiver does with the messages of a packet, once they are read.\<close>

fun payload_deliver ::
    "('k, 'm) message_kinds \<Rightarrow> ('e, 'm) world_view \<Rightarrow> instant \<Rightarrow> 'm message payload \<Rightarrow> 'm channel_receiver \<times> 'e waitlist \<Rightarrow>
     ('m channel_receiver \<times> 'e waitlist) res" where
  "payload_deliver ks wv now (Plain ms) (UnorderedUnreliableReceiver s, wl) =
     rbind (rfold (uur_recv_message wv now) ms (s, wl)) (\<lambda>(s, wl). Inr (UnorderedUnreliableReceiver s, wl))"
| "payload_deliver ks wv now (Indexed ms) (SequencedUnreliableReceiver s, wl) =
     rbind (rfold (sur_buffer_message wv now) ms (s, wl)) (\<lambda>(s, wl). Inr (SequencedUnreliableReceiver s, wl))"
| "payload_deliver ks wv now (Indexed ms) (ReliableMessageReceiver s, wl) =
     rbind (rfold (rmr_buffer_message ks wv now) ms (s, wl)) (\<lambda>(s, wl). Inr (ReliableMessageReceiver s, wl))"
| "payload_deliver ks wv now p rw = Inl SerdeErr"

fun matches :: "'m payload \<Rightarrow> 'n channel_receiver \<Rightarrow> bool" where
  "matches (Plain ms) (UnorderedUnreliableReceiver s) = True"
| "matches (Indexed ms) (SequencedUnreliableReceiver s) = True"
| "matches (Indexed ms) (ReliableMessageReceiver s) = True"
| "matches p r = False"

lemma length_messages_enc: "length ms \<le> length (messages_enc enc l ms)"
proof (induction ms arbitrary: l)
  case (Cons x ms)
  show ?case using Cons [of "Some (fst x)"] by (cases x) simp
qed simp

lemma uur_read_loop_ok:
  assumes c: "codec ser (message_read ks) enc valid"
  shows "list_all valid ms \<Longrightarrow> length ms < n \<Longrightarrow> br_ok r \<Longrightarrow> br_bits r = payload_enc enc (Plain ms) @ False # rest \<Longrightarrow>
    \<exists>r'. uur_read_loop n wv now (message_read ks) sw r = rbind (rfold (uur_recv_message wv now) ms sw) (\<lambda>sw. Inr (sw, r')) \<and>
      br_ok r' \<and> br_bits r' = rest"
proof (induction ms arbitrary: n r sw)
  case Nil
  then obtain k where k: "n = Suc k" by (cases n) auto
  have "br_bits r = [False] @ rest" using Nil.prems(4) by simp
  from readsD [OF bool_serde.de_reads Nil.prems(3) this] k show ?case by auto
next
  case (Cons m ms)
  obtain k where k: "n = Suc k" "length ms < k" using Cons.prems(2) by (cases n) auto
  have "br_bits r = [True] @ enc m @ payload_enc enc (Plain ms) @ False # rest" using Cons.prems(4) by simp
  from readsD [OF bool_serde.de_reads Cons.prems(3) this] obtain r1 where
    r1: "bool_de r = Inr (True, r1)" "br_ok r1" "br_bits r1 = enc m @ payload_enc enc (Plain ms) @ False # rest" by auto
  have "valid m" using Cons.prems(1) by simp
  from readsD [OF codec.de_reads [OF c this] r1(2,3)] obtain r2 where
    r2: "message_read ks r1 = Inr (m, r2)" "br_ok r2" "br_bits r2 = payload_enc enc (Plain ms) @ False # rest" by auto
  have "list_all valid ms" using Cons.prems(1) by simp
  note ih = Cons.IH [OF this k(2) r2(2,3)]
  show ?case
  proof (cases "uur_recv_message wv now m sw")
    case (Inl e)
    from ih [of sw] obtain r' where "br_ok r'" "br_bits r' = rest" by blast
    with k(1) r1(1) r2(1) Inl show ?thesis by auto
  next
    case (Inr sw')
    from ih [of sw'] k(1) r1(1) r2(1) Inr show ?thesis by auto
  qed
qed

lemma receiver_read_ok:
  assumes c: "codec ser (message_read ks) enc valid" and p: "payload_ok valid p" "matches p receiver"
    and r: "br_ok r" "br_bits r = payload_enc enc p @ False # rest"
  shows "\<exists>r'. receiver_read_messages ks wv now (receiver, wl) r = rbind (payload_deliver ks wv now p (receiver, wl)) (\<lambda>x. Inr (x, r')) \<and>
    br_ok r' \<and> br_bits r' = rest"
proof (cases p)
  case (Plain ms)
  then obtain s where s: "receiver = UnorderedUnreliableReceiver s" using p(2) by (cases receiver) auto
  have "length ms \<le> length (payload_enc enc (Plain ms))" by (induction ms) auto
  then have "length ms < length (br_bits r) + 1" using r(2) Plain by simp
  from uur_read_loop_ok [OF c _ this r(1), of rest wv now "(s, wl)"] p(1) r(2) Plain obtain r' where
    r': "uur_read_loop (length (br_bits r) + 1) wv now (message_read ks) (s, wl) r =
      rbind (rfold (uur_recv_message wv now) ms (s, wl)) (\<lambda>sw. Inr (sw, r'))" "br_ok r'" "br_bits r' = rest" by auto
  then show ?thesis using Plain s
    by (intro exI [of _ r'], cases "rfold (uur_recv_message wv now) ms (s, wl)") (auto split: prod.splits)
next
  case (Indexed ms)
  have "length ms \<le> length (messages_enc enc None ms)" by (rule length_messages_enc)
  then have l: "length ms < length (br_bits r) + 1" using r(2) Indexed by simp
  have ms: "chained None ms" "\<forall>(i, m)\<in>set ms. valid m" using p(1) Indexed by (auto simp: list_all_iff)
  have "br_bits r = (messages_enc enc None ms @ [False]) @ rest" using r(2) Indexed by simp
  from readsD [OF codec.read_messages_loop_reads [OF c ms l, of "[]"] r(1) this] obtain r' where
    r': "read_messages (message_read ks) r = Inr (ms, r')" "br_ok r'" "br_bits r' = rest" by (auto simp: read_messages_def)
  show ?thesis
  proof (cases receiver)
    case (SequencedUnreliableReceiver s)
    with r' Indexed show ?thesis
      by (intro exI [of _ r'], cases "rfold (sur_buffer_message wv now) ms (s, wl)") (auto split: prod.splits)
  next
    case (ReliableMessageReceiver s)
    with r' Indexed show ?thesis
      by (intro exI [of _ r'], cases "rfold (rmr_buffer_message ks wv now) ms (s, wl)") (auto split: prod.splits)
  qed (use p(2) Indexed in auto)
qed

definition channel_deliver ::
    "('k, 'm) message_kinds \<Rightarrow> ('e, 'm) world_view \<Rightarrow> instant \<Rightarrow> 'c channel_kind \<times> 'm message payload \<Rightarrow>
     ('c, 'm) message_manager \<times> 'e waitlist \<Rightarrow> (('c, 'm) message_manager \<times> 'e waitlist) res" where
  "channel_deliver ks wv now kp mmw =
     (let (kind, p) = kp; (mm, wl) = mmw in
      case map_of (mm_channel_receivers mm) kind of
        None \<Rightarrow> Inl SerdeErr
      | Some receiver \<Rightarrow> rbind (payload_deliver ks wv now p (receiver, wl)) (\<lambda>(receiver, wl).
          Inr (mm \<lparr> mm_channel_receivers := alist_insert kind receiver (mm_channel_receivers mm) \<rparr>, wl)))"

lemma payload_deliver_matches:
  "payload_deliver ks wv now p (receiver, wl) = Inr (receiver', wl') \<Longrightarrow> matches q receiver' = matches q receiver"
  by (cases p; cases receiver; cases q) (auto simp: rbind_eq_Inr)

lemma mm_read_loop_ok:
  assumes c: "codec ser (message_read ks) enc valid" and ck: "kinds_ok ck"
  shows "(\<forall>(kind, p)\<in>set sent. registered ck kind \<and> payload_ok valid p \<and>
      (\<exists>receiver. map_of (mm_channel_receivers mm) kind = Some receiver \<and> matches p receiver)) \<Longrightarrow>
    length sent < n \<Longrightarrow> br_ok r \<Longrightarrow> br_bits r = channels_enc ck enc sent @ False # rest \<Longrightarrow>
    \<exists>r'. mm_read_loop n ck ks wv now (mm, wl) r = rbind (rfold (channel_deliver ks wv now) sent (mm, wl)) (\<lambda>mmw. Inr (mmw, r')) \<and>
      br_ok r' \<and> br_bits r' = rest"
proof (induction sent arbitrary: n r mm wl)
  case Nil
  then obtain k where k: "n = Suc k" by (cases n) auto
  have "br_bits r = [False] @ rest" using Nil.prems(4) by (simp add: channels_enc_def)
  from readsD [OF bool_serde.de_reads Nil.prems(3) this] k show ?case by auto
next
  case (Cons x sent)
  obtain kind p where x: "x = (kind, p)" by force
  obtain k where k: "n = Suc k" "length sent < k" using Cons.prems(2) by (cases n) auto
  obtain receiver where h: "registered ck kind" "payload_ok valid p" "map_of (mm_channel_receivers mm) kind = Some receiver" "matches p receiver"
    using Cons.prems(1) x by auto
  have "br_bits r = [True] @ kind_enc ck kind @ payload_enc enc p @ False # channels_enc ck enc sent @ False # rest"
    using Cons.prems(4) x by (simp add: channels_enc_def)
  from readsD [OF bool_serde.de_reads Cons.prems(3) this] obtain r1 where r1: "bool_de r = Inr (True, r1)" "br_ok r1"
      "br_bits r1 = kind_enc ck kind @ payload_enc enc p @ False # channels_enc ck enc sent @ False # rest" by auto
  from readsD [OF codec.de_reads [OF kinds_codec [OF ck] h(1)] r1(2,3)] obtain r2 where r2: "kind_de ck r1 = Inr (kind, r2)"
      "br_ok r2" "br_bits r2 = payload_enc enc p @ False # channels_enc ck enc sent @ False # rest" by auto
  from receiver_read_ok [OF c h(2,4) r2(2,3), of wv now wl] obtain r3 where
    r3: "receiver_read_messages ks wv now (receiver, wl) r2 = rbind (payload_deliver ks wv now p (receiver, wl)) (\<lambda>x. Inr (x, r3))"
      "br_ok r3" "br_bits r3 = channels_enc ck enc sent @ False # rest" by auto
  show ?case
  proof (cases "payload_deliver ks wv now p (receiver, wl)")
    case (Inl e)
    from Cons.IH [OF _ k(2) r3(2,3), of mm wl] Cons.prems(1) obtain r' where "br_ok r'" "br_bits r' = rest" by auto
    with Inl k(1) r1(1) r2(1) r3(1) h(3) x show ?thesis by (auto simp: channel_deliver_def)
  next
    case (Inr y)
    obtain receiver' wl' where y: "y = (receiver', wl')" by force
    let ?mm = "mm \<lparr> mm_channel_receivers := alist_insert kind receiver' (mm_channel_receivers mm) \<rparr>"
    have m: "matches q receiver' = matches q receiver" for q :: "'a message payload"
      using payload_deliver_matches [of ks wv now p receiver wl receiver' wl'] Inr y by simp
    have "\<forall>(kind', q)\<in>set sent. registered ck kind' \<and> payload_ok valid q \<and>
      (\<exists>receiver. map_of (mm_channel_receivers ?mm) kind' = Some receiver \<and> matches q receiver)"
      using Cons.prems(1) h(3) m by (fastforce simp: map_of_alist_insert)
    from Cons.IH [OF this k(2) r3(2,3), of wl'] k(1) r1(1) r2(1) r3(1) h(3) x y Inr show ?thesis
      by (auto simp: channel_deliver_def)
  qed
qed

section \<open>Properties\<close>

lemma chained_take: "chained l ms \<Longrightarrow> chained l (take n ms)"
  by (induction l ms arbitrary: n rule: chained.induct) (auto simp: take_Cons split: nat.split)

lemma payload_ok_take: "payload_ok P p \<Longrightarrow> payload_ok P (payload_take n p)"
  by (cases p) (auto simp: chained_take list_all_iff dest: in_set_takeD)

lemma payload_ok_mono: "payload_ok P p \<Longrightarrow> (\<And>m. P m \<Longrightarrow> Q m) \<Longrightarrow> payload_ok Q p"
  by (cases p) (auto simp: list_all_iff)

lemma matches_take: "matches (payload_take n p) r = matches p r"
  by (cases p; cases r) auto

lemma ordered_channels_kinds:
  "mset (map fst (ordered_channels mm)) = mset (map fst (mm_channel_senders mm))"
proof -
  have "mset (map fst (ordered_channels mm)) = image_mset fst (mset (ordered_channels mm))" by simp
  also have "\<dots> = mset (map fst (mm_channel_senders mm))"
    unfolding ordered_channels_def mset_sort by (simp add: mset_map [symmetric] comp_def case_prod_beta del: mset_map)
  finally show ?thesis .
qed

text \<open>
  C4. A packet of messages survives the wire: the manager fills the packet in the order of the gains of the channels, as
  long as the head of another channel fits, with the fronts of the queues of the channels; those leave the queues and are
  recorded under the index of the packet. The manager of the other side, with a receiver of its own for every channel,
  reads exactly these messages back, hands them to the receivers in the same order and stops where the packet goes on.
\<close>

theorem packet_roundtrip:
  assumes "message_types_ok mt enc valid" "message_kinds_ok mt ks" "kinds_ok ck" "distinct (map fst (mm_channel_senders mm))"
    and "\<forall>(kind, s)\<in>set (mm_channel_senders mm). registered ck kind \<and>
      sendable (message_enc mt ks enc) (message_valid mt ks valid) (sender_queue s) \<and>
      (\<exists>receiver. map_of (mm_channel_receivers mm2) kind = Some receiver \<and> matches (sender_queue s) receiver)"
    and "bw_ok w" "bw_current_bits w \<le> bw_max_bits w" "bw_max_bits w < MTU_SIZE_BITS"
    and "hw \<or> room ck (message_enc mt ks enc) (map fst (mm_channel_senders mm)) (mm_channel_senders mm) w"
  shows "\<exists>mm' w' sent. mm_write_messages ck mt ks p mm w hw = Inr (mm', w', hw \<or> sent \<noteq> []) \<and> bw_ok w' \<and>
    packed ck (map fst (ordered_channels mm)) (mm_channel_senders mm) hw sent (bw_max_bits w' - bw_current_bits w') \<and>
    took (mm_channel_senders mm) sent (map_of (mm_channel_senders mm')) \<and>
    entries mm' = (entries mm)(p := entries mm p @ recorded sent) \<and>
    (\<forall>r rest wl. br_ok r \<longrightarrow> br_bits r = drop (length (bw_bits w)) (bw_bits w') @ rest \<longrightarrow>
      (\<exists>r'. mm_read_messages ck ks wv now (mm2, wl) r = rbind (rfold (channel_deliver ks wv now) sent (mm2, wl)) (\<lambda>x. Inr (x, r')) \<and>
        br_ok r' \<and> br_bits r' = rest))"
proof -
  let ?enc = "message_enc mt ks enc" and ?valid = "message_valid mt ks valid" and ?S = "mm_channel_senders mm"
  let ?kinds = "map fst (ordered_channels mm)"
  note c = message_codec [OF assms(1,2)]
  have d: "distinct ?kinds" using assms(4) ordered_channels_kinds [of mm] mset_eq_imp_distinct_iff by blast
  have k: "set ?kinds = set (map fst ?S)" using ordered_channels_kinds [of mm] mset_eq_setD by blast
  have all: "\<forall>kind\<in>set ?kinds. \<exists>s. map_of ?S kind = Some s \<and> registered ck kind \<and> sendable ?enc ?valid (sender_queue s)"
    unfolding k using assms(4,5) by fastforce
  have "hw \<or> room ck ?enc ?kinds ?S w" using assms(9) by (simp add: room_def k [unfolded set_map])
  from mm_write_loop_ok [OF c assms(3) d all assms(6,7) this, of p] obtain mm' w1 hw' sent where
    1: "mm_write_loop ck (message_write mt ks) p ?kinds mm w hw = Inr (mm', w1, hw')" "bw_ok w1" "bw_max_bits w1 = bw_max_bits w"
      "bw_current_bits w1 \<le> bw_max_bits w" "bw_bits w1 = bw_bits w @ channels_enc ck ?enc sent" "fst ` set sent \<subseteq> set ?kinds"
      "distinct (map fst sent)" "took ?S sent (map_of (mm_channel_senders mm'))" "entries mm' = (entries mm)(p := entries mm p @ recorded sent)"
      "packed ck ?kinds ?S hw sent (bw_max_bits w - bw_current_bits w1)" "hw' = (hw \<or> sent \<noteq> [])" by blast
  let ?w2 = "w1 \<lparr> bw_max_bits := bw_max_bits w + 1 \<rparr>"
  have r2: "bw_release_bits 1 w1 = Inr ?w2" using bw_reserve_release(2) [OF 1(2), of 1] 1(3) assms(8) by simp
  have w2: "bw_ok ?w2" "bw_bits ?w2 = bw_bits w1" using bw_reserve_release(3,4) [OF 1(2), of "bw_max_bits w + 1"] assms(8) by simp_all
  have "bw_current_bits ?w2 + length [False] \<le> bw_max_bits ?w2" using 1(4) by simp
  from writes_Writer [OF bool_serde.ser_writes w2(1) this] obtain w' where
    w': "bool_ser False (Writer ?w2) = Inr (Writer w')" "bw_ok w'" "bw_bits w' = bw_bits w @ channels_enc ck ?enc sent @ [False]"
      "bw_max_bits w' = bw_max_bits w + 1" using w2(2) 1(5) by auto
  have "bw_current_bits w' = bw_current_bits w1 + 1" using length_bw_bits [OF w'(2)] length_bw_bits [OF 1(2)] w'(3) 1(5) by simp
  then have free: "bw_max_bits w' - bw_current_bits w' = bw_max_bits w - bw_current_bits w1" using w'(4) by simp
  have wrote: "mm_write_messages ck mt ks p mm w hw = Inr (mm', w', hw \<or> sent \<noteq> [])"
    using 1(1,11) r2 w'(1) by (simp add: mm_write_messages_def)
  have sent: "registered ck kind \<and> payload_ok ?valid q \<and> (\<exists>receiver. map_of (mm_channel_receivers mm2) kind = Some receiver \<and> matches q receiver)"
    if kq: "(kind, q) \<in> set sent" for kind q
  proof -
    have "kind \<in> set ?kinds" using 1(6) kq by force
    then obtain s where s: "map_of ?S kind = Some s" using all by blast
    have "map_of sent kind = Some q" using 1(7) kq by simp
    then obtain n where q: "q = payload_take n (sender_queue s)" using tookD(2) [OF 1(8) s] by blast
    from assms(5) map_of_SomeD [OF s] obtain receiver where h: "registered ck kind" "sendable ?enc ?valid (sender_queue s)"
        "map_of (mm_channel_receivers mm2) kind = Some receiver" "matches (sender_queue s) receiver" by auto
    then show ?thesis using q payload_ok_mono [OF payload_ok_take [OF h(2)]] by (auto simp: matches_take)
  qed
  have "length sent \<le> length (channels_enc ck ?enc sent)" by (induction sent) (auto simp: channels_enc_def)
  then have read: "\<exists>r'. mm_read_messages ck ks wv now (mm2, wl) r = rbind (rfold (channel_deliver ks wv now) sent (mm2, wl)) (\<lambda>x. Inr (x, r')) \<and>
        br_ok r' \<and> br_bits r' = rest" if r: "br_ok r" "br_bits r = drop (length (bw_bits w)) (bw_bits w') @ rest" for r rest wl
    unfolding mm_read_messages_def
    by (intro mm_read_loop_ok [OF c assms(3) _ _ r(1)]) (use sent r(2) w'(3) in auto)
  show ?thesis
    by (intro exI [of _ mm'] exI [of _ w'] exI [of _ sent]) (use wrote w'(2) 1(8-10) free read in simp)
qed

definition two_channels :: "unit channel_kinds res" where
  "two_channels = rbind (kinds_add OrderedReliableChannel
      \<lparr> cs_mode = OrderedReliable reliable_settings_default, cs_direction = Bidirectional, cs_criticality = Normal \<rparr> ''Ordered'' kinds_new)
    (kinds_add UnorderedUnreliableChannel
      \<lparr> cs_mode = UnorderedUnreliable, cs_direction = Bidirectional, cs_criticality = Normal \<rparr> ''Plain'')"

definition two_senders :: "(unit channel_kind \<times> u8 list channel_sender) list" where
  "two_senders = [(OrderedReliableChannel, ReliableMessageSender ((rms_new (3 / 2) None) \<lparr> rms_reliable_sender :=
       (rs_new None) \<lparr> rs_outgoing_messages := [(0, Application [1]), (1, Application [2])] \<rparr> \<rparr>)),
     (UnorderedUnreliableChannel, UnorderedUnreliableSender \<lparr> uus_outgoing_messages = [Application [3]] \<rparr>)]"

lemma two_channels_ok:
  "\<exists>ck. two_channels = Inr ck \<and> kinds_ok ck \<and> registered ck OrderedReliableChannel \<and> registered ck UnorderedUnreliableChannel \<and>
    (\<exists>r. map_of (mm_channel_receivers (mm_new Client ck)) OrderedReliableChannel = Some (ReliableMessageReceiver r)) \<and>
    (\<exists>r. map_of (mm_channel_receivers (mm_new Client ck)) UnorderedUnreliableChannel = Some (UnorderedUnreliableReceiver r))"
proof -
  let ?o = "\<lparr> cs_mode = OrderedReliable reliable_settings_default, cs_direction = Bidirectional, cs_criticality = Normal \<rparr>"
  let ?u = "\<lparr> cs_mode = UnorderedUnreliable, cs_direction = Bidirectional, cs_criticality = Normal \<rparr>"
  obtain k1 :: "unit channel_kinds" where k1: "kinds_add OrderedReliableChannel ?o ''Ordered'' kinds_new = Inr k1"
      "current_net_id k1 = 1" "kind_map k1 = [(OrderedReliableChannel, 0, ?o, ''Ordered'')]"
    by (simp add: kinds_add_def kinds_new_def)
  obtain k2 where k2: "kinds_add UnorderedUnreliableChannel ?u ''Plain'' k1 = Inr k2"
      "kind_map k2 = [(OrderedReliableChannel, 0, ?o, ''Ordered''), (UnorderedUnreliableChannel, 1, ?u, ''Plain'')]"
    using k1(2,3) by (simp add: kinds_add_def)
  have "kinds_ok k2" by (rule kinds_add_ok(1) [OF kinds_add_ok(1) [OF kinds_ok_new k1(1)] k2(1)])
  moreover have "channels k2 = [(OrderedReliableChannel, ?o), (UnorderedUnreliableChannel, ?u)]" using k2(2) by (simp add: channels_def)
  ultimately show ?thesis using k1(1) k2
    by (simp add: two_channels_def registered_def mm_new_def can_receive_def cs_can_send_to_client_def)
qed

theorem packet_roundtrip_witness:
  "\<exists>ks ck mm' w' sent bytes r'.
     rbind (default_message_kinds byte_messages) (add_message byte_messages (Application_Kind ()) ''Text'') = Inr ks \<and> two_channels = Inr ck \<and>
     mm_write_messages ck byte_messages ks 7 ((mm_new Server ck) \<lparr> mm_channel_senders := two_senders \<rparr>)
       (bw_new \<lparr> bw_max_bits := MTU_SIZE_BITS - 1 \<rparr>) False = Inr (mm', w', sent \<noteq> []) \<and> bw_to_bytes w' = Inr bytes \<and>
     mm_read_messages ck ks \<lparr> wv_order = sorted_list_of_set, wv_in_scope = \<lambda>e :: nat. False, wv_relations_waiting = \<lambda>_. None, wv_relations_complete = Inr \<rparr>
       0 (mm_new Client ck, wl_new) (br_new bytes) =
     rbind (rfold (channel_deliver ks \<lparr> wv_order = sorted_list_of_set, wv_in_scope = \<lambda>e :: nat. False, wv_relations_waiting = \<lambda>_. None, wv_relations_complete = Inr \<rparr>
       0) sent (mm_new Client ck, wl_new)) (\<lambda>x. Inr (x, r'))"
proof -
  let ?wv = "\<lparr> wv_order = sorted_list_of_set, wv_in_scope = \<lambda>e :: nat. False, wv_relations_waiting = \<lambda>_. None, wv_relations_complete = Inr \<rparr>"
  obtain ks where ks: "rbind (default_message_kinds byte_messages) (add_message byte_messages (Application_Kind ()) ''Text'') = Inr ks"
      "message_kinds_ok byte_messages ks"
    and v: "\<And>bs. length bs < 2 ^ 63 \<Longrightarrow> message_valid byte_messages ks (\<lambda>bs. length bs < 2 ^ 63) (Application bs)"
    and l: "\<And>bs. length bs < 2 ^ 63 \<Longrightarrow> length (message_enc byte_messages ks bytes_enc (Application bs)) \<le> 8 * length bs + 336"
    using byte_messages_registered by blast
  obtain ck where ck: "two_channels = Inr ck" "kinds_ok ck" "registered ck OrderedReliableChannel" "registered ck UnorderedUnreliableChannel"
    and r: "\<exists>r. map_of (mm_channel_receivers (mm_new Client ck)) OrderedReliableChannel = Some (ReliableMessageReceiver r :: u8 list channel_receiver)"
      "\<exists>r. map_of (mm_channel_receivers (mm_new Client ck)) UnorderedUnreliableChannel = Some (UnorderedUnreliableReceiver r :: u8 list channel_receiver)"
    using two_channels_ok by blast
  let ?mm = "(mm_new Server ck) \<lparr> mm_channel_senders := two_senders \<rparr>" and ?w = "bw_new \<lparr> bw_max_bits := MTU_SIZE_BITS - 1 \<rparr>"
  let ?enc = "message_enc byte_messages ks bytes_enc" and ?valid = "message_valid byte_messages ks (\<lambda>bs. length bs < 2 ^ 63)"
  have l1: "length (?enc (Application [b])) \<le> 344" for b using l [of "[b]"] by simp
  have ok: "?valid (Application [b]) \<and> length (?enc (Application [b])) < 2 ^ 31" for b using v [of "[b]"] l1 [of b] by simp
  have h: "\<forall>(kind, s)\<in>set (mm_channel_senders ?mm). registered ck kind \<and> sendable ?enc ?valid (sender_queue s) \<and>
      (\<exists>receiver. map_of (mm_channel_receivers (mm_new Client ck)) kind = Some receiver \<and> matches (sender_queue s) (receiver :: u8 list channel_receiver))"
    using ck(3,4) r ok by (auto simp: two_senders_def)
  have w: "bw_ok ?w" "bw_bits ?w = []" "bw_current_bits ?w = 0" "bw_max_bits ?w = 3439"
    by (simp_all add: bw_ok_def bw_core_def bw_new_def mtu_simps clear_above_def bw_bits_def wbits_def bytes_bits_def)
  have "room ck ?enc (map fst (mm_channel_senders ?mm)) (mm_channel_senders ?mm) ?w"
    using l1 [of 1] l1 [of 3] length_kind_enc [OF ck(2), of OrderedReliableChannel] length_kind_enc [OF ck(2), of UnorderedUnreliableChannel]
    by (simp add: room_def two_senders_def index_enc_def mtu_simps bw_new_def)
  with packet_roundtrip [OF byte_messages_ok ks(2) ck(2) _ h w(1), of False 7 ?wv 0] obtain mm' w' sent where
    m: "mm_write_messages ck byte_messages ks 7 ?mm ?w False = Inr (mm', w', sent \<noteq> [])" "bw_ok w'"
      "\<forall>r rest wl. br_ok r \<longrightarrow> br_bits r = drop (length (bw_bits ?w)) (bw_bits w') @ rest \<longrightarrow>
      (\<exists>r'. mm_read_messages ck ks ?wv 0 (mm_new Client ck, wl) r = rbind (rfold (channel_deliver ks ?wv 0) sent (mm_new Client ck, wl)) (\<lambda>x. Inr (x, r')) \<and>
        br_ok r' \<and> br_bits r' = rest)"
    using w by (auto simp: two_senders_def mtu_simps)
  obtain bytes where b: "bw_to_bytes w' = Inr bytes"
      "bytes_bits bytes = bw_bits w' @ replicate (8 * length bytes - bw_current_bits w') False"
    using bw_to_bytes_ok [OF m(2)] by blast
  have "br_bits (br_new bytes) = drop (length (bw_bits ?w)) (bw_bits w') @ replicate (8 * length bytes - bw_current_bits w') False"
    unfolding w(2) using b(2) by (simp add: br_new_ok)
  with m(3) br_new_ok(1) [of bytes] obtain r' where
    "mm_read_messages ck ks ?wv 0 (mm_new Client ck, wl_new) (br_new bytes) =
       rbind (rfold (channel_deliver ks ?wv 0) sent (mm_new Client ck, wl_new)) (\<lambda>x. Inr (x, r'))" by blast
  with ks(1) ck(1) m(1) b(1) show ?thesis by blast
qed

end
