(* ===== verification/Message_Typing.thy ===== *)
theory Message_Typing
  imports Message_Packets
begin

text \<open>
  The channel tables of the message managers of both ends of a connection: every sender and receiver is of the type that
  the mode of its channel asks for, and no operation changes that.
\<close>

section \<open>Types of senders and receivers\<close>

fun sender_fits :: "channel_mode \<Rightarrow> 'm channel_sender \<Rightarrow> bool" where
  "sender_fits UnorderedUnreliable (UnorderedUnreliableSender _) = True"
| "sender_fits SequencedUnreliable (SequencedUnreliableSender _) = True"
| "sender_fits (UnorderedReliable _) (ReliableMessageSender _) = True"
| "sender_fits (SequencedReliable _) (ReliableMessageSender _) = True"
| "sender_fits (OrderedReliable _) (ReliableMessageSender _) = True"
| "sender_fits _ _ = False"

fun arranger_fits :: "channel_mode \<Rightarrow> 'm arranger \<Rightarrow> bool" where
  "arranger_fits (UnorderedReliable _) UnorderedArranger = True"
| "arranger_fits (SequencedReliable _) (SequencedArranger _) = True"
| "arranger_fits (OrderedReliable _) (OrderedArranger _) = True"
| "arranger_fits _ _ = False"

fun receiver_fits :: "channel_mode \<Rightarrow> 'm channel_receiver \<Rightarrow> bool" where
  "receiver_fits mode (UnorderedUnreliableReceiver _) = (mode = UnorderedUnreliable)"
| "receiver_fits mode (SequencedUnreliableReceiver _) = (mode = SequencedUnreliable)"
| "receiver_fits mode (ReliableMessageReceiver r) = arranger_fits mode (rmr_arranger r)"

lemma fits_match: "sender_fits mode s \<Longrightarrow> receiver_fits mode r \<Longrightarrow> matches (sender_queue s) r"
  by (cases mode; cases s; cases r) auto

lemma new_fits:
  "new_sender mode = Some s \<Longrightarrow> sender_fits mode s"
  "new_receiver mode = Some r \<Longrightarrow> receiver_fits mode r"
  by (cases mode; auto simp: with_arranger_and_cap_def)+

lemma sender_fits_ops:
  "sender_fits mode s \<Longrightarrow> sender_fits mode (snd (sender_send_message m s))"
  "sender_fits mode s \<Longrightarrow> sender_fits mode (sender_collect_messages now resend s)"
  "sender_fits mode s \<Longrightarrow> sender_fits mode (sender_notify_message_delivered i s)"
  "sender_fits mode s \<Longrightarrow> sender_write_messages ser s w hw = Inr (is, s', w', hw') \<Longrightarrow> sender_fits mode s'"
  "sender_fits mode s \<Longrightarrow> sender_send_outgoing_request mt ks now g m s = Inr s' \<Longrightarrow> sender_fits mode s'"
  "sender_fits mode s \<Longrightarrow> sender_send_outgoing_response mt ks l m s = Inr s' \<Longrightarrow> sender_fits mode s'"
  "sender_fits mode s \<Longrightarrow> sender_process_incoming_response now lr s = Inr (g', s') \<Longrightarrow> sender_fits mode s'"
  by (cases mode; cases s; auto simp: Let_def rbind_eq_Inr split: prod.splits)+

lemma arranger_fits_process:
  "arranger_fits mode a \<Longrightarrow> arranger_process i j m a = Inr (out, a') \<Longrightarrow> arranger_fits mode a'"
  by (cases mode; cases a; auto simp: rbind_eq_Inr)

lemma rmr_receive_message_arranger: "rmr_receive_message ks m s = Inr s' \<Longrightarrow> rmr_arranger s' = rmr_arranger s"
  by (auto simp: rmr_receive_message_def split: message.splits sum.splits error.splits local_request_or_response_id.splits)

abbreviation rmr_fits :: "channel_mode \<Rightarrow> 'm reliable_message_receiver \<Rightarrow> bool" where
  "rmr_fits mode s \<equiv> arranger_fits mode (rmr_arranger s)"

lemma rmr_arrange_fits:
  assumes "rmr_fits mode s" "rmr_arrange ks item s = Inr s'"
  shows "rmr_fits mode s'"
proof -
  obtain i j m where item: "item = (i, j, m)" by (cases item)
  obtain out a where a: "arranger_process i j m (rmr_arranger s) = Inr (out, a)"
      "rfold (rmr_receive_message ks) out (s \<lparr> rmr_arranger := a \<rparr>) = Inr s'"
    using assms(2) by (auto simp: rmr_arrange_def item rbind_eq_Inr)
  have "rmr_arranger s' = a"
    by (rule rfold_inv [where P = "\<lambda>s. rmr_arranger s = a", OF _ _ a(2)]) (use rmr_receive_message_arranger in auto)
  with arranger_fits_process [OF assms(1) a(1)] show ?thesis by simp
qed

lemma rmr_push_message_fits:
  assumes "rmr_fits mode (fst sw)" "rmr_push_message ks wv now x sw = Inr sw'"
  shows "rmr_fits mode (fst sw')"
proof -
  obtain i m where x: "x = (i, m)" by force
  obtain s wl where sw: "sw = (s, wl)" by force
  let ?r = "if is_fragment m then fr_receive ks i m (rmr_fragment_receiver s) else Inr (Some (i, i, m), rmr_fragment_receiver s)"
  obtain c fr where r: "?r = Inr (c, fr)" using assms(2) by (cases ?r) (auto simp: rmr_push_message_def x sw)
  note p = assms(2) [unfolded x sw rmr_push_message_def Let_def prod.case r rbind_simps]
  show ?thesis
  proof (cases c)
    case None
    with p assms(1) sw show ?thesis by auto
  next
    case (Some y)
    obtain a b full where y: "y = (a, b, full)" by (cases y)
    show ?thesis
    proof (cases "relations_waiting wv full")
      case None
      with p Some y obtain s' where "rmr_arrange ks (a, b, full) (s \<lparr> rmr_fragment_receiver := fr \<rparr>) = Inr s'" "sw' = (s', wl)"
        by (auto simp: rbind_eq_Inr)
      moreover have "rmr_fits mode (s \<lparr> rmr_fragment_receiver := fr \<rparr>)" using assms(1) sw by simp
      ultimately show ?thesis using rmr_arrange_fits by fastforce
    next
      case (Some es)
      with p \<open>c = Some y\<close> y assms(1) sw show ?thesis by (auto simp: rbind_eq_Inr)
    qed
  qed
qed

lemma rmr_buffer_message_fits:
  assumes "rmr_fits mode (fst sw)" "rmr_buffer_message ks wv now x sw = Inr sw'"
  shows "rmr_fits mode (fst sw')"
proof -
  obtain i m where x: "x = (i, m)" by force
  obtain s wl where sw: "sw = (s, wl)" by force
  obtain ms rr where rr: "rr_receive_messages (rr_buffer_message i m (rmr_reliable_receiver s)) = (ms, rr)" by force
  note 1 = assms(2) [unfolded x sw rmr_buffer_message_def Let_def prod.case rr]
  show ?thesis
    by (rule rfold_inv [where P = "\<lambda>sw. rmr_fits mode (fst sw)", OF _ _ 1]) (use assms(1) sw rmr_push_message_fits in auto)
qed

lemma rmr_receive_messages_fits:
  assumes "rmr_fits mode s" "rmr_receive_messages ks wv now (s, wl) = Inr (out, s', wl')"
  shows "rmr_fits mode s'"
proof -
  let ?f = "\<lambda>(start_message_index, end_message_index, full_message) s.
          rbind (relations_complete wv full_message) (\<lambda>full_message.
            rmr_arrange ks (start_message_index, end_message_index, full_message) s)"
  obtain xs store s1 where 1: "rfold ?f xs (s \<lparr> rmr_waitlist_store := store \<rparr>) = Inr s1" "rmr_arranger s' = rmr_arranger s1"
    using assms(2) unfolding rmr_receive_messages_def Let_def by (auto simp: rbind_eq_Inr)
  have "rmr_fits mode s1"
    by (rule rfold_inv [where P = "rmr_fits mode", OF _ _ 1(1)])
      (use assms(1) in \<open>auto simp: rbind_eq_Inr intro: rmr_arrange_fits split: prod.splits\<close>)
  with 1(2) show ?thesis by simp
qed

lemma receiver_fits_ops:
  "receiver_fits mode r \<Longrightarrow> receiver_read_messages ks wv now (r, wl) b = Inr ((r', wl'), b') \<Longrightarrow> receiver_fits mode r'"
  "receiver_fits mode r \<Longrightarrow> receiver_receive_messages ks wv now (r, wl) = Inr (out, r', wl') \<Longrightarrow> receiver_fits mode r'"
  "receiver_fits mode r \<Longrightarrow> receiver_receive_requests_and_responses r = Inr (out', r') \<Longrightarrow> receiver_fits mode r'"
proof -
  assume f: "receiver_fits mode r"
  show "receiver_fits mode r'" if rd: "receiver_read_messages ks wv now (r, wl) b = Inr ((r', wl'), b')"
  proof (cases r)
    case (ReliableMessageReceiver s)
    then obtain ms s' where s': "rfold (rmr_buffer_message ks wv now) ms (s, wl) = Inr (s', wl')" "r' = ReliableMessageReceiver s'"
      using rd by (auto simp: rbind_eq_Inr)
    have "rmr_fits mode (fst (s', wl'))"
      by (rule rfold_inv [where P = "\<lambda>sw. rmr_fits mode (fst sw)", OF _ _ s'(1)])
        (use f ReliableMessageReceiver rmr_buffer_message_fits in auto)
    with s'(2) show ?thesis by simp
  qed (use f rd in \<open>auto simp: rbind_eq_Inr\<close>)
  show "receiver_fits mode r'" if "receiver_receive_messages ks wv now (r, wl) = Inr (out, r', wl')"
    using f that by (cases r) (auto simp: rbind_eq_Inr intro: rmr_receive_messages_fits)
  show "receiver_fits mode r'" if "receiver_receive_requests_and_responses r = Inr (out', r')"
    using f that by (cases r) auto
qed

section \<open>Typed managers\<close>

definition sends :: "host_type \<Rightarrow> 'c channel_kinds \<Rightarrow> 'c channel_kind \<Rightarrow> channel_mode option" where
  "sends host ck kind = (case map_of (channels ck) kind of
     None \<Rightarrow> None | Some s \<Rightarrow> if can_send host s \<and> \<not> mode_tick_buffered (cs_mode s) then Some (cs_mode s) else None)"

definition receives :: "host_type \<Rightarrow> 'c channel_kinds \<Rightarrow> 'c channel_kind \<Rightarrow> channel_mode option" where
  "receives host ck kind = (case map_of (channels ck) kind of
     None \<Rightarrow> None | Some s \<Rightarrow> if can_receive host s \<and> \<not> mode_tick_buffered (cs_mode s) then Some (cs_mode s) else None)"

lemma receives_invert: "receives (invert host) ck = sends host ck"
  by (cases host) (auto simp: receives_def sends_def can_receive_def can_send_def fun_eq_iff split: option.split)

text \<open>A table with an entry of the right type for exactly the channels of the host.\<close>

definition table_typed :: "('c channel_kind \<Rightarrow> channel_mode option) \<Rightarrow> (channel_mode \<Rightarrow> 'x \<Rightarrow> bool) \<Rightarrow> ('c channel_kind \<times> 'x) list \<Rightarrow> bool" where
  "table_typed modes fits m \<longleftrightarrow> (\<forall>kind. rel_option fits (modes kind) (map_of m kind))"

lemma table_typedD: "table_typed modes fits m \<Longrightarrow> map_of m kind = Some x \<Longrightarrow> \<exists>mode. modes kind = Some mode \<and> fits mode x"
  unfolding table_typed_def by (metis option.rel_distinct(1) option.rel_inject(2) option.exhaust)

lemma table_typed_insert:
  "table_typed modes fits m \<Longrightarrow> modes kind = Some mode \<Longrightarrow> fits mode x \<Longrightarrow> table_typed modes fits (alist_insert kind x m)"
  by (simp add: table_typed_def map_of_alist_insert)

definition mm_typed :: "host_type \<Rightarrow> 'c channel_kinds \<Rightarrow> ('c, 'm) message_manager \<Rightarrow> bool" where
  "mm_typed host ck mm \<longleftrightarrow> table_typed (sends host ck) sender_fits (mm_channel_senders mm) \<and>
     table_typed (receives host ck) receiver_fits (mm_channel_receivers mm)"

lemma insert_channels_map_of:
  assumes "distinct (map fst cs)" "fst ` set cs \<inter> fst ` set m = {}"
  shows "map_of (insert_channels can new cs m) kind =
    (case map_of cs kind of None \<Rightarrow> map_of m kind | Some s \<Rightarrow> if can s then new (cs_mode s) else None)"
  using assms
proof (induction cs arbitrary: m)
  case (Cons c cs)
  obtain k s where c: "c = (k, s)" by force
  have keys: "fst ` set (alist_insert k x m) = insert k (fst ` set m)" for x
    by (simp add: map_of_alist_insert flip: dom_map_of_conv_image_fst)
  let ?m = "if \<not> can s then m else case new (cs_mode s) of None \<Rightarrow> m | Some x \<Rightarrow> alist_insert k x m"
  have "fst ` set cs \<inter> fst ` set ?m = {}" using Cons.prems c keys by (auto split: option.splits)
  from Cons.IH [OF _ this] Cons.prems c have "map_of (insert_channels can new (c # cs) m) kind =
    (case map_of cs kind of None \<Rightarrow> map_of ?m kind | Some s \<Rightarrow> if can s then new (cs_mode s) else None)" by simp
  moreover have "map_of cs k = None" "map_of m k = None" using Cons.prems c by (auto simp: map_of_eq_None_iff)
  ultimately show ?case using c by (auto simp: map_of_alist_insert split: option.splits)
qed simp

lemma insert_channels_typed:
  assumes d: "distinct (map fst cs)" and new: "\<And>mode x. new mode = Some x \<Longrightarrow> fits mode x" "\<And>mode. new mode = None \<longleftrightarrow> mode_tick_buffered mode"
  shows "table_typed (\<lambda>kind. case map_of cs kind of
      None \<Rightarrow> None | Some s \<Rightarrow> if can s \<and> \<not> mode_tick_buffered (cs_mode s) then Some (cs_mode s) else None) fits (insert_channels can new cs [])"
  unfolding table_typed_def
proof
  fix kind
  have m: "map_of (insert_channels can new cs []) kind =
    (case map_of cs kind of None \<Rightarrow> None | Some s \<Rightarrow> if can s then new (cs_mode s) else None)"
    by (subst insert_channels_map_of [OF d]) (simp_all split: option.split)
  show "rel_option fits (case map_of cs kind of
      None \<Rightarrow> None | Some s \<Rightarrow> if can s \<and> \<not> mode_tick_buffered (cs_mode s) then Some (cs_mode s) else None)
    (map_of (insert_channels can new cs []) kind)"
  proof (cases "map_of cs kind")
    case (Some s)
    then show ?thesis using m new by (cases "new (cs_mode s)") (auto simp flip: new(2))
  qed (simp add: m)
qed

lemma mm_new_typed:
  assumes "distinct (map fst (kind_map ck))"
  shows "mm_typed host ck (mm_new host ck)"
proof -
  have d: "distinct (map fst (channels ck))" using assms by (simp add: channels_def comp_def case_prod_beta)
  have t: "new_sender mode = None \<longleftrightarrow> mode_tick_buffered mode" "new_receiver mode = None \<longleftrightarrow> mode_tick_buffered mode" for mode
    by (cases mode; simp)+
  show ?thesis
    unfolding mm_typed_def mm_new_def message_manager.simps sends_def receives_def
    by (intro conjI insert_channels_typed [OF d] t new_fits)
qed

section \<open>Runs of a manager\<close>

text \<open>The managers a host can get to, by any sequence of operations that return.\<close>

inductive mm_reach ::
    "('k, 'm) message_types \<Rightarrow> ('k, 'm) message_kinds \<Rightarrow> 'c channel_kinds \<Rightarrow> host_type \<Rightarrow> ('c, 'm) message_manager \<Rightarrow> 'e waitlist \<Rightarrow> bool"
  for mt ks ck host where
  reach_new: "mm_reach mt ks ck host (mm_new host ck) wl"
| reach_send: "mm_reach mt ks ck host mm wl \<Longrightarrow> mm_send_message mt ks kind m mm = Inr (b, mm') \<Longrightarrow> mm_reach mt ks ck host mm' wl"
| reach_request: "mm_reach mt ks ck host mm wl \<Longrightarrow> mm_send_request mt ks now kind g m mm = Inr mm' \<Longrightarrow> mm_reach mt ks ck host mm' wl"
| reach_response: "mm_reach mt ks ck host mm wl \<Longrightarrow> mm_send_response mt ks kind l m mm = Inr mm' \<Longrightarrow> mm_reach mt ks ck host mm' wl"
| reach_collect: "mm_reach mt ks ck host mm wl \<Longrightarrow> mm_reach mt ks ck host (mm_collect_outgoing_messages now resend mm) wl"
| reach_write: "mm_reach mt ks ck host mm wl \<Longrightarrow> mm_write_messages ck mt ks p mm w hw = Inr (mm', w', hw') \<Longrightarrow> mm_reach mt ks ck host mm' wl"
| reach_read: "mm_reach mt ks ck host mm wl \<Longrightarrow> mm_read_messages ck ks wv now (mm, wl) r = Inr ((mm', wl'), r') \<Longrightarrow> mm_reach mt ks ck host mm' wl'"
| reach_receive: "mm_reach mt ks ck host mm wl \<Longrightarrow> mm_receive_messages ks wv now (mm, wl) = Inr (out, mm', wl') \<Longrightarrow> mm_reach mt ks ck host mm' wl'"
| reach_requests: "mm_reach mt ks ck host mm wl \<Longrightarrow> mm_receive_requests_and_responses now mm = Inr (out, mm') \<Longrightarrow> mm_reach mt ks ck host mm' wl"
| reach_delivered: "mm_reach mt ks ck host mm wl \<Longrightarrow> mm_reach mt ks ck host (mm_notify_packet_delivered p mm) wl"

abbreviation senders_typed where
  "senders_typed host ck senders \<equiv> table_typed (sends host ck) sender_fits senders"

abbreviation receivers_typed where
  "receivers_typed host ck receivers \<equiv> table_typed (receives host ck) receiver_fits receivers"

lemma table_typed_change:
  assumes "table_typed modes fits m" "map_of m kind = Some x" "\<And>mode. fits mode x \<Longrightarrow> fits mode x'"
  shows "table_typed modes fits (alist_insert kind x' m)"
  using table_typedD [OF assms(1,2)] table_typed_insert [OF assms(1)] assms(3) by blast

lemma put_sender_typed:
  assumes "mm_typed host ck mm" "map_of (mm_channel_senders mm) kind = Some s" "\<And>mode. sender_fits mode s \<Longrightarrow> sender_fits mode s'"
  shows "mm_typed host ck (put_sender kind s' mm)" "mm_typed host ck (put_sender kind s' (mm \<lparr> mm_message_fragmenter := mf \<rparr>))"
    "mm_typed host ck (record_messages p kind is (put_sender kind s' mm))"
  using assms(1) table_typed_change [of "sends host ck" sender_fits, OF _ assms(2,3)]
  by (simp_all add: mm_typed_def put_sender_def record_messages_def Let_def split: option.split)

lemma send_fragments_fits: "sender_fits mode s \<Longrightarrow> sender_fits mode (snd (send_fragments ms b s))"
proof (induction ms arbitrary: b s)
  case (Cons m ms)
  then show ?case using sender_fits_ops(1) [OF Cons.prems, of m] by (auto simp: Let_def split: prod.split)
qed simp

lemma mm_send_message_typed:
  assumes "mm_typed host ck mm" "mm_send_message mt ks kind m mm = Inr (b, mm')"
  shows "mm_typed host ck mm'"
proof -
  obtain s where s: "map_of (mm_channel_senders mm) kind = Some s"
    using assms(2) by (cases "map_of (mm_channel_senders mm) kind") (auto simp: mm_send_message_def)
  note t = put_sender_typed(1) [OF assms(1) s sender_fits_ops(1)] put_sender_typed(2) [OF assms(1) s send_fragments_fits]
  from assms(2) s obtain n where n: "message_bit_length mt ks m = Inr n"
    by (cases "message_bit_length mt ks m") (auto simp: mm_send_message_def)
  show ?thesis
  proof (cases "FRAGMENTATION_LIMIT_BITS < n")
    case True
    from assms(2) s n True obtain st where st: "map_of (mm_channel_settings mm) kind = Some st"
      by (cases "map_of (mm_channel_settings mm) kind") (auto simp: mm_send_message_def)
    show ?thesis
    proof (cases "cs_reliable st")
      case rel: True
      with assms(2) s n True st obtain ms mf where "fragment_message mt ks m (mm_message_fragmenter mm) = Inr (ms, mf)"
        by (cases "fragment_message mt ks m (mm_message_fragmenter mm)") (auto simp: mm_send_message_def)
      with assms(2) s n True st rel have "mm' = put_sender kind (snd (send_fragments ms True s)) (mm \<lparr> mm_message_fragmenter := mf \<rparr>)"
        by (cases "send_fragments ms True s") (simp add: mm_send_message_def)
      with t(2) show ?thesis by simp
    qed (use assms s n True st in \<open>simp add: mm_send_message_def\<close>)
  next
    case False
    then have "mm' = put_sender kind (snd (sender_send_message m s)) mm"
      using assms(2) s n by (cases "sender_send_message m s") (simp add: mm_send_message_def)
    with t(1) show ?thesis by simp
  qed
qed

lemma mm_send_request_typed:
  assumes "mm_typed host ck mm" "mm_send_request mt ks now kind g m mm = Inr mm'"
  shows "mm_typed host ck mm'"
proof -
  obtain s s' where s: "map_of (mm_channel_senders mm) kind = Some s" "mm' = put_sender kind s' mm"
      "sender_send_outgoing_request mt ks now g m s = Inr s'"
    using assms(2) by (auto simp: mm_send_request_def rbind_eq_Inr split: option.splits)
  show ?thesis unfolding s(2) by (rule put_sender_typed(1) [OF assms(1) s(1) sender_fits_ops(5) [OF _ s(3)]])
qed

lemma mm_send_response_typed:
  assumes "mm_typed host ck mm" "mm_send_response mt ks kind l m mm = Inr mm'"
  shows "mm_typed host ck mm'"
proof -
  obtain s s' where s: "map_of (mm_channel_senders mm) kind = Some s" "mm' = put_sender kind s' mm"
      "sender_send_outgoing_response mt ks l m s = Inr s'"
    using assms(2) by (auto simp: mm_send_response_def rbind_eq_Inr split: option.splits)
  show ?thesis unfolding s(2) by (rule put_sender_typed(1) [OF assms(1) s(1) sender_fits_ops(6) [OF _ s(3)]])
qed

lemma table_typed_map:
  assumes "table_typed modes fits m" "\<And>mode x. fits mode x \<Longrightarrow> fits mode (f x)"
  shows "table_typed modes fits (map (\<lambda>(kind, x). (kind, f x)) m)"
  using assms by (auto simp: table_typed_def map_of_map option.rel_map intro: option.rel_mono_strong)

lemma mm_collect_typed: "mm_typed host ck mm \<Longrightarrow> mm_typed host ck (mm_collect_outgoing_messages now resend mm)"
  by (auto simp: mm_typed_def mm_collect_outgoing_messages_def intro!: table_typed_map sender_fits_ops(2))

lemma mm_write_loop_typed:
  "mm_typed host ck mm \<Longrightarrow> mm_write_loop ck' ser p kinds mm w hw = Inr (mm', w', hw') \<Longrightarrow> mm_typed host ck mm'"
proof (induction kinds arbitrary: mm w hw)
  case (Cons kind kinds)
  obtain s where s: "map_of (mm_channel_senders mm) kind = Some s"
    using Cons.prems(2) by (cases "map_of (mm_channel_senders mm) kind") auto
  show ?case
  proof (cases "sender_has_messages s")
    case True
    obtain counter where c: "on_counter (count_head ck' kind) (bw_counter w) = Inr counter"
      using Cons.prems(2) s True by (auto simp: rbind_eq_Inr simp del: on_counter.simps)
    show ?thesis
    proof (cases "bc_overflowed counter")
      case False
      with Cons.prems(2) s True c obtain w1 ids s' w2 hw1 w3 where
        "sender_write_messages ser s w1 hw = Inr (ids, s', w2, hw1)"
        "mm_write_loop ck' ser p kinds (record_messages p kind ids (put_sender kind s' mm)) w3 hw1 = Inr (mm', w', hw')"
        by (auto simp: rbind_eq_Inr simp del: on_counter.simps on_writer.simps)
      with Cons.IH put_sender_typed(3) [OF Cons.prems(1) s] sender_fits_ops(4) show ?thesis by blast
    qed (use Cons.prems s True c in \<open>simp del: on_counter.simps\<close>)
  qed (use Cons s in simp)
qed simp

lemma mm_write_messages_typed:
  "mm_typed host ck mm \<Longrightarrow> mm_write_messages ck' mt ks p mm w hw = Inr (mm', w', hw') \<Longrightarrow> mm_typed host ck mm'"
  by (auto simp: mm_write_messages_def rbind_eq_Inr simp del: on_writer.simps intro: mm_write_loop_typed)

lemma put_receiver_typed:
  assumes "mm_typed host ck mm" "map_of (mm_channel_receivers mm) kind = Some r" "\<And>mode. receiver_fits mode r \<Longrightarrow> receiver_fits mode r'"
  shows "mm_typed host ck (mm \<lparr> mm_channel_receivers := alist_insert kind r' (mm_channel_receivers mm) \<rparr>)"
  using assms(1) table_typed_change [of "receives host ck" receiver_fits, OF _ assms(2,3)] by (simp add: mm_typed_def)

lemma mm_read_loop_typed:
  "mm_typed host ck mm \<Longrightarrow> mm_read_loop n ck' ks wv now (mm, wl) b = Inr ((mm', wl'), b') \<Longrightarrow> mm_typed host ck mm'"
proof (induction n arbitrary: mm wl b)
  case (Suc n)
  obtain c b1 where c: "bool_de b = Inr (c, b1)" using Suc.prems(2) by (auto simp: rbind_eq_Inr)
  show ?case
  proof (cases c)
    case True
    with Suc.prems(2) c obtain kind b2 where k: "kind_de ck' b1 = Inr (kind, b2)" by (auto simp: rbind_eq_Inr)
    with Suc.prems(2) c True obtain r where r: "map_of (mm_channel_receivers mm) kind = Some r"
      by (cases "map_of (mm_channel_receivers mm) kind") auto
    with Suc.prems(2) c k True obtain r' wl1 b3 where
      "receiver_read_messages ks wv now (r, wl) b2 = Inr ((r', wl1), b3)"
      "mm_read_loop n ck' ks wv now (mm \<lparr> mm_channel_receivers := alist_insert kind r' (mm_channel_receivers mm) \<rparr>, wl1) b3 = Inr ((mm', wl'), b')"
      by (auto simp: rbind_eq_Inr)
    with Suc.IH put_receiver_typed [OF Suc.prems(1) r] receiver_fits_ops(1) show ?thesis by blast
  qed (use Suc.prems c in simp)
qed simp

text \<open>The loops that give back the whole table, in its order.\<close>

lemma table_typed_pointwise:
  assumes "table_typed modes fits m" "list_all2 (\<lambda>(k, x) (k', x'). k' = k \<and> (\<forall>mode. fits mode x \<longrightarrow> fits mode x')) m m'"
  shows "table_typed modes fits m'"
proof -
  have "rel_option (\<lambda>x x'. \<forall>mode. fits mode x \<longrightarrow> fits mode x') (map_of m kind) (map_of m' kind)" for kind
    using assms(2) by (induction m m' rule: list_all2_induct) auto
  moreover have "rel_option fits (modes kind) (map_of m kind)" for kind using assms(1) by (simp add: table_typed_def)
  ultimately have "rel_option fits (modes kind) (map_of m' kind)" for kind
    by (smt (verit, best) option.rel_cases option.rel_distinct(1,2) option.rel_inject(2) option.rel_sel)
  then show ?thesis by (simp add: table_typed_def)
qed

lemma mm_receive_loop_fits:
  "mm_receive_loop ks wv now rs wl = Inr (out, rs', wl') \<Longrightarrow>
   list_all2 (\<lambda>(k, x) (k', x'). k' = k \<and> (\<forall>mode. receiver_fits mode x \<longrightarrow> receiver_fits mode x')) rs rs'"
proof (induction rs arbitrary: wl out rs')
  case (Cons r rs)
  obtain kind x where r: "r = (kind, x)" by force
  from Cons.prems r obtain ms x' wl1 out' rs1 where
    "receiver_receive_messages ks wv now (x, wl) = Inr (ms, x', wl1)" "mm_receive_loop ks wv now rs wl1 = Inr (out', rs1, wl')" "rs' = (kind, x') # rs1"
    by (auto simp: rbind_eq_Inr)
  with Cons.IH receiver_fits_ops(2) r show ?case by auto
qed simp

lemma process_responses_fits:
  "process_responses now rs s = Inr (out, s') \<Longrightarrow> sender_fits mode s \<Longrightarrow> sender_fits mode s'"
proof (induction rs arbitrary: s out)
  case (Cons r rs)
  obtain l m where r: "r = (l, m)" by force
  from Cons.prems(1) r obtain g s1 out' where
    "sender_process_incoming_response now l s = Inr (Some g, s1)" "process_responses now rs s1 = Inr (out', s')"
    by (auto simp: rbind_eq_Inr split: option.splits)
  with Cons.IH Cons.prems(2) sender_fits_ops(7) show ?case by blast
qed simp

lemma receive_on_channel_fits:
  assumes "receive_on_channel now kind r senders = Inr (out, r', senders')"
  shows "receiver_fits mode r \<Longrightarrow> receiver_fits mode r'" "senders_typed host ck senders \<Longrightarrow> senders_typed host ck senders'"
proof -
  obtain reqs resps where 1: "receiver_receive_requests_and_responses r = Inr ((reqs, resps), r')"
    and 2: "senders' = senders \<or> (\<exists>s s' o'. map_of senders kind = Some s \<and> process_responses now resps s = Inr (o', s') \<and>
      senders' = alist_insert kind s' senders)"
    using assms by (auto simp: receive_on_channel_def rbind_eq_Inr split: if_splits option.splits)
  show "receiver_fits mode r \<Longrightarrow> receiver_fits mode r'" using 1 receiver_fits_ops(3) by blast
  show "senders_typed host ck senders \<Longrightarrow> senders_typed host ck senders'"
    using 2 table_typed_change process_responses_fits by metis
qed

lemma mm_requests_loop_fits:
  "mm_requests_loop now settings rs senders = Inr (out, rs', senders') \<Longrightarrow> senders_typed host ck senders \<Longrightarrow>
   senders_typed host ck senders' \<and>
   list_all2 (\<lambda>(k, x) (k', x'). k' = k \<and> (\<forall>mode. receiver_fits mode x \<longrightarrow> receiver_fits mode x')) rs rs'"
proof (induction rs arbitrary: senders out rs')
  case (Cons r rs)
  obtain kind x where r: "r = (kind, x)" by force
  from Cons.prems(1) r obtain s where s: "map_of settings kind = Some s"
    by (cases "map_of settings kind") auto
  let ?c = "if \<not> cs_can_request_and_respond s then Inr (([], []), x, senders) else receive_on_channel now kind x senders"
  from Cons.prems(1) r s obtain reqs resps x' senders1 where c: "?c = Inr ((reqs, resps), x', senders1)"
    by (cases ?c) (auto split: prod.splits if_splits)
  with Cons.prems(1) r s obtain o2 rs1 where l: "mm_requests_loop now settings rs senders1 = Inr (o2, rs1, senders')" "rs' = (kind, x') # rs1"
    by (auto simp: rbind_eq_Inr split: if_splits)
  have "senders_typed host ck senders1" "\<forall>mode. receiver_fits mode x \<longrightarrow> receiver_fits mode x'"
    using c Cons.prems(2) receive_on_channel_fits [of now kind x senders "(reqs, resps)" x' senders1] by (auto split: if_splits)
  with Cons.IH [OF l(1)] l(2) r show ?case by simp
qed simp

lemma notify_channel_typed: "senders_typed host ck senders \<Longrightarrow> senders_typed host ck (notify_channel entry senders)"
proof -
  assume t: "senders_typed host ck senders"
  obtain kind ids where e: "entry = (kind, ids)" by force
  have f: "sender_fits mode s \<Longrightarrow> sender_fits mode (fold sender_notify_message_delivered ids s)" for mode s
    by (induction ids arbitrary: s) (auto intro: sender_fits_ops(3))
  show ?thesis
  proof (cases "map_of senders kind")
    case (Some s)
    from table_typed_change [OF t Some f] Some show ?thesis by (simp add: notify_channel_def e)
  qed (simp add: t notify_channel_def e)
qed

lemma notify_channels_typed: "senders_typed host ck senders \<Longrightarrow> senders_typed host ck (fold notify_channel es senders)"
  by (induction es arbitrary: senders) (auto intro: notify_channel_typed)

lemma mm_notify_typed: "mm_typed host ck mm \<Longrightarrow> mm_typed host ck (mm_notify_packet_delivered p mm)"
  by (simp add: mm_typed_def mm_notify_packet_delivered_def notify_channels_typed split: option.split)

lemma mm_reach_typed:
  assumes "distinct (map fst (kind_map ck))"
  shows "mm_reach mt ks ck host mm wl \<Longrightarrow> mm_typed host ck mm"
proof (induction rule: mm_reach.induct)
  case (reach_new wl)
  show ?case by (rule mm_new_typed [OF assms])
next
  case (reach_receive mm wl wv now out mm' wl')
  then obtain rs where 1: "mm_receive_loop ks wv now (mm_channel_receivers mm) wl = Inr (out, rs, wl')"
      "mm' = mm \<lparr> mm_channel_receivers := rs \<rparr>"
    by (auto simp: mm_receive_messages_def rbind_eq_Inr)
  with reach_receive.IH table_typed_pointwise [OF _ mm_receive_loop_fits [OF 1(1)]] show ?case by (simp add: mm_typed_def)
next
  case (reach_requests mm wl now out mm')
  then obtain rs ss where 1: "mm_requests_loop now (mm_channel_settings mm) (mm_channel_receivers mm) (mm_channel_senders mm) = Inr (out, rs, ss)"
      "mm' = mm \<lparr> mm_channel_receivers := rs, mm_channel_senders := ss \<rparr>"
    by (auto simp: mm_receive_requests_and_responses_def rbind_eq_Inr)
  have t: "senders_typed host ck (mm_channel_senders mm)" "receivers_typed host ck (mm_channel_receivers mm)"
    using reach_requests.IH by (simp_all add: mm_typed_def)
  note f = mm_requests_loop_fits [OF 1(1) t(1)]
  with 1(2) table_typed_pointwise [OF t(2)] show ?case by (simp add: mm_typed_def)
next
  case reach_send show ?case by (rule mm_send_message_typed [OF reach_send.IH reach_send.hyps(2)])
next
  case reach_request show ?case by (rule mm_send_request_typed [OF reach_request.IH reach_request.hyps(2)])
next
  case reach_response show ?case by (rule mm_send_response_typed [OF reach_response.IH reach_response.hyps(2)])
next
  case reach_write show ?case by (rule mm_write_messages_typed [OF reach_write.IH reach_write.hyps(2)])
next
  case reach_read show ?case by (rule mm_read_loop_typed [OF reach_read.IH reach_read.hyps(2) [unfolded mm_read_messages_def]])
qed (simp_all add: mm_collect_typed mm_notify_typed)

section \<open>Properties\<close>

text \<open>
  C15. Both ends of a connection agree on the types of the channels: whatever a server and a client that share the
  registry of the channels have sent and received, every sender of the one has a receiver for its channel on the other
  that reads what it writes, both of the type that the mode of the channel asks for.
\<close>

theorem channel_ends_match:
  assumes "distinct (map fst (kind_map ck))" "mm_reach mt ks ck host mm wl" "mm_reach mt ks ck (invert host) mm2 wl2"
  shows "list_all (\<lambda>(kind, s).
    case (map_of (mm_channel_senders mm) kind, map_of (channels ck) kind, map_of (mm_channel_receivers mm2) kind) of
      (Some s, Some settings, Some r) \<Rightarrow> sender_fits (cs_mode settings) s \<and> receiver_fits (cs_mode settings) r \<and> matches (sender_queue s) r
    | _ \<Rightarrow> False) (mm_channel_senders mm)"
proof -
  note t = mm_reach_typed [OF assms(1,2)] mm_reach_typed [OF assms(1,3)]
  have "case (map_of (mm_channel_senders mm) kind, map_of (channels ck) kind, map_of (mm_channel_receivers mm2) kind) of
      (Some s, Some settings, Some r) \<Rightarrow> sender_fits (cs_mode settings) s \<and> receiver_fits (cs_mode settings) r \<and> matches (sender_queue s) r
    | _ \<Rightarrow> False"
    if key: "kind \<in> fst ` set (mm_channel_senders mm)" for kind
  proof -
    obtain s where s: "map_of (mm_channel_senders mm) kind = Some s"
      using key unfolding dom_map_of_conv_image_fst [symmetric] by blast
    with t(1) obtain mode where m: "sends host ck kind = Some mode" "sender_fits mode s"
      unfolding mm_typed_def by (blast dest: table_typedD)
    have "rel_option receiver_fits (Some mode) (map_of (mm_channel_receivers mm2) kind)"
      using t(2) m(1) unfolding mm_typed_def table_typed_def receives_invert by metis
    then obtain r where r: "map_of (mm_channel_receivers mm2) kind = Some r" "receiver_fits mode r"
      by (cases "map_of (mm_channel_receivers mm2) kind") auto
    obtain settings where c: "map_of (channels ck) kind = Some settings" "mode = cs_mode settings"
      using m(1) by (auto simp: sends_def split: option.splits if_splits)
    show ?thesis using s m(2) r c fits_match [OF m(2) r(2)] by simp
  qed
  then show ?thesis unfolding list_all_iff case_prod_beta by blast
qed

theorem channel_ends_match_witness:
  "\<exists>ck. two_channels = Inr ck \<and>
    list_all (\<lambda>(kind, s).
      case (map_of (mm_channel_senders (mm_new Server ck)) kind, map_of (channels ck) kind,
          map_of (mm_channel_receivers (mm_notify_packet_delivered 3 (mm_new Client ck))) kind) of
        (Some s, Some settings, Some r) \<Rightarrow> sender_fits (cs_mode settings) (s :: u8 list channel_sender) \<and>
          receiver_fits (cs_mode settings) (r :: u8 list channel_receiver) \<and> matches (sender_queue s) r
      | _ \<Rightarrow> False) (mm_channel_senders (mm_new Server ck :: (unit, u8 list) message_manager)) \<and>
    map fst (mm_channel_senders (mm_new Server ck) :: (_ \<times> u8 list channel_sender) list) = [OrderedReliableChannel, UnorderedUnreliableChannel]"
proof -
  obtain ck where ck: "two_channels = Inr ck" and k: "map fst (kind_map ck) = [OrderedReliableChannel, UnorderedUnreliableChannel]"
    by (simp add: two_channels_def kinds_add_def kinds_new_def)
  have d: "distinct (map fst (kind_map ck))" by (simp add: k)
  note 1 = reach_new [of byte_messages kinds_new ck Server "wl_new :: nat waitlist"]
  have 2: "mm_reach byte_messages kinds_new ck (invert Server) (mm_notify_packet_delivered 3 (mm_new Client ck)) (wl_new :: nat waitlist)"
    using reach_delivered [OF reach_new [of byte_messages kinds_new ck Client "wl_new :: nat waitlist"], of 3] by simp
  have "map fst (mm_channel_senders (mm_new Server ck) :: (_ \<times> u8 list channel_sender) list) = [OrderedReliableChannel, UnorderedUnreliableChannel]"
    using ck by (auto simp: two_channels_def kinds_add_def kinds_new_def mm_new_def channels_def can_send_def cs_can_send_to_client_def)
  with ck channel_ends_match [OF d 1 2] show ?thesis by (intro exI [of _ ck] conjI)
qed

end
