(* ===== verification/Reliable_Delivery.thy ===== *)
theory Reliable_Delivery
  imports Channel_Receivers
begin

text \<open>
  What the components of an ordered reliable channel do together: the duplicate filter, the receiver of the fragments and
  the ordered arranger, as \<^verbatim>\<open>ReliableMessageReceiver\<close> composes them. The messages of a sender are a stream, each message
  taking one message index or, when it is fragmented, one index for each fragment.
\<close>

section \<open>Streams\<close>

record 'm stream =
  st_length :: "nat \<Rightarrow> nat"
  st_message :: "nat \<Rightarrow> 'm message"
  st_fragments :: "nat \<Rightarrow> fragmented_message list option"

abbreviation message_start :: "'m stream \<Rightarrow> nat \<Rightarrow> nat" where
  "message_start S k \<equiv> start (st_length S) k"

definition wire :: "'m stream \<Rightarrow> nat \<times> nat \<Rightarrow> nat" where
  "wire S = (\<lambda>(k, j). message_start S k + j)"

text \<open>The part \<open>j\<close> of message \<open>k\<close> as it is sent.\<close>

definition wire_item :: "'m stream \<Rightarrow> nat \<times> nat \<Rightarrow> u16 \<times> 'm message" where
  "wire_item S kj = (of_nat (wire S kj), case st_fragments S (fst kj) of None \<Rightarrow> st_message S (fst kj) | Some ms \<Rightarrow> Fragment (ms ! snd kj))"

definition parts :: "'m stream \<Rightarrow> nat \<Rightarrow> (nat \<times> nat) set" where
  "parts S N = {(k, j). k < N \<and> j < st_length S k}"

text \<open>
  The first \<open>N\<close> messages are messages of the application that wait for no entity; a fragmented one is cut into its
  fragments, at most 16384, and its message indices do not wrap in the middle.
\<close>

definition stream_ok ::
    "('k, 'm) message_types \<Rightarrow> ('k, 'm) message_kinds \<Rightarrow> ('m \<Rightarrow> bool list) \<Rightarrow> ('m \<Rightarrow> bool) \<Rightarrow> ('e, 'm) world_view \<Rightarrow> nat \<Rightarrow> 'm stream \<Rightarrow> bool" where
  "stream_ok mt ks enc valid wv N S \<longleftrightarrow> (\<forall>k. 0 < st_length S k \<and> st_length S k \<le> 16384) \<and>
     (\<forall>k<N. (\<exists>m. st_message S k = Application m \<and> wv_relations_waiting wv m = None) \<and>
       (case st_fragments S k of
          None \<Rightarrow> st_length S k = 1
        | Some ms \<Rightarrow> st_length S k = length ms \<and> message_valid mt ks valid (st_message S k) \<and>
            message_start S k mod 65536 + length ms < 65536 \<and> (\<exists>i. is_fragments i (message_enc mt ks enc (st_message S k)) ms)))"

definition fragment_id_of :: "'m stream \<Rightarrow> nat \<Rightarrow> fragment_id option" where
  "fragment_id_of S k = map_option (\<lambda>ms. fm_id (ms ! 0)) (st_fragments S k)"

definition complete :: "'m stream \<Rightarrow> (nat \<times> nat) set \<Rightarrow> nat \<Rightarrow> bool" where
  "complete S A k \<longleftrightarrow> (\<forall>j < st_length S k. (k, j) \<in> A)"

definition partial :: "'m stream \<Rightarrow> (nat \<times> nat) set \<Rightarrow> nat \<Rightarrow> bool" where
  "partial S A k \<longleftrightarrow> (\<exists>j < st_length S k. (k, j) \<in> A) \<and> \<not> complete S A k"

text \<open>
  The parts may arrive in any order and any number of times, each less than half the 16-bit range away from the first
  missing index, and no fragment while another message with its fragment id is half received.
\<close>

fun arrive :: "'m stream \<Rightarrow> nat \<Rightarrow> (nat \<times> nat) set \<Rightarrow> (nat \<times> nat) list \<Rightarrow> bool" where
  "arrive S N A [] = True"
| "arrive S N A (kj # kjs) =
     (kj \<in> parts S N \<and>
      (\<forall>n. {..<n} \<subseteq> wire S ` A \<and> n \<notin> wire S ` A \<longrightarrow> wire S kj < n + 32768 \<and> n < wire S kj + 32768) \<and>
      (\<forall>k<N. k \<noteq> fst kj \<and> fragment_id_of S (fst kj) \<noteq> None \<and> fragment_id_of S k = fragment_id_of S (fst kj) \<longrightarrow> \<not> partial S A k) \<and>
      arrive S N (insert kj A) kjs)"

lemma wire_inj:
  assumes L: "\<forall>k. 0 < st_length S k" and "j < st_length S k" "j' < st_length S k'" "wire S (k, j) = wire S (k', j')"
  shows "k = k' \<and> j = j'"
proof -
  have "message_start S k + j < message_start S k'" if "k < k'" "j < st_length S k" for k k' j
    using that start_mono [of "Suc k" k' "st_length S"] by (simp add: start_Suc)
  then show ?thesis using assms(2-4) by (cases k k' rule: linorder_cases) (fastforce simp: wire_def)+
qed

lemma inj_wire: "\<forall>k. 0 < st_length S k \<Longrightarrow> inj_on (wire S) (parts S N)"
  by (auto simp: inj_on_def parts_def dest: wire_inj)

section \<open>The state of the receiver\<close>

text \<open>A half received message is known by its fragment id and holds the fragments that have arrived.\<close>

definition fr_state :: "'m stream \<Rightarrow> nat \<Rightarrow> (nat \<times> nat) set \<Rightarrow> fragment_receiver \<Rightarrow> bool" where
  "fr_state S N A fr \<longleftrightarrow> (\<forall>i. case fr i of
     None \<Rightarrow> \<forall>k<N. fragment_id_of S k = Some i \<longrightarrow> \<not> partial S A k
   | Some e \<Rightarrow> \<exists>k<N. \<exists>ms js. st_fragments S k = Some ms \<and> fm_id (ms ! 0) = i \<and> partial S A k \<and> distinct js \<and>
       set js = {j. (k, j) \<in> A} \<and> e = entry_of (of_nat (message_start S k)) ms js)"

definition delivery_state :: "'m stream \<Rightarrow> nat \<Rightarrow> (nat \<times> nat) set \<Rightarrow> nat \<Rightarrow> 'm reliable_message_receiver \<Rightarrow> bool" where
  "delivery_state S N A m s \<longleftrightarrow> A \<subseteq> parts S N \<and>
     (\<exists>n. rr_state n (wire S ` A) (rmr_reliable_receiver s)) \<and> rr_incoming_messages (rmr_reliable_receiver s) = [] \<and>
     (\<exists>a. rmr_arranger s = OrderedArranger a \<and> oa_state (st_length S) (st_message S) m {k. complete S A k} a) \<and>
     rmr_incoming_messages s = map (st_message S) [0..<m] \<and> fr_state S N A (rmr_fragment_receiver s)"

lemma complete_insert:
  "complete S (insert (k, j) A) k' \<longleftrightarrow> (if k' = k then \<forall>j' < st_length S k. j' = j \<or> (k, j') \<in> A else complete S A k')"
  by (auto simp: complete_def)

lemma partial_insert: "k' \<noteq> k \<Longrightarrow> partial S (insert (k, j) A) k' = partial S A k'"
  by (simp add: partial_def complete_insert)

lemma delivery_new:
  assumes "\<forall>k. 0 < st_length S k"
  shows "delivery_state S N {} 0 (with_arranger_and_cap (OrderedArranger oa_new) cap)"
proof -
  have "\<not> complete S {} k" for k using assms by (auto simp: complete_def)
  then show ?thesis
    using rr_state_new oa_state_new [of "st_length S" "st_message S"]
    by (auto simp: delivery_state_def with_arranger_and_cap_def fr_state_def partial_def rr_new_def)
qed

text \<open>A complete message goes to the arranger and what that passes on to the application.\<close>

lemma receive_applications:
  assumes "\<forall>k\<in>set xs. \<exists>m. f k = Application m"
  shows "rfold (rmr_receive_message ks) (map f xs) s = Inr (s \<lparr> rmr_incoming_messages := rmr_incoming_messages s @ map f xs \<rparr>)"
  using assms by (induction xs arbitrary: s) (auto simp: rmr_receive_message_def)

lemma complete_bound:
  assumes "\<forall>k. 0 < st_length S k" "A \<subseteq> parts S N" "complete S A k"
  shows "k < N"
  using assms by (auto simp: complete_def parts_def)

lemma arrange_complete:
  assumes ok: "stream_ok mt ks enc valid wv N S" and A: "A \<subseteq> parts S N" "k < N"
    and a: "rmr_arranger s = OrderedArranger a" "oa_state (st_length S) (st_message S) m K a"
    and K: "K \<subseteq> {..<N}" "k \<notin> K" "message_start S (Suc k) \<le> message_start S m + 65536"
  shows "\<exists>m' a'. rmr_arrange ks (of_nat (message_start S k), of_nat (message_start S (Suc k) - 1), st_message S k) s =
      Inr (s \<lparr> rmr_arranger := OrderedArranger a', rmr_incoming_messages := rmr_incoming_messages s @ map (st_message S) [m..<m'] \<rparr>) \<and>
    m \<le> m' \<and> oa_state (st_length S) (st_message S) m' (insert k K) a'"
proof -
  have L: "\<forall>k. 0 < st_length S k" using ok by (simp add: stream_ok_def)
  obtain m' a' where m': "oa_state (st_length S) (st_message S) m' (insert k K) a'" "m \<le> m'"
      "oa_process (of_nat (message_start S k)) (of_nat (message_start S (Suc k) - 1)) (st_message S k) a =
        Inr (map (st_message S) [m..<m'], a')"
    using oa_process_state [OF L a(2) K(2,3)] by blast
  have "{..<m'} \<subseteq> insert k K" using m'(1) by (auto simp: oa_state_def)
  then have "\<forall>k\<in>set [m..<m']. k < N" using K(1) A(2) by auto
  then have "\<forall>k\<in>set [m..<m']. \<exists>x. st_message S k = Application x" using ok by (auto simp: stream_ok_def)
  from receive_applications [OF this, of ks "s \<lparr> rmr_arranger := OrderedArranger a' \<rparr>"]
  have "rmr_arrange ks (of_nat (message_start S k), of_nat (message_start S (Suc k) - 1), st_message S k) s =
      Inr (s \<lparr> rmr_arranger := OrderedArranger a', rmr_incoming_messages := rmr_incoming_messages s @ map (st_message S) [m..<m'] \<rparr>)"
    using m'(3) a(1) by (simp add: rmr_arrange_def)
  with m' show ?thesis by blast
qed

text \<open>A fragment of a message of the stream.\<close>

lemma fr_state_entry:
  assumes st: "fr_state S N A fr" and k: "k < N" "st_fragments S k = Some ms" "\<not> complete S A k"
    and A: "\<forall>j. (k, j) \<in> A \<longrightarrow> j < st_length S k"
    and alone: "\<forall>k'<N. k' \<noteq> k \<and> fragment_id_of S k' = fragment_id_of S k \<longrightarrow> \<not> partial S A k'"
  shows "\<exists>js. distinct js \<and> set js = {j. (k, j) \<in> A} \<and> fr = waiting (fm_id (ms ! 0)) (of_nat (message_start S k)) ms js fr"
proof (cases "fr (fm_id (ms ! 0))")
  case None
  then have "\<not> partial S A k" using st k by (auto simp: fr_state_def fragment_id_of_def dest!: spec [of _ "fm_id (ms ! 0)"])
  then have "{j. (k, j) \<in> A} = {}" using k(3) A by (auto simp: partial_def)
  with None show ?thesis by (intro exI [of _ "[]"]) (auto simp: waiting_def fun_upd_idem)
next
  case (Some e)
  from spec [OF st [unfolded fr_state_def], of "fm_id (ms ! 0)"] Some
  obtain k' ms' js where k': "k' < N" "st_fragments S k' = Some ms'" "fm_id (ms' ! 0) = fm_id (ms ! 0)" "partial S A k'"
      "distinct js" "set js = {j. (k', j) \<in> A}" "e = entry_of (of_nat (message_start S k')) ms' js" by auto
  then have "k' = k" using alone k(2) by (auto simp: fragment_id_of_def)
  moreover have "js \<noteq> []" using k'(4,6) by (auto simp: partial_def)
  ultimately show ?thesis using k' k(2) Some by (intro exI [of _ js]) (auto simp: waiting_def fun_upd_idem)
qed

lemma fr_state_insert:
  assumes st: "fr_state S N A fr" and k: "st_fragments S k = Some ms"
    and e: "case x of None \<Rightarrow> \<forall>k'<N. fragment_id_of S k' = Some (fm_id (ms ! 0)) \<longrightarrow> \<not> partial S (insert (k, j) A) k'
     | Some e \<Rightarrow> k < N \<and> partial S (insert (k, j) A) k \<and> (\<exists>js. distinct js \<and> set js = {j'. (k, j') \<in> insert (k, j) A} \<and>
         e = entry_of (of_nat (message_start S k)) ms js)"
  shows "fr_state S N (insert (k, j) A) (fr(fm_id (ms ! 0) := x))"
  unfolding fr_state_def
proof
  fix i
  let ?fr = "fr(fm_id (ms ! 0) := x)" and ?A = "insert (k, j) A"
  show "case ?fr i of None \<Rightarrow> \<forall>k<N. fragment_id_of S k = Some i \<longrightarrow> \<not> partial S ?A k
    | Some e \<Rightarrow> \<exists>k<N. \<exists>ms js. st_fragments S k = Some ms \<and> fm_id (ms ! 0) = i \<and> partial S ?A k \<and> distinct js \<and>
       set js = {j. (k, j) \<in> ?A} \<and> e = entry_of (of_nat (message_start S k)) ms js"
  proof (cases "i = fm_id (ms ! 0)")
    case True
    with e k show ?thesis by (cases x) auto
  next
    case False
    then have ne: "k' \<noteq> k" if "fragment_id_of S k' = Some i" for k' using that k by (auto simp: fragment_id_of_def)
    have ne': "k' \<noteq> k" if "st_fragments S k' = Some ms'" "fm_id (ms' ! 0) = i" for k' ms' using that k False by auto
    show ?thesis
    proof (cases "fr i")
      case None
      with False spec [OF st [unfolded fr_state_def], of i] ne show ?thesis by (auto simp: partial_insert)
    next
      case (Some e)
      with spec [OF st [unfolded fr_state_def], of i] obtain k' ms' js where k': "k' < N" "st_fragments S k' = Some ms'"
          "fm_id (ms' ! 0) = i" "partial S A k'" "distinct js" "set js = {j. (k', j) \<in> A}" "e = entry_of (of_nat (message_start S k')) ms' js"
        by auto
      have "k' \<noteq> k" by (rule ne' [OF k'(2,3)])
      with k' have "partial S ?A k'" "set js = {j. (k', j) \<in> ?A}" by (auto simp: partial_insert)
      with k' have "\<exists>k<N. \<exists>ms js. st_fragments S k = Some ms \<and> fm_id (ms ! 0) = i \<and> partial S ?A k \<and> distinct js \<and>
          set js = {j. (k, j) \<in> ?A} \<and> e = entry_of (of_nat (message_start S k)) ms js" by blast
      with Some False show ?thesis by simp
    qed
  qed
qed

lemma fr_receive_part:
  assumes mt: "message_types_ok mt enc valid" and ks: "message_kinds_ok mt ks" and ok: "stream_ok mt ks enc valid wv N S"
    and st: "fr_state S N A fr" and A: "A \<subseteq> parts S N" and kj: "(k, j) \<in> parts S N" "(k, j) \<notin> A" and ms: "st_fragments S k = Some ms"
    and alone: "\<forall>k'<N. k' \<noteq> k \<and> fragment_id_of S k' = fragment_id_of S k \<longrightarrow> \<not> partial S A k'"
  shows "\<exists>fr'. fr_receive ks (of_nat (wire S (k, j))) (Fragment (ms ! j)) fr =
      Inr (if complete S (insert (k, j) A) k
           then Some (of_nat (message_start S k), of_nat (message_start S (Suc k) - 1), st_message S k) else None, fr') \<and>
    fr_state S N (insert (k, j) A) fr'"
proof -
  let ?s = "of_nat (message_start S k) :: u16" and ?i = "fm_id (ms ! 0)" and ?A = "insert (k, j) A"
  have k: "k < N" "j < length ms" and len: "st_length S k = length ms" and v: "message_valid mt ks valid (st_message S k)"
    and wrap: "message_start S k mod 65536 + length ms < 65536"
    using ok kj(1) ms by (auto simp: stream_ok_def parts_def split: option.splits)
  from ok k ms obtain i where "is_fragments i (message_enc mt ks enc (st_message S k)) ms" by (fastforce simp: stream_ok_def)
  moreover from this have "?i = i" using is_fragmentsD(1) [of i _ ms 0] k(2) by (cases ms) auto
  ultimately have fs: "is_fragments ?i (message_enc mt ks enc (st_message S k)) ms" by simp
  have inc: "\<not> complete S A k" using kj len k by (auto simp: complete_def)
  have Ak: "\<forall>j. (k, j) \<in> A \<longrightarrow> j < st_length S k" using A by (auto simp: parts_def)
  obtain js where js: "distinct js" "set js = {j. (k, j) \<in> A}" "fr = waiting ?i ?s ms js fr"
    using fr_state_entry [OF st k(1) ms inc Ak alone] by blast
  have jn: "j \<notin> set js" using js(2) kj(2) by simp
  have sj: "set (js @ [j]) = {j'. (k, j') \<in> ?A}" "distinct (js @ [j])" using js jn by auto
  then have sub: "set (js @ [j]) \<subseteq> {..<length ms}" using Ak k len by auto
  have cl: "length js + 1 = length ms \<longleftrightarrow> complete S ?A k"
  proof
    assume "length js + 1 = length ms"
    then have "card (set (js @ [j])) = card {..<length ms}" using distinct_card [OF sj(2)] by simp
    from card_subset_eq [OF _ sub this] have "set (js @ [j]) = {..<length ms}" by simp
    then show "complete S ?A k" using sj(1) len by (auto simp: complete_def)
  next
    assume "complete S ?A k"
    then have "set (js @ [j]) = {..<length ms}" using sub sj(1) len by (auto simp: complete_def)
    with distinct_card [OF sj(2)] show "length js + 1 = length ms" by simp
  qed
  have w: "of_nat (wire S (k, j)) = ?s + of_nat j" by (simp add: wire_def)
  note step = fr_receive_step [OF fs k(2) jn, of ks ?s fr, folded js(3), folded w]
  show ?thesis
  proof (cases "complete S ?A k")
    case True
    then have all: "set (js @ [j]) = {..<length ms}" using sub sj(1) len by (auto simp: complete_def)
    have u: "unat ?s + length ms < 2 ^ 16" using wrap by (simp add: unsigned_of_nat take_bit_eq_mod)
    have pos: "0 < length ms" using k(2) by linarith
    then have "message_start S (Suc k) - 1 = message_start S k + (length ms - 1)" unfolding start_Suc len by linarith
    then have e: "?s + of_nat (length ms - 1) = of_nat (message_start S (Suc k) - 1)" by (simp only: of_nat_add)
    have "fr_state S N ?A (fr(?i := None))"
      by (rule fr_state_insert [OF st ms]) (use True alone ms in \<open>auto simp: fragment_id_of_def partial_def complete_insert\<close>)
    with True step cl fr_complete_ok [OF mt ks v fs all u] e show ?thesis by auto
  next
    case False
    then have "partial S ?A k" using k len by (auto simp: partial_def)
    moreover have "\<exists>js'. distinct js' \<and> set js' = {j'. (k, j') \<in> ?A} \<and> entry_of ?s ms (js @ [j]) = entry_of ?s ms js'"
      using sj by blast
    ultimately have "fr_state S N ?A (fr(?i := Some (entry_of ?s ms (js @ [j]))))"
      using k(1) by (intro fr_state_insert [OF st ms]) simp
    moreover have "waiting ?i ?s ms (js @ [j]) fr = fr(?i := Some (entry_of ?s ms (js @ [j])))" by (simp add: waiting_def)
    ultimately show ?thesis using False step cl by auto
  qed
qed

section \<open>One arrival\<close>

lemma fr_state_plain:
  assumes st: "fr_state S N A fr" and k: "st_fragments S k = None"
  shows "fr_state S N (insert (k, j) A) fr"
  unfolding fr_state_def
proof
  fix i
  show "case fr i of None \<Rightarrow> \<forall>k'<N. fragment_id_of S k' = Some i \<longrightarrow> \<not> partial S (insert (k, j) A) k'
    | Some e \<Rightarrow> \<exists>k'<N. \<exists>ms js. st_fragments S k' = Some ms \<and> fm_id (ms ! 0) = i \<and> partial S (insert (k, j) A) k' \<and> distinct js \<and>
       set js = {j'. (k', j') \<in> insert (k, j) A} \<and> e = entry_of (of_nat (message_start S k')) ms js"
  proof (cases "fr i")
    case None
    have "k' \<noteq> k" if "fragment_id_of S k' = Some i" for k' using that k by (auto simp: fragment_id_of_def)
    with None spec [OF st [unfolded fr_state_def], of i] show ?thesis by (auto simp: partial_insert)
  next
    case (Some e)
    with spec [OF st [unfolded fr_state_def], of i] obtain k' ms' js where k': "k' < N" "st_fragments S k' = Some ms'"
        "fm_id (ms' ! 0) = i" "partial S A k'" "distinct js" "set js = {j. (k', j) \<in> A}" "e = entry_of (of_nat (message_start S k')) ms' js"
      by auto
    have "k' \<noteq> k" using k'(2) k by auto
    with k' have "partial S (insert (k, j) A) k'" "set js = {j'. (k', j') \<in> insert (k, j) A}" by (auto simp: partial_insert)
    with k' have "\<exists>k'<N. \<exists>ms js. st_fragments S k' = Some ms \<and> fm_id (ms ! 0) = i \<and> partial S (insert (k, j) A) k' \<and> distinct js \<and>
       set js = {j'. (k', j') \<in> insert (k, j) A} \<and> e = entry_of (of_nat (message_start S k')) ms js" by blast
    with Some show ?thesis by simp
  qed
qed

text \<open>The first step of \<^verbatim>\<open>push_message\<close>, for fragments and whole messages alike.\<close>

lemma receive_part:
  assumes mt: "message_types_ok mt enc valid" and ks: "message_kinds_ok mt ks" and ok: "stream_ok mt ks enc valid wv N S"
    and st: "fr_state S N A fr" and A: "A \<subseteq> parts S N" and kj: "(k, j) \<in> parts S N" "(k, j) \<notin> A"
    and alone: "\<forall>k'<N. k' \<noteq> k \<and> fragment_id_of S k \<noteq> None \<and> fragment_id_of S k' = fragment_id_of S k \<longrightarrow> \<not> partial S A k'"
  shows "\<exists>fr'. (if is_fragment (snd (wire_item S (k, j))) then fr_receive ks (fst (wire_item S (k, j))) (snd (wire_item S (k, j))) fr
       else Inr (Some (fst (wire_item S (k, j)), fst (wire_item S (k, j)), snd (wire_item S (k, j))), fr)) =
      Inr (if complete S (insert (k, j) A) k
           then Some (of_nat (message_start S k), of_nat (message_start S (Suc k) - 1), st_message S k) else None, fr') \<and>
    fr_state S N (insert (k, j) A) fr'"
proof (cases "st_fragments S k")
  case None
  then have "st_length S k = 1" "j = 0" "\<exists>m. st_message S k = Application m"
    using ok kj(1) by (auto simp: stream_ok_def parts_def split: option.splits)
  with None fr_state_plain [OF st None] show ?thesis
    by (auto simp: wire_item_def wire_def complete_insert start_Suc)
next
  case (Some ms)
  then have "\<forall>k'<N. k' \<noteq> k \<and> fragment_id_of S k' = fragment_id_of S k \<longrightarrow> \<not> partial S A k'"
    using alone by (auto simp: fragment_id_of_def)
  from fr_receive_part [OF mt ks ok st A kj Some this] Some show ?thesis by (simp add: wire_item_def)
qed

lemma first_missing_bound:
  assumes L: "\<forall>k. 0 < st_length S k" and A: "A \<subseteq> parts S N" and n: "{..<n} \<subseteq> wire S ` A" and m: "\<not> complete S A m"
  shows "n < message_start S m + st_length S m"
proof -
  obtain j where j: "j < st_length S m" "(m, j) \<notin> A" using m by (auto simp: complete_def)
  have "wire S (m, j) \<notin> wire S ` A"
  proof
    assume "wire S (m, j) \<in> wire S ` A"
    then obtain k' j' where k': "(k', j') \<in> A" "wire S (m, j) = wire S (k', j')" by auto
    then have "j' < st_length S k'" using A by (auto simp: parts_def)
    from wire_inj [OF L j(1) this k'(2)] k'(1) j(2) show False by simp
  qed
  then have "\<not> wire S (m, j) < n" using n by blast
  then show ?thesis using j(1) by (simp add: wire_def)
qed

lemma rmr_push_message_step:
  assumes "(if is_fragment (snd x) then fr_receive ks (fst x) (snd x) (rmr_fragment_receiver s)
     else Inr (Some (fst x, fst x, snd x), rmr_fragment_receiver s)) = Inr (c, fr)"
  shows "c = None \<Longrightarrow> rmr_push_message ks wv now x (s, wl) = Inr (s \<lparr> rmr_fragment_receiver := fr \<rparr>, wl)"
    and "c = Some (a, b, m) \<Longrightarrow> relations_waiting wv m = None \<Longrightarrow>
      rmr_push_message ks wv now x (s, wl) = rbind (rmr_arrange ks (a, b, m) (s \<lparr> rmr_fragment_receiver := fr \<rparr>)) (\<lambda>s. Inr (s, wl))"
proof -
  obtain i m' where x: "x = (i, m')" by force
  note r = assms [unfolded x fst_conv snd_conv]
  show "c = None \<Longrightarrow> rmr_push_message ks wv now x (s, wl) = Inr (s \<lparr> rmr_fragment_receiver := fr \<rparr>, wl)"
    by (simp only: x rmr_push_message_def Let_def prod.case r rbind_simps option.case)
  show "c = Some (a, b, m) \<Longrightarrow> relations_waiting wv m = None \<Longrightarrow>
      rmr_push_message ks wv now x (s, wl) = rbind (rmr_arrange ks (a, b, m) (s \<lparr> rmr_fragment_receiver := fr \<rparr>)) (\<lambda>s. Inr (s, wl))"
    by (simp only: x rmr_push_message_def Let_def prod.case r rbind_simps option.case)
qed

lemma push_part:
  assumes mt: "message_types_ok mt enc valid" and ks: "message_kinds_ok mt ks" and ok: "stream_ok mt ks enc valid wv N S"
    and A: "A \<subseteq> parts S N" and kj: "(k, j) \<in> parts S N" "(k, j) \<notin> A"
    and alone: "\<forall>k'<N. k' \<noteq> k \<and> fragment_id_of S k \<noteq> None \<and> fragment_id_of S k' = fragment_id_of S k \<longrightarrow> \<not> partial S A k'"
    and st: "fr_state S N A (rmr_fragment_receiver s)" "rmr_incoming_messages s = map (st_message S) [0..<m]"
    and a: "rmr_arranger s = OrderedArranger a" "oa_state (st_length S) (st_message S) m {k. complete S A k} a"
    and n: "{..<n} \<subseteq> wire S ` A" "wire S (k, j) < n + 32768"
  shows "\<exists>m' a' fr'. rmr_push_message ks wv now (wire_item S (k, j)) (s, wl) =
      Inr (s \<lparr> rmr_fragment_receiver := fr', rmr_arranger := OrderedArranger a', rmr_incoming_messages := map (st_message S) [0..<m'] \<rparr>, wl) \<and>
    fr_state S N (insert (k, j) A) fr' \<and> oa_state (st_length S) (st_message S) m' {k'. complete S (insert (k, j) A) k'} a'"
proof -
  let ?A = "insert (k, j) A" and ?i = "wire_item S (k, j)"
  have L: "\<forall>k. 0 < st_length S k" and L': "\<forall>k. st_length S k \<le> 16384" using ok by (auto simp: stream_ok_def)
  have k: "k < N" "j < st_length S k" using kj(1) by (auto simp: parts_def)
  obtain fr' where r: "(if is_fragment (snd ?i) then fr_receive ks (fst ?i) (snd ?i) (rmr_fragment_receiver s)
       else Inr (Some (fst ?i, fst ?i, snd ?i), rmr_fragment_receiver s)) =
      Inr (if complete S ?A k then Some (of_nat (message_start S k), of_nat (message_start S (Suc k) - 1), st_message S k) else None, fr')"
      and fr': "fr_state S N ?A fr'"
    using receive_part [OF mt ks ok st(1) A kj alone] by blast
  show ?thesis
  proof (cases "complete S ?A k")
    case True
    have "n < message_start S m + st_length S m"
      using first_missing_bound [OF L A n(1), of m] a(2) by (auto simp: oa_state_def)
    moreover have "message_start S (Suc k) \<le> wire S (k, j) + st_length S k" by (simp add: wire_def start_Suc)
    ultimately have "message_start S (Suc k) \<le> message_start S m + 65536" using n(2) L' [rule_format, of m] L' [rule_format, of k] by linarith
    moreover have "k \<notin> {k. complete S A k}" using kj(2) k(2) by (auto simp: complete_def)
    moreover have "{k. complete S A k} \<subseteq> {..<N}" using complete_bound [OF L A] by auto
    moreover have ia: "insert k {k. complete S A k} = {k'. complete S ?A k'}" using True by (auto simp: complete_insert)
    ultimately obtain m' a' where m': "rmr_arrange ks (of_nat (message_start S k), of_nat (message_start S (Suc k) - 1), st_message S k)
        (s \<lparr> rmr_fragment_receiver := fr' \<rparr>) =
        Inr (s \<lparr> rmr_fragment_receiver := fr', rmr_arranger := OrderedArranger a', rmr_incoming_messages := rmr_incoming_messages s @ map (st_message S) [m..<m'] \<rparr>)"
        "m \<le> m'" "oa_state (st_length S) (st_message S) m' {k'. complete S ?A k'} a'"
      using arrange_complete [OF ok A k(1), of "s \<lparr> rmr_fragment_receiver := fr' \<rparr>" a m "{k. complete S A k}"] a by auto
    have rel: "relations_waiting wv (st_message S k) = None" using ok k(1) by (force simp: stream_ok_def)
    have "map (st_message S) [0..<m] @ map (st_message S) [m..<m'] = map (st_message S) [0..<m']"
      using upt_split [of 0 m m'] m'(2) by (simp flip: map_append)
    then have "rmr_push_message ks wv now ?i (s, wl) =
      Inr (s \<lparr> rmr_fragment_receiver := fr', rmr_arranger := OrderedArranger a', rmr_incoming_messages := map (st_message S) [0..<m'] \<rparr>, wl)"
      using rmr_push_message_step(2) [OF r _ rel] True m'(1) st(2) by simp
    with m'(3) fr' show ?thesis by blast
  next
    case False
    then have "{k'. complete S ?A k'} = {k. complete S A k}" using kj(2) k(2) by (auto simp: complete_insert complete_def)
    moreover have "rmr_push_message ks wv now ?i (s, wl) = Inr (s \<lparr> rmr_fragment_receiver := fr' \<rparr>, wl)"
      using rmr_push_message_step(1) [OF r] False by simp
    moreover have "s \<lparr> rmr_fragment_receiver := fr', rmr_arranger := OrderedArranger a, rmr_incoming_messages := map (st_message S) [0..<m] \<rparr> =
        s \<lparr> rmr_fragment_receiver := fr' \<rparr>" using a(1) st(2) by simp
    ultimately show ?thesis using a(2) fr' by metis
  qed
qed

lemma rr_state_drained: "rr_state n R (r \<lparr> rr_incoming_messages := ms \<rparr>) = rr_state n R r"
  by (simp add: rr_state_def)

lemma buffer_part:
  assumes mt: "message_types_ok mt enc valid" and ks: "message_kinds_ok mt ks" and ok: "stream_ok mt ks enc valid wv N S"
    and st: "delivery_state S N A m s" and kj: "kj \<in> parts S N"
    and win: "\<forall>n. {..<n} \<subseteq> wire S ` A \<and> n \<notin> wire S ` A \<longrightarrow> wire S kj < n + 32768 \<and> n < wire S kj + 32768"
    and alone: "\<forall>k'<N. k' \<noteq> fst kj \<and> fragment_id_of S (fst kj) \<noteq> None \<and> fragment_id_of S k' = fragment_id_of S (fst kj) \<longrightarrow> \<not> partial S A k'"
  shows "\<exists>m' s'. rmr_buffer_message ks wv now (wire_item S kj) (s, wl) = Inr (s', wl) \<and> delivery_state S N (insert kj A) m' s'"
proof -
  obtain k j where kj': "kj = (k, j)" by force
  have L: "\<forall>k. 0 < st_length S k" using ok by (simp add: stream_ok_def)
  obtain n a where n: "rr_state n (wire S ` A) (rmr_reliable_receiver s)" and i: "rr_incoming_messages (rmr_reliable_receiver s) = []"
    and a: "rmr_arranger s = OrderedArranger a" "oa_state (st_length S) (st_message S) m {k. complete S A k} a"
    and inc: "rmr_incoming_messages s = map (st_message S) [0..<m]" and fr: "fr_state S N A (rmr_fragment_receiver s)"
    and A: "A \<subseteq> parts S N"
    using st by (auto simp: delivery_state_def)
  have ns: "{..<n} \<subseteq> wire S ` A" "n \<notin> wire S ` A" using n by (auto simp: rr_state_def)
  then have w: "wire S kj < n + 32768" "n < wire S kj + 32768" using win by auto
  obtain message where it: "wire_item S kj = (of_nat (wire S kj), message)" by (simp add: wire_item_def)
  let ?rr = "rr_buffer_message (of_nat (wire S kj)) message (rmr_reliable_receiver s)"
  obtain n' where n': "rr_state n' (wire S ` insert kj A) ?rr"
      "rr_incoming_messages ?rr = (if wire S kj \<in> wire S ` A then [] else [wire_item S kj])"
    using rr_buffer_message_state [OF n w, of message] i it by auto
  have in_A: "wire S kj \<in> wire S ` A \<longleftrightarrow> kj \<in> A"
    using inj_on_image_mem_iff [OF inj_wire [OF L] kj A] .
  let ?s = "s \<lparr> rmr_reliable_receiver := ?rr \<lparr> rr_incoming_messages := [] \<rparr> \<rparr>"
  have b: "rmr_buffer_message ks wv now (wire_item S kj) (s, wl) =
      rfold (rmr_push_message ks wv now) (if kj \<in> A then [] else [wire_item S kj]) (?s, wl)"
    using n'(2) it in_A by (simp add: rmr_buffer_message_def rr_receive_messages_def)
  show ?thesis
  proof (cases "kj \<in> A")
    case True
    then have "delivery_state S N (insert kj A) m ?s"
      using n' a inc fr A by (auto simp: delivery_state_def insert_absorb rr_state_drained)
    with b True show ?thesis by auto
  next
    case False
    obtain m' a' fr' where p: "rmr_push_message ks wv now (wire_item S kj) (?s, wl) =
        Inr (?s \<lparr> rmr_fragment_receiver := fr', rmr_arranger := OrderedArranger a', rmr_incoming_messages := map (st_message S) [0..<m'] \<rparr>, wl)"
        "fr_state S N (insert kj A) fr'" "oa_state (st_length S) (st_message S) m' {k'. complete S (insert kj A) k'} a'"
      using push_part [OF mt ks ok A, of k j ?s m a n now wl] kj kj' False alone fr inc a ns w by auto
    then have "delivery_state S N (insert kj A) m'
        (?s \<lparr> rmr_fragment_receiver := fr', rmr_arranger := OrderedArranger a', rmr_incoming_messages := map (st_message S) [0..<m'] \<rparr>)"
      using n'(1) A kj unfolding delivery_state_def by (auto simp: rr_state_drained)
    with b p(1) False show ?thesis by auto
  qed
qed

lemma delivery_run:
  assumes mt: "message_types_ok mt enc valid" and ks: "message_kinds_ok mt ks" and ok: "stream_ok mt ks enc valid wv N S"
  shows "delivery_state S N A m s \<Longrightarrow> arrive S N A kjs \<Longrightarrow>
    \<exists>m' s'. rfold (\<lambda>kj. rmr_buffer_message ks wv now (wire_item S kj)) kjs (s, wl) = Inr (s', wl) \<and>
      delivery_state S N (A \<union> set kjs) m' s'"
proof (induction kjs arbitrary: A m s)
  case (Cons kj kjs)
  then obtain m1 s1 where 1: "rmr_buffer_message ks wv now (wire_item S kj) (s, wl) = Inr (s1, wl)"
      "delivery_state S N (insert kj A) m1 s1"
    using buffer_part [OF mt ks ok, of A m s kj now wl] by auto
  from Cons.IH [OF 1(2)] Cons.prems(2) 1(1) show ?case by auto
qed auto

text \<open>Any order will do while the indices are few and the fragment ids differ.\<close>

lemma wire_bound: "kj \<in> parts S N \<Longrightarrow> wire S kj < message_start S N"
  using start_mono [of "Suc (fst kj)" N "st_length S"] by (cases kj) (simp add: parts_def wire_def start_Suc)

lemma arrive_small:
  assumes small: "message_start S N < 32768"
    and ids: "\<forall>k<N. \<forall>k'<N. fragment_id_of S k \<noteq> None \<and> fragment_id_of S k' = fragment_id_of S k \<longrightarrow> k' = k"
  shows "A \<subseteq> parts S N \<Longrightarrow> set kjs \<subseteq> parts S N \<Longrightarrow> arrive S N A kjs"
proof (induction kjs arbitrary: A)
  case (Cons kj kjs)
  obtain k j where kj: "kj = (k, j)" by force
  have n: "n \<le> message_start S N" if "{..<n} \<subseteq> wire S ` A" for n
  proof -
    have "wire S ` A \<subseteq> {..<message_start S N}"
      by (rule image_subsetI) (simp add: wire_bound subsetD [OF Cons.prems(1)])
    from subset_trans [OF that this] have "{..<n} \<subseteq> {..<message_start S N}" .
    then show ?thesis by simp
  qed
  have w: "wire S kj < message_start S N" using Cons.prems(2) by (intro wire_bound) simp
  have k: "fst kj < N" using Cons.prems(2) kj by (simp add: parts_def)
  show ?case unfolding arrive.simps
  proof (intro conjI allI impI)
    show "wire S kj < n' + 32768" "n' < wire S kj + 32768" if "{..<n'} \<subseteq> wire S ` A \<and> n' \<notin> wire S ` A" for n'
      using n [OF conjunct1 [OF that]] w small by simp_all
    show "arrive S N (insert kj A) kjs" using Cons.prems by (intro Cons.IH) auto
    show "kj \<in> parts S N" using Cons.prems(2) by simp
    show "\<not> partial S A k'" if "k' < N" "k' \<noteq> fst kj \<and> fragment_id_of S (fst kj) \<noteq> None \<and> fragment_id_of S k' = fragment_id_of S (fst kj)" for k'
      using ids [rule_format, of "fst kj" k'] k that by blast
  qed
qed simp

section \<open>Properties\<close>



end
