(* ===== verification/Message_Delivery.thy ===== *)
theory Message_Delivery
  imports Message_Typing Reliable_Delivery
begin

text \<open>
  Sending and receiving on an ordered reliable channel together: what the application hands to the message manager of one
  side, cut into fragments where it is large, is what the receiver of the other side passes on.
\<close>

section \<open>Sent messages\<close>

text \<open>A message with its fragments when it was cut, and the items that stand for it in the queue of the sender.\<close>

type_synonym 'm block = "'m message \<times> fragmented_message list option"

definition block_items :: "'m block \<Rightarrow> 'm message list" where
  "block_items b = (case snd b of None \<Rightarrow> [fst b] | Some ms \<Rightarrow> map Fragment ms)"

definition items :: "'m block list \<Rightarrow> 'm message list" where
  "items bl = concat (map block_items bl)"

definition numbered :: "'a list \<Rightarrow> (u16 \<times> 'a) list" where
  "numbered xs = map (\<lambda>p. (of_nat p, xs ! p)) [0..<length xs]"

definition stream_of :: "'m block list \<Rightarrow> 'm stream" where
  "stream_of bl = \<lparr> st_length = \<lambda>k. if k < length bl then length (block_items (bl ! k)) else 1,
     st_message = \<lambda>k. fst (bl ! k), st_fragments = \<lambda>k. if k < length bl then snd (bl ! k) else None \<rparr>"

lemma numbered_simps [simp]:
  "numbered [] = []" "numbered (xs @ [x]) = numbered xs @ [(of_nat (length xs), x)]" "length (numbered xs) = length xs"
  by (simp_all add: numbered_def nth_append)

lemma items_simps [simp]: "items [] = []" "items (bl @ [b]) = items bl @ block_items b"
  by (simp_all add: items_def)

lemma message_start_stream: "k \<le> length bl \<Longrightarrow> message_start (stream_of bl) k = length (items (take k bl))"
  by (induction k) (simp_all add: start_Suc take_Suc_conv_app_nth stream_of_def, simp add: start_def)

lemma nth_concat:
  "p < length (concat xs) \<Longrightarrow>
   \<exists>k < length xs. \<exists>j < length (xs ! k). p = length (concat (take k xs)) + j \<and> concat xs ! p = xs ! k ! j"
proof (induction xs arbitrary: p)
  case (Cons x xs)
  show ?case
  proof (cases "p < length x")
    case True
    then show ?thesis by (intro exI [of _ 0] conjI exI [of _ p]) (simp_all add: nth_append)
  next
    case False
    then have "p - length x < length (concat xs)" using Cons.prems by simp
    from Cons.IH [OF this] obtain k j where kj: "k < length xs" "j < length (xs ! k)" "p - length x = length (concat (take k xs)) + j"
        "concat xs ! (p - length x) = xs ! k ! j" by blast
    have "p = length (concat (take (Suc k) (x # xs))) + j" using kj(3) False by simp
    then show ?thesis using kj(1,2,4) False by (intro exI [of _ "Suc k"] conjI exI [of _ j]) (simp_all add: nth_append)
  qed
qed simp

text \<open>The numbered items are the parts of the stream.\<close>

lemma item_part:
  assumes "x \<in> set (numbered (items bl))"
  shows "\<exists>kj \<in> parts (stream_of bl) (length bl). wire_item (stream_of bl) kj = x"
proof -
  obtain p where p: "p < length (items bl)" "x = (of_nat p, items bl ! p)" using assms by (auto simp: numbered_def)
  from nth_concat [OF p(1) [unfolded items_def]] obtain k j where kj: "k < length bl" "j < length (block_items (bl ! k))"
      "p = length (items (take k bl)) + j" "items bl ! p = block_items (bl ! k) ! j"
    by (auto simp: items_def take_map)
  have "wire_item (stream_of bl) (k, j) = x"
    unfolding wire_item_def wire_def using kj p(2) message_start_stream [of k bl]
    by (auto simp: stream_of_def block_items_def split: option.splits)
  then show ?thesis using kj(1,2) by (intro bexI [of _ "(k, j)"]) (simp_all add: parts_def stream_of_def)
qed

lemma part_item:
  assumes kj: "(k, j) \<in> parts (stream_of bl) (length bl)"
  shows "wire_item (stream_of bl) (k, j) \<in> set (numbered (items bl))"
proof -
  have "k < length bl \<and> j < length (block_items (bl ! k))" using kj by (auto simp: parts_def stream_of_def)
  then have k: "k < length bl" "j < length (block_items (bl ! k))" by simp_all
  have w: "wire (stream_of bl) (k, j) = length (items (take k bl)) + j"
    using message_start_stream [of k bl] k(1) by (simp add: wire_def)
  have "bl = take k bl @ bl ! k # drop (Suc k) bl" by (rule id_take_nth_drop [OF k(1)])
  then have i: "items bl = items (take k bl) @ block_items (bl ! k) @ items (drop (Suc k) bl)"
    unfolding items_def by (metis concat.simps(2) concat_append list.simps(9) map_append)
  have "items bl ! (length (items (take k bl)) + j) = block_items (bl ! k) ! j" "length (items (take k bl)) + j < length (items bl)"
    using k(2) by (simp_all add: i nth_append)
  moreover have "(case snd (bl ! k) of None \<Rightarrow> fst (bl ! k) | Some ms \<Rightarrow> Fragment (ms ! j)) = block_items (bl ! k) ! j"
    using k(2) by (auto simp: block_items_def split: option.splits)
  ultimately have "wire_item (stream_of bl) (k, j) = (of_nat (length (items (take k bl)) + j), items bl ! (length (items (take k bl)) + j))"
    "length (items (take k bl)) + j < length (items bl)"
    unfolding wire_item_def w using k(1) by (auto simp: stream_of_def simp del: of_nat_add split: option.splits)
  then show ?thesis unfolding numbered_def by (simp del: of_nat_add)
qed

section \<open>The queue of the sender\<close>

definition queued :: "nat option \<Rightarrow> 'p list \<Rightarrow> 'p reliable_sender \<Rightarrow> bool" where
  "queued depth xs s \<longleftrightarrow> rs_max_queue_depth s = depth \<and> rs_sending_messages s = map (\<lambda>(i, m). Some (i, None, m)) (numbered xs) \<and>
     rs_next_send_message_index s = of_nat (length xs) \<and> rs_outgoing_messages s = [] \<and> (xs \<noteq> [] \<longrightarrow> rs_has_unsent s)"

definition holds :: "nat option \<Rightarrow> nat \<Rightarrow> bool" where
  "holds depth n \<longleftrightarrow> (case depth of None \<Rightarrow> True | Some d \<Rightarrow> n \<le> d)"

lemma queued_new: "queued depth [] (rs_new depth)"
  by (simp add: queued_def rs_new_def)

lemma queued_send:
  "queued depth xs s \<Longrightarrow> holds depth (Suc (length xs)) \<Longrightarrow>
   \<exists>s'. rs_send_message x s = (True, s') \<and> queued depth (xs @ [x]) s'"
  by (cases depth) (auto simp: queued_def rs_send_message_def holds_def)

lemma queued_fragments:
  "queued depth xs (rms_reliable_sender s) \<Longrightarrow> holds depth (length xs + length ys) \<Longrightarrow>
   \<exists>s'. send_fragments ys True (ReliableMessageSender s) = (True, ReliableMessageSender s') \<and> queued depth (xs @ ys) (rms_reliable_sender s')"
proof (induction ys arbitrary: xs s)
  case (Cons y ys)
  have "holds depth (Suc (length xs))" using Cons.prems(2) by (auto simp: holds_def split: option.splits)
  from queued_send [OF Cons.prems(1) this, of y] obtain s' where
    s': "rs_send_message y (rms_reliable_sender s) = (True, s')" "queued depth (xs @ [y]) s'" by blast
  with Cons.IH [of "xs @ [y]" "s \<lparr> rms_reliable_sender := s' \<rparr>"] Cons.prems(2) show ?case
    by (simp add: rms_send_message_def)
qed auto

text \<open>A collection offers everything that has not been sent.\<close>

lemma queued_collect:
  assumes "queued depth xs s"
  shows "rs_outgoing_messages (rs_collect_messages now d s) = numbered xs"
proof -
  have p: "pending s = map (\<lambda>(i, m). (i, None, m)) (numbered xs)"
    using assms by (simp add: queued_def pending_def List.map_filter_def comp_def case_prod_beta filter_True)
  have "rs_inv s" using assms by (cases "xs = []") (auto simp: rs_inv_def p queued_def)
  from rs_collect_spec [OF this] assms show ?thesis
    by (simp add: queued_def p spec_offers_def rs_due_def comp_def case_prod_beta)
qed

section \<open>Sending\<close>

definition cost :: "('k, 'm) message_types \<Rightarrow> ('k, 'm) message_kinds \<Rightarrow> ('m \<Rightarrow> bool list) \<Rightarrow> 'm message \<Rightarrow> nat" where
  "cost mt ks enc m = length (message_enc mt ks enc m) div FRAGMENTATION_LIMIT_BITS + 1"

definition blocks_ok ::
    "('k, 'm) message_types \<Rightarrow> ('k, 'm) message_kinds \<Rightarrow> ('m \<Rightarrow> bool list) \<Rightarrow> ('m \<Rightarrow> bool) \<Rightarrow> 'm block list \<Rightarrow> bool" where
  "blocks_ok mt ks enc valid bl \<longleftrightarrow> (\<forall>b\<in>set bl. message_valid mt ks valid (fst b) \<and>
     (case snd b of None \<Rightarrow> True | Some ms \<Rightarrow> \<exists>i. is_fragments i (message_enc mt ks enc (fst b)) ms))"

abbreviation block_id :: "'m block \<Rightarrow> fragment_id option" where
  "block_id b \<equiv> map_option (\<lambda>ms. fm_id (ms ! 0)) (snd b)"

text \<open>The fragmenter counts the fragmented messages and starts over at 1024.\<close>

definition ids_ok :: "'m block list \<Rightarrow> message_fragmenter \<Rightarrow> bool" where
  "ids_ok bl mf \<longleftrightarrow> (\<exists>c \<le> length bl. (c < 1024 \<longrightarrow> current_fragment_id mf = of_nat c) \<and>
     (\<forall>i \<in> set (List.map_filter block_id bl). unat i < c) \<and> distinct (List.map_filter block_id bl))"

definition sending ::
    "('k, 'm) message_types \<Rightarrow> ('k, 'm) message_kinds \<Rightarrow> ('m \<Rightarrow> bool list) \<Rightarrow> ('m \<Rightarrow> bool) \<Rightarrow> 'c channel_kind \<Rightarrow> nat option \<Rightarrow>
     'm block list \<Rightarrow> ('c, 'm) message_manager \<Rightarrow> bool" where
  "sending mt ks enc valid kind depth bl mm \<longleftrightarrow> blocks_ok mt ks enc valid bl \<and> ids_ok bl (mm_message_fragmenter mm) \<and>
     (\<exists>s. map_of (mm_channel_senders mm) kind = Some (ReliableMessageSender s) \<and> queued depth (items bl) (rms_reliable_sender s)) \<and>
     (\<exists>settings. map_of (mm_channel_settings mm) kind = Some settings \<and> cs_reliable settings)"

lemma block_cost:
  assumes "blocks_ok mt ks enc valid bl" "b \<in> set bl"
  shows "0 < length (block_items b) \<and> length (block_items b) \<le> cost mt ks enc (fst b)"
  using assms by (fastforce simp: blocks_ok_def block_items_def cost_def is_fragments_def split: option.splits)

lemma ids_ok_plain: "ids_ok bl mf \<Longrightarrow> ids_ok (bl @ [(m, None)]) mf"
proof -
  have "List.map_filter block_id (bl @ [(m, None)]) = List.map_filter block_id bl" by (simp add: List.map_filter_def)
  moreover have "n \<le> length bl \<Longrightarrow> n \<le> length (bl @ [(m, None)])" for n by simp
  ultimately show "ids_ok bl mf \<Longrightarrow> ids_ok (bl @ [(m, None)]) mf" unfolding ids_ok_def by metis
qed

lemma ids_ok_fragments:
  assumes ok: "ids_ok bl mf" "length bl < 1024" and fs: "is_fragments (current_fragment_id mf) bs ms"
  shows "ids_ok (bl @ [(m, Some ms)]) (mf \<lparr> current_fragment_id := fragment_id_increment (current_fragment_id mf) \<rparr>)"
proof -
  let ?ids = "List.map_filter block_id bl"
  obtain c where c: "c \<le> length bl" "c < 1024 \<longrightarrow> current_fragment_id mf = of_nat c" "\<forall>i \<in> set ?ids. unat i < c" "distinct ?ids"
    using ok(1) unfolding ids_ok_def by blast
  have lt: "c < 1024" using c(1) ok(2) by simp
  then have u: "unat (of_nat c :: u16) = c" by (simp add: unat_of_nat)
  have "unat (of_nat (c + 1) :: u16) = c + 1" unfolding unat_of_nat using lt by simp
  then have "c + 1 < 1024 \<longrightarrow> fragment_id_increment (of_nat c) = of_nat (c + 1)"
    unfolding fragment_id_increment_def Let_def fragment_simps word_le_nat_alt of_nat_add of_nat_1 by simp
  moreover have "fm_id (ms ! 0) = of_nat c" using fs c(2) lt by (simp add: is_fragments_def)
  then have f: "List.map_filter block_id (bl @ [(m, Some ms)]) = ?ids @ [of_nat c]" by (simp add: List.map_filter_def)
  moreover have "\<forall>i \<in> set (?ids @ [of_nat c]). unat i < c + 1" using c(3) u by (auto intro: less_SucI)
  moreover have "of_nat c \<notin> set ?ids" using c(3) u by (metis nat_neq_iff)
  ultimately show ?thesis unfolding ids_ok_def using c lt
    by (intro exI [of _ "c + 1"] conjI) (simp_all del: of_nat_add of_nat_Suc)
qed

lemma send_step:
  assumes mt: "message_types_ok mt enc valid" and ks: "message_kinds_ok mt ks" and bl: "sending mt ks enc valid kind depth bl mm"
    and m: "message_valid mt ks valid m" "m = Application a" "cost mt ks enc m \<le> 16384"
    and room: "length bl < 1024" "holds depth (length (items bl) + cost mt ks enc m)"
  shows "\<exists>fs mm'. mm_send_message mt ks kind m mm = Inr (True, mm') \<and> sending mt ks enc valid kind depth (bl @ [(m, fs)]) mm'"
proof -
  obtain s settings where s: "map_of (mm_channel_senders mm) kind = Some (ReliableMessageSender s)" "queued depth (items bl) (rms_reliable_sender s)"
      "map_of (mm_channel_settings mm) kind = Some settings" "cs_reliable settings"
    using bl unfolding sending_def by blast
  have ids: "ids_ok bl (mm_message_fragmenter mm)" and ok: "blocks_ok mt ks enc valid bl" using bl by (simp_all add: sending_def)
  have less: "holds depth (length (items bl) + n)" if "n \<le> cost mt ks enc m" for n
    using room(2) that by (auto simp: holds_def split: option.splits)
  have "mt_bit_length mt a = Inr (length (enc a))"
    using mt m(1,2) by (auto simp: message_types_ok_def message_valid_def)
  then obtain n where n: "message_bit_length mt ks m = Inr n" using m(2) by simp
  show ?thesis
  proof (cases "FRAGMENTATION_LIMIT_BITS < n")
    case False
    from queued_send [OF s(2), of m] less [of 1] obtain s' where
      s': "rs_send_message m (rms_reliable_sender s) = (True, s')" "queued depth (items bl @ [m]) s'" by (auto simp: cost_def)
    let ?mm = "put_sender kind (ReliableMessageSender (s \<lparr> rms_reliable_sender := s' \<rparr>)) mm"
    have "mm_send_message mt ks kind m mm = Inr (True, ?mm)"
      using s(1) n False s'(1) by (simp add: mm_send_message_def rms_send_message_def)
    moreover have "sending mt ks enc valid kind depth (bl @ [(m, None)]) ?mm"
      using s(3,4) s'(2) ids_ok_plain [OF ids] ok m(1)
      by (simp add: sending_def put_sender_def map_of_alist_insert blocks_ok_def block_items_def)
    ultimately show ?thesis by blast
  next
    case True
    have "length (message_enc mt ks enc m) < (2 ^ 20 - 1) * FRAGMENTATION_LIMIT_BITS"
      using m(3) by (simp add: cost_def fragment_simps)
    from fragment_message_ok [OF mt ks m(1) this, of "mm_message_fragmenter mm"] obtain ms mf where
      ms: "fragment_message mt ks m (mm_message_fragmenter mm) = Inr (map Fragment ms, mf)"
        "is_fragments (current_fragment_id (mm_message_fragmenter mm)) (message_enc mt ks enc m) ms"
        "mf = mm_message_fragmenter mm \<lparr> current_fragment_id := fragment_id_increment (current_fragment_id (mm_message_fragmenter mm)) \<rparr>"
      by blast
    have "length (map Fragment ms) \<le> cost mt ks enc m" using ms(2) by (simp add: is_fragments_def cost_def)
    from queued_fragments [OF s(2) less [OF this]] obtain s' where
      s': "send_fragments (map Fragment ms) True (ReliableMessageSender s) = (True, ReliableMessageSender s')"
        "queued depth (items bl @ map Fragment ms) (rms_reliable_sender s')" by blast
    let ?mm = "put_sender kind (ReliableMessageSender s') (mm \<lparr> mm_message_fragmenter := mf \<rparr>)"
    have "mm_send_message mt ks kind m mm = Inr (True, ?mm)"
      using s n True s'(1) ms(1) by (simp add: mm_send_message_def)
    moreover have "sending mt ks enc valid kind depth (bl @ [(m, Some ms)]) ?mm"
      using s(3,4) s'(2) ids_ok_fragments [OF ids room(1) ms(2), of m] ok m(1) ms(2,3)
      by (auto simp: sending_def put_sender_def map_of_alist_insert blocks_ok_def block_items_def)
    ultimately show ?thesis by blast
  qed
qed

fun send_all ::
    "('k, 'm) message_types \<Rightarrow> ('k, 'm) message_kinds \<Rightarrow> 'c channel_kind \<Rightarrow> 'm message list \<Rightarrow> ('c, 'm) message_manager \<Rightarrow>
     (bool list \<times> ('c, 'm) message_manager) res" where
  "send_all mt ks kind [] mm = Inr ([], mm)"
| "send_all mt ks kind (m # ms) mm =
     rbind (mm_send_message mt ks kind m mm) (\<lambda>(accepted, mm).
       rbind (send_all mt ks kind ms mm) (\<lambda>(rest, mm). Inr (accepted # rest, mm)))"

lemma send_all_ok:
  assumes mt: "message_types_ok mt enc valid" and ks: "message_kinds_ok mt ks"
  shows "sending mt ks enc valid kind depth bl mm \<Longrightarrow> \<forall>m\<in>set ms. message_valid mt ks valid m \<and> (\<exists>a. m = Application a) \<Longrightarrow>
    sum_list (map (cost mt ks enc) ms) \<le> 16384 \<Longrightarrow> length bl + length ms \<le> 1024 \<Longrightarrow>
    holds depth (length (items bl) + sum_list (map (cost mt ks enc) ms)) \<Longrightarrow>
    \<exists>bl' mm'. send_all mt ks kind ms mm = Inr (replicate (length ms) True, mm') \<and>
      sending mt ks enc valid kind depth bl' mm' \<and> map fst bl' = map fst bl @ ms"
proof (induction ms arbitrary: bl mm)
  case (Cons m ms)
  have "holds depth (length (items bl) + cost mt ks enc m)" "cost mt ks enc m \<le> 16384"
    using Cons.prems(3,5) by (auto simp: holds_def split: option.splits)
  moreover obtain a where "message_valid mt ks valid m" "m = Application a" "length bl < 1024" using Cons.prems(2,4) by auto
  ultimately obtain fs mm1 where
    1: "mm_send_message mt ks kind m mm = Inr (True, mm1)" "sending mt ks enc valid kind depth (bl @ [(m, fs)]) mm1"
    using send_step [OF mt ks Cons.prems(1), of m a] by blast
  have "blocks_ok mt ks enc valid (bl @ [(m, fs)])" using 1(2) unfolding sending_def by (rule conjunct1)
  from block_cost [OF this, of "(m, fs)"] have "length (items (bl @ [(m, fs)])) \<le> length (items bl) + cost mt ks enc m" by simp
  then have "holds depth (length (items (bl @ [(m, fs)])) + sum_list (map (cost mt ks enc) ms))"
    using Cons.prems(5) by (auto simp: holds_def split: option.splits)
  with Cons.prems(2-4) Cons.IH [OF 1(2)] 1(1) show ?case by auto
qed auto

section \<open>The stream of the sent messages\<close>

lemma items_length: "length (items bl) = sum_list (map (\<lambda>b. length (block_items b)) bl)"
  by (simp add: items_def length_concat comp_def)

lemma items_cost:
  assumes "blocks_ok mt ks enc valid bl"
  shows "length (items bl) \<le> sum_list (map (cost mt ks enc) (map fst bl))"
proof -
  have "length (block_items b) \<le> cost mt ks enc (fst b)" if "b \<in> set bl" for b
    using block_cost [OF assms that] by simp
  then show ?thesis unfolding items_length map_map comp_def by (rule sum_list_mono)
qed

lemma stream_of_ok:
  assumes ok: "blocks_ok mt ks enc valid bl" and few: "length (items bl) \<le> 16384"
    and app: "\<forall>m\<in>set (map fst bl). \<exists>a. m = Application a \<and> wv_relations_waiting wv a = None"
  shows "stream_ok mt ks enc valid wv (length bl) (stream_of bl)"
proof -
  let ?S = "stream_of bl"
  have b: "0 < length (block_items (bl ! k))" "message_start ?S k + length (block_items (bl ! k)) \<le> 16384" if "k < length bl" for k
  proof -
    show "0 < length (block_items (bl ! k))" using block_cost [OF ok, of "bl ! k"] that by simp
    have "message_start ?S (Suc k) \<le> message_start ?S (length bl)" using that by (intro start_mono) simp
    then show "message_start ?S k + length (block_items (bl ! k)) \<le> 16384"
      using message_start_stream [of "length bl" bl] few that by (simp add: start_Suc) (simp add: stream_of_def)
  qed
  have "0 < st_length ?S k \<and> st_length ?S k \<le> 16384" for k
    using b(1) [of k] add_leD2 [OF b(2) [of k]] by (simp add: stream_of_def)
  moreover have "\<exists>m. st_message ?S k = Application m \<and> wv_relations_waiting wv m = None" if "k < length bl" for k
    using app that by (simp add: stream_of_def)
  moreover have "case st_fragments ?S k of None \<Rightarrow> st_length ?S k = 1
      | Some ms \<Rightarrow> st_length ?S k = length ms \<and> message_valid mt ks valid (st_message ?S k) \<and>
          message_start ?S k mod 65536 + length ms < 65536 \<and> (\<exists>i. is_fragments i (message_enc mt ks enc (st_message ?S k)) ms)"
    if k: "k < length bl" for k
  proof (cases "snd (bl ! k)")
    case None
    then show ?thesis using k by (simp add: stream_of_def block_items_def)
  next
    case (Some ms)
    then have f: "st_fragments ?S k = Some ms" "st_length ?S k = length ms" "st_message ?S k = fst (bl ! k)"
      using k by (simp_all add: stream_of_def block_items_def)
    have "message_start ?S k + length ms < 65536" using b(2) [OF k] Some by (simp add: block_items_def)
    then have "message_start ?S k mod 65536 + length ms < 65536" by simp
    moreover have "message_valid mt ks valid (fst (bl ! k)) \<and> (\<exists>i. is_fragments i (message_enc mt ks enc (fst (bl ! k))) ms)"
      using ok [unfolded blocks_ok_def, rule_format, of "bl ! k"] k Some by simp
    ultimately show ?thesis using f by simp
  qed
  ultimately show ?thesis unfolding stream_ok_def by blast
qed

lemma map_filter_distinct:
  "distinct (List.map_filter f xs) \<Longrightarrow> k < length xs \<Longrightarrow> k' < length xs \<Longrightarrow> f (xs ! k) = Some i \<Longrightarrow> f (xs ! k') = Some i \<Longrightarrow> k' = k"
proof (induction xs arbitrary: k k')
  case (Cons x xs)
  have m: "i \<in> set (List.map_filter f xs)" if "j < length xs" "f (xs ! j) = Some i" for j
    using that by (force simp: List.map_filter_def)
  show ?case
  proof (cases k)
    case 0
    then show ?thesis using Cons.prems m by (cases k') (auto simp: List.map_filter_def)
  next
    case (Suc j)
    then show ?thesis using Cons.prems m Cons.IH by (cases k') (auto simp: List.map_filter_def split: if_splits)
  qed
qed simp

lemma rfold_map: "rfold g (map f xs) s = rfold (\<lambda>x. g (f x)) xs s"
proof (induction xs arbitrary: s)
  case (Cons x xs)
  then show ?case by (cases "g (f x) s") simp_all
qed simp

lemma stream_of_ids:
  assumes "ids_ok bl mf" "k < length bl" "k' < length bl"
    and "fragment_id_of (stream_of bl) k \<noteq> None" "fragment_id_of (stream_of bl) k' = fragment_id_of (stream_of bl) k"
  shows "k' = k"
proof -
  have f: "fragment_id_of (stream_of bl) n = block_id (bl ! n)" if "n < length bl" for n
    using that by (simp add: fragment_id_of_def stream_of_def)
  have eq: "block_id (bl ! k') = block_id (bl ! k)" using assms(5) f [OF assms(2)] f [OF assms(3)] by simp
  have "block_id (bl ! k) \<noteq> None" using assms(4) f [OF assms(2)] by simp
  then obtain i where i: "block_id (bl ! k) = Some i" by blast
  have d: "distinct (List.map_filter block_id bl)" using assms(1) unfolding ids_ok_def by blast
  show ?thesis by (rule map_filter_distinct [OF d assms(2,3) i trans [OF eq i]])
qed

lemma wire_item_inj:
  assumes L: "\<forall>k. 0 < st_length S k" and few: "message_start S N \<le> 65536"
    and p: "kj \<in> parts S N" "kj' \<in> parts S N" and eq: "wire_item S kj = wire_item S kj'"
  shows "kj = kj'"
proof -
  have "(of_nat (wire S kj) :: u16) = of_nat (wire S kj')" using arg_cong [OF eq, of fst] unfolding wire_item_def fst_conv .
  from arg_cong [OF this, of unat] have "wire S kj = wire S kj'"
    using wire_bound [OF p(1)] wire_bound [OF p(2)] few by (simp only: unat_of_nat_u16 less_le_trans)
  from inj_onD [OF inj_wire [OF L] this p] show ?thesis .
qed

text \<open>Whatever of the numbered items arrives, in whatever order.\<close>

lemma stream_of_arrives:
  assumes mt: "message_types_ok mt enc valid" and ks: "message_kinds_ok mt ks"
    and ok: "blocks_ok mt ks enc valid bl" "ids_ok bl mf" "length (items bl) \<le> 16384"
    and app: "\<forall>m\<in>set (map fst bl). \<exists>a. m = Application a \<and> wv_relations_waiting wv a = None"
    and arrived: "set arrived \<subseteq> set (numbered (items bl))"
  shows "\<exists>n r. rfold (rmr_buffer_message ks wv now) arrived (with_arranger_and_cap (OrderedArranger oa_new) cap, wl) = Inr (r, wl) \<and>
    rmr_incoming_messages r = take n (map fst bl) \<and> (set arrived = set (numbered (items bl)) \<longrightarrow> n = length bl)"
proof -
  let ?S = "stream_of bl" and ?N = "length bl"
  note st = stream_of_ok [OF ok(1,3) app]
  then have L: "\<forall>k. 0 < st_length ?S k" by (simp add: stream_ok_def)
  have total: "message_start ?S ?N = length (items bl)" using message_start_stream [of ?N bl] by simp
  have "\<forall>x \<in> set (numbered (items bl)). \<exists>kj. kj \<in> parts ?S ?N \<and> wire_item ?S kj = x" using item_part [of _ bl] by blast
  from bchoice [OF this] obtain f where f: "\<forall>x \<in> set (numbered (items bl)). f x \<in> parts ?S ?N \<and> wire_item ?S (f x) = x" by blast
  let ?kjs = "map f arrived"
  have kjs: "set ?kjs \<subseteq> parts ?S ?N" using f arrived by auto
  have inv: "map (wire_item ?S) ?kjs = arrived" unfolding map_map comp_def by (rule map_idI) (use f arrived in blast)
  have ids: "\<forall>k<?N. \<forall>k'<?N. fragment_id_of ?S k \<noteq> None \<and> fragment_id_of ?S k' = fragment_id_of ?S k \<longrightarrow> k' = k"
    by (intro allI impI, elim conjE, rule stream_of_ids [OF ok(2)])
  have "message_start ?S ?N < 32768" using total ok(3) by simp
  from arrive_small [OF this ids empty_subsetI kjs] have "arrive ?S ?N {} ?kjs" .
  from delivery_run [OF mt ks st delivery_new [OF L, of _ cap] this, of now wl] obtain n r where
    r: "rfold (\<lambda>kj. rmr_buffer_message ks wv now (wire_item ?S kj)) ?kjs (with_arranger_and_cap (OrderedArranger oa_new) cap, wl) = Inr (r, wl)"
      "delivery_state ?S ?N (set ?kjs) n r" unfolding Un_empty_left by blast
  from r(2) have c: "rmr_incoming_messages r = map (st_message ?S) [0..<n]" "\<forall>k<n. complete ?S (set ?kjs) k" "\<not> complete ?S (set ?kjs) n"
    by (auto simp: delivery_state_def oa_state_def)
  have "n \<le> ?N"
  proof (rule ccontr)
    assume "\<not> n \<le> ?N"
    then have "complete ?S (set ?kjs) ?N" using c(2) by simp
    from complete_bound [OF L kjs this] show False by simp
  qed
  then have "rmr_incoming_messages r = take n (map fst bl)"
    unfolding c(1) by (intro nth_equalityI) (simp_all add: stream_of_def)
  moreover have "n = ?N" if all: "set arrived = set (numbered (items bl))"
  proof (rule ccontr)
    assume "n \<noteq> ?N"
    then have n: "n < ?N" using \<open>n \<le> ?N\<close> by simp
    have "(n, j) \<in> set ?kjs" if j: "j < st_length ?S n" for j
    proof -
      have p: "(n, j) \<in> parts ?S ?N" using n j by (simp add: parts_def)
      from part_item [OF this] f have q: "f (wire_item ?S (n, j)) \<in> parts ?S ?N" "wire_item ?S (f (wire_item ?S (n, j))) = wire_item ?S (n, j)"
        by blast+
      from wire_item_inj [OF L _ q(1) p q(2)] total ok(3) have "f (wire_item ?S (n, j)) = (n, j)" by simp
      moreover have "wire_item ?S (n, j) \<in> set arrived" using part_item [OF p] all by simp
      ultimately show ?thesis unfolding set_map by (rule image_eqI [OF sym])
    qed
    then show False using c(3) by (simp add: complete_def)
  qed
  moreover have "rfold (rmr_buffer_message ks wv now) (map (wire_item ?S) ?kjs) (with_arranger_and_cap (OrderedArranger oa_new) cap, wl) = Inr (r, wl)"
    unfolding rfold_map [of _ "wire_item ?S"] by (rule r(1))
  ultimately show ?thesis unfolding inv by blast
qed

section \<open>Property\<close>

lemma settings_map_of:
  "distinct (map fst cs) \<Longrightarrow> fst ` set cs \<inter> fst ` set m = {} \<Longrightarrow>
   map_of (fold (\<lambda>(kind, settings). alist_insert kind settings) cs m) kind =
     (case map_of cs kind of None \<Rightarrow> map_of m kind | Some s \<Rightarrow> Some s)"
proof (induction cs arbitrary: m)
  case (Cons c cs)
  obtain k s where c: "c = (k, s)" by force
  have "fst ` set (alist_insert k s m) = insert k (fst ` set m)"
    using map_of_alist_insert [of k s m] by (metis dom_fun_upd dom_map_of_conv_image_fst option.distinct(1))
  then have "fst ` set cs \<inter> fst ` set (alist_insert k s m) = {}" using Cons.prems c by auto
  moreover have "kind = k \<Longrightarrow> map_of cs kind = None" using Cons.prems(1) c by (simp add: map_of_eq_None_iff)
  ultimately show ?case using Cons c by (auto simp: map_of_alist_insert split: option.splits)
qed simp

lemma mm_new_sending:
  fixes mt :: "('k, 'm) message_types" and ck :: "'c channel_kinds"
  assumes "distinct (map fst (kind_map ck))" "map_of (channels ck) kind = Some settings" "cs_mode settings = OrderedReliable st"
    and "can_send host settings"
  shows "sending mt ks enc valid kind (max_queue_depth st) [] (mm_new host ck)"
    and "map_of (mm_channel_receivers (mm_new (invert host) ck)) kind =
      Some (ReliableMessageReceiver (with_arranger_and_cap (OrderedArranger oa_new) (max_messages_per_tick st)))"
proof -
  let ?mm = "mm_new host ck :: ('c, 'm) message_manager"
  have d: "distinct (map fst (channels ck))" using assms(1) by (simp add: channels_def comp_def case_prod_beta)
  have "can_receive (invert host) settings" using assms(4) by (cases host) (simp_all add: can_receive_def can_send_def)
  then show "map_of (mm_channel_receivers (mm_new (invert host) ck)) kind =
      Some (ReliableMessageReceiver (with_arranger_and_cap (OrderedArranger oa_new) (max_messages_per_tick st)))"
    using assms(2,3) by (simp add: mm_new_def insert_channels_map_of [OF d])
  have "map_of (mm_channel_senders ?mm) kind = Some (ReliableMessageSender (rms_new (rtt_resend_factor st) (max_queue_depth st)))"
    using assms(2-4) by (simp add: mm_new_def insert_channels_map_of [OF d])
  moreover have "map_of (mm_channel_settings ?mm) kind = Some settings" "cs_reliable settings"
    using settings_map_of [OF d, of "[]"] assms(2,3) by (simp_all add: mm_new_def cs_reliable_def)
  moreover have "ids_ok [] (mm_message_fragmenter ?mm)"
    by (simp add: ids_ok_def mm_new_def fragmenter_new_def List.map_filter_def)
  ultimately show "sending mt ks enc valid kind (max_queue_depth st) [] (mm_new host ck)"
    by (simp add: sending_def blocks_ok_def rms_new_def queued_new)
qed



end
