(* ===== verification/Spec2Isabelle.thy ===== *)
theory Spec2Isabelle
  imports Entity_Convergence Host_Engine Receiver_Arrangers Ack_Manager Server_Authority Protocol Message_Delivery
begin

text \<open>
  A verification of naia, a library that replicates the entities of a game from a server to its clients and sends messages
  between them, over an unreliable packet transport. File names below are relative to \<^verbatim>\<open>src/\<close>.

  \<^bold>\<open>The program.\<close> A connection packs three kinds of data into packets. The header of a packet has a 16-bit index and
  acknowledges the packets of the other side (\<^verbatim>\<open>shared/src/connection\<close>). The message manager
  (\<^verbatim>\<open>shared/src/messages\<close>) has a sender and a receiver for every channel, reliable or not, ordered, sequenced or unordered.
  The world manager (\<^verbatim>\<open>shared/src/world\<close>) sends commands on entities over a reliable channel of its own, and the engines of
  \<^verbatim>\<open>shared/src/world/sync\<close> turn what arrives, in any order, into events of the entities. Everything is written bit by bit
  (\<^verbatim>\<open>shared/serde\<close>), with the tags of the kinds that both sides registered in the same protocol. On the server
  (\<^verbatim>\<open>server/src\<close>) an authority handler decides which client may change a delegated entity.

  \<^bold>\<open>The model.\<close> A struct is a record, an enum a datatype, a function a HOL function of the same name with a prefix for its
  type (\<open>rr_buffer_message\<close> is \<^verbatim>\<open>ReliableReceiver::buffer_message\<close>). Integers are words of their width; \<^verbatim>\<open>usize\<close> counts of
  collections are naturals. An operation that can fail returns \<open>error + 'a\<close>: \<open>SerdeErr\<close> is the error value of the bit
  streams, \<open>Panic\<close> a panic with its message, \<open>Diverges\<close> a loop that never ends. A table whose iteration order the program
  depends on is an association list, or its order is an argument; the others are maps. Time is a natural number of
  milliseconds passed to the operations that read the clock. Loops and inner blocks of a function are definitions of their
  own beside the function that has them.

  \<^bold>\<open>The theories.\<close>
  \<^item> \<open>Naia_Prelude\<close>: words, errors, the sequencing operators \<open>rbind\<close> and \<open>rfold\<close> and the lemmas on lists and bits that the
    components share. \<open>Wrapping_Number\<close>: the comparisons of \<^verbatim>\<open>wrapping_number.rs\<close>, which agree with the unwrapped
    order in every window of less than half the range.
  \<^item> \<open>Bit_Writer\<close>, \<open>Fragment_Writer\<close>, \<open>Bit_Stream\<close>: \<^verbatim>\<open>bit_writer.rs\<close>, \<^verbatim>\<open>bit_counter.rs\<close>, \<^verbatim>\<open>bit_reader.rs\<close> and the
    writer of \<^verbatim>\<open>message_fragmenter.rs\<close>, three implementations of one trait, each interpreting the locale
    \<open>bit_write_impl\<close>. What is written is read back; a counter overflows exactly when the writer would panic.
  \<^item> \<open>Serde_Number\<close>, \<open>Serde\<close>, \<open>Packet_Header\<close>: the integers of \<^verbatim>\<open>number.rs\<close>, the implementations of the trait
    \<^verbatim>\<open>Serde\<close> and the packet header. The locales \<open>codec\<close> and \<open>serde\<close> are the contract of the trait (the bits written are
    read back and leave the rest of the stream alone, and the announced length is right), interpreted by each of them.
  \<^item> \<open>Sequence_Buffer\<close>, \<open>Loss_Monitor\<close>, \<open>Ack_Manager\<close>: the acknowledgement of packets. The safety theorem is over an
    inductive network of two managers that loses, duplicates and reorders packets.
  \<^item> \<open>Reliable_Receiver\<close>, \<open>Receiver_Arrangers\<close>: the duplicate filter of \<^verbatim>\<open>reliable_receiver.rs\<close> and the three
    arrangers (locale \<open>receiver_arranger\<close>). \<open>Reliable_Sender\<close>: the resend queue, refined to the list of the messages that
    are not acknowledged. \<open>Indexed_Messages\<close>: the wire format of the messages of a reliable channel.
  \<^item> \<open>Kind_Registry\<close>, \<open>Message_Kinds\<close>, \<open>Channels\<close>, \<open>Protocol\<close>: the registries of channels, messages, components and
    resources, what the derive macro generates for a message, the settings of channels, and the protocol id.
  \<^item> \<open>Fragmentation\<close>, \<open>Key_Generator\<close>, \<open>Request_Sender\<close>, \<open>Entity_Waitlist\<close>: cutting a large message and putting it together
    again, recycled keys, requests and their responses, and the messages that wait for entities to come into scope.
  \<^item> \<open>Channel_Senders\<close>, \<open>Channel_Receivers\<close>: the senders and receivers of the channels, composed of the above as the trait
    objects of the code. \<open>Reliable_Delivery\<close>: an ordered reliable channel delivers a stream of messages, in sending order
    and once each, whatever the network does with their parts.
  \<^item> \<open>Message_Manager\<close>: \<^verbatim>\<open>message_manager.rs\<close>, every operation. \<open>Message_Packets\<close>: a packet written by one manager is
    read back by the other. \<open>Message_Typing\<close>: both managers of a connection keep matching ends for every channel.
    \<open>Message_Delivery\<close>: what the application sends on an ordered reliable channel is what the application of the other
    side gets, through the fragmenter, the queue of the sender and the receiver.
  \<^item> \<open>Entity_Message\<close>, \<open>Ordered_Ids\<close>, \<open>Remote_Component_Channel\<close>, \<open>Auth_Channel\<close>, \<open>Remote_Entity_Channel\<close>,
    \<open>Remote_Engine\<close>: the receiving side of replication, with the locale \<open>ordered_buffer\<close> for the buffers of message ids.
    Events are applicable, guarded by the spawn of their entity, and independent of other entities.
    \<open>Host_Engine\<close>: the sending side, which sends legal histories. \<open>Entity_Convergence\<close>: any arrival order of the messages
    of a lifetime leads the receiver to the components of the sender.
  \<^item> \<open>Server_Authority\<close>: \<^verbatim>\<open>server_auth_handler.rs\<close> and the entity records of \<^verbatim>\<open>global_world_manager.rs\<close>, with the
    locale \<open>authority_registry\<close>. The status of an entity is the one its holder calls for, and no client takes it from
    another.

  Theorems whose names speak of a panic, a loss, a collision or a divergence show behaviour that the code has and a reader
  would not expect; each is a concrete run.

  \<^bold>\<open>Bounds and fuel.\<close> Every definition is total. The only fuel is in the loop of
  \<^verbatim>\<open>RemoteEntityChannel::process_messages\<close>, one turn more than the buffer is long: every turn but that of a \<open>Noop\<close>
  message shortens the buffer, so that running out of it is \<open>Diverges\<close>, and the engine theorems show that it does not
  happen. Theorems on sequence numbers assume windows below half the range of the number, as the comparisons of the source
  do; runs are of any length unless a theorem says otherwise.

  \<^bold>\<open>Parameters.\<close> The serialization of the messages of the application, generated from types that are not in the source, is
  a record of functions with the contract \<open>message_types_ok\<close>. The hash function of the protocol id, the entity
  converter and the scope of entities are arguments. Each property with such a hypothesis has a concrete instance.

  \<^bold>\<open>Not modelled.\<close>
  \<^item> Floating point: serialized floats, the round trip time and its jitter in \<^verbatim>\<open>ping_store.rs\<close>, the token bucket of
    \<^verbatim>\<open>bandwidth_accumulator.rs\<close>, priorities. A product of floats that the modelled code computes is an argument.
  \<^item> Strings, hash sets and hash maps on the wire: lossy conversion from UTF-8 and unspecified iteration order.
  \<^item> Component values: property mutators, diff masks and the update writer work on types generated by the derive macro
    through trait objects and shared interior mutability.
  \<^item> The bodies of \<^verbatim>\<open>server.rs\<close>, \<^verbatim>\<open>world_server.rs\<close> and \<^verbatim>\<open>client.rs\<close>: glue over sockets, clocks and a game world that the
    application supplies. The derive macros are token-stream transformers; only what they generate for messages, enums and
    structs is modelled.
  \<^item> Sockets, transports, the Bevy adapters, the test harness, and the code behind the debug and observability features.
\<close>

end
